(* ===== verification/Noodle_Prelude.thy ===== *)
theory Noodle_Prelude
  imports Main "HOL-Library.Word" "HOL-Library.Option_ord" "HOL-Library.Multiset"
begin

text \<open>
  Shared vocabulary of the development: the machine integers of the crate, the Rust
  \<open>Result\<close> type, little-endian bytes, \<open>checked_add\<close>, the first-minimum search behind
  \<open>Iterator::min_by_key\<close>, and lemmas on lists that several components use.

  Two conventions hold everywhere. A fallible operation returns \<open>result\<close>, with one
  constructor for each side of Rust's \<open>Result\<close>. An operation that may fail to return at all
  (a loop over a storage iterator that never ends, a panic, or a read of uninitialised memory)
  returns an \<open>option\<close>, and \<open>None\<close> is "does not return"; every property that matters
  proves that it is \<open>Some\<close>.
\<close>

unbundle bit_operations_syntax

named_theorems noodle_simps \<open>equations of the model's small operations\<close>

section \<open>Machine integers\<close>

type_synonym u8 = "8 word"
type_synonym u32 = "32 word"
type_synonym u64 = "64 word"

text \<open>\<open>checked_add\<close>: \<open>None\<close> on overflow.\<close>

definition checked_add :: "'w::len word \<Rightarrow> 'w word \<Rightarrow> 'w word option" where
  "checked_add a b =
     (if unat a + unat b < 2 ^ LENGTH('w) then Some (a + b) else None)"

lemma checked_add_Some_unat: "checked_add a b = Some c \<Longrightarrow> unat c = unat a + unat b"
  by (auto simp: checked_add_def unat_word_ariths split: if_splits)

lemma checked_add_None_iff:
  "checked_add (a::'w::len word) b = None \<longleftrightarrow> 2 ^ LENGTH('w) \<le> unat a + unat b"
  by (auto simp: checked_add_def)

lemma checked_add_one_less: "checked_add a (1::u32) = Some c \<Longrightarrow> a < c"
  by (drule checked_add_Some_unat) (simp add: word_less_nat_alt)

lemma checked_add_one_nonzero: "checked_add a (1::u32) = Some c \<Longrightarrow> c \<noteq> 0"
  using checked_add_one_less [of a c] by auto

text \<open>\<open>u32::to_le_bytes\<close> and \<open>u32::from_le_bytes\<close>, and \<open>NonZeroU32::new\<close>.\<close>

definition to_le_bytes :: "u32 \<Rightarrow> u8 list" where
  "to_le_bytes w =
     [ucast w, ucast (drop_bit 8 w), ucast (drop_bit 16 w), ucast (drop_bit 24 w)]"

fun from_le_bytes :: "u8 list \<Rightarrow> u32" where
  "from_le_bytes [] = 0"
| "from_le_bytes (b # bs) = ucast b OR push_bit 8 (from_le_bytes bs)"

definition nonzero :: "u32 \<Rightarrow> u32 option" where
  "nonzero w = (if w = 0 then None else Some w)"

lemma length_to_le_bytes [simp]: "length (to_le_bytes w) = 4"
  by (simp add: to_le_bytes_def)

lemma from_to_le_bytes [simp]: "from_le_bytes (to_le_bytes w) = w"
proof (rule bit_eqI)
  fix n assume "possible_bit TYPE(32 word) n"
  then have n: "n < 32" by simp
  consider "n < 8" | "8 \<le> n" "n < 16" | "16 \<le> n" "n < 24" | "24 \<le> n" by linarith
  then show "bit (from_le_bytes (to_le_bytes w)) n = bit w n"
    using n
    by cases (auto simp: to_le_bytes_def bit_simps)
qed

lemma to_from_le_bytes [simp]:
  assumes "length bs = 4"
  shows "to_le_bytes (from_le_bytes bs) = bs"
proof -
  obtain a b c d where bs: "bs = [a, b, c, d]"
    using assms by (auto simp: numeral_eq_Suc length_Suc_conv)
  have "\<not> bit x (8 + n)" "\<not> bit x (16 + n)" "\<not> bit x (24 + n)" for x :: u8 and n
    using bit_imp_le_length [of x] by force+
  then show ?thesis
    unfolding bs by (auto simp: to_le_bytes_def intro!: bit_word_eqI simp: bit_simps)
qed

lemma nonzero_Some [simp]: "nonzero w = Some v \<longleftrightarrow> v = w \<and> w \<noteq> 0"
  by (auto simp: nonzero_def)

section \<open>Results\<close>

datatype ('a, 'e) result = Ok 'a | Err 'e

definition is_ok :: "('a, 'e) result \<Rightarrow> bool" where
  "is_ok r = (case r of Ok _ \<Rightarrow> True | Err _ \<Rightarrow> False)"

lemma is_ok_simps [simp]: "is_ok (Ok a)" "\<not> is_ok (Err e)"
  by (simp_all add: is_ok_def)

section \<open>The first minimum of a list\<close>

text \<open>
  \<open>Iterator::min_by_key\<close> returns the first element among those with the least key, and
  nothing on an empty iterator; the position is what a \<open>&mut\<close> result stands for.
\<close>

fun min_index :: "('a \<Rightarrow> 'b::linorder) \<Rightarrow> 'a list \<Rightarrow> nat option" where
  "min_index f [] = None"
| "min_index f (x # xs) =
     (case min_index f xs of
        None \<Rightarrow> Some 0
      | Some i \<Rightarrow> if f x \<le> f (xs ! i) then Some 0 else Some (Suc i))"

lemma min_index_None [simp]: "min_index f xs = None \<longleftrightarrow> xs = []"
  by (cases xs) (auto split: option.splits if_splits)

lemma min_index_lt: "min_index f xs = Some i \<Longrightarrow> i < length xs"
  by (induction xs arbitrary: i) (auto split: option.splits if_splits)

lemma min_index_le: "min_index f xs = Some i \<Longrightarrow> x \<in> set xs \<Longrightarrow> f (xs ! i) \<le> f x"
proof (induction xs arbitrary: i x)
  case Nil
  then show ?case by simp
next
  case (Cons y xs)
  show ?case
  proof (cases "min_index f xs")
    case None
    with Cons.prems show ?thesis by auto
  next
    case (Some j)
    have j: "f (xs ! j) \<le> f z" if "z \<in> set xs" for z
      using Cons.IH [OF Some] that by blast
    show ?thesis
      using Cons.prems Some j by (auto split: if_splits intro: order_trans)
  qed
qed

lemma min_index_first:
  "min_index f xs = Some i \<Longrightarrow> j < i \<Longrightarrow> f (xs ! i) < f (xs ! j)"
proof (induction xs arbitrary: i j)
  case Nil
  then show ?case by simp
next
  case (Cons y xs)
  then obtain k where k: "min_index f xs = Some k" "i = Suc k" "\<not> f y \<le> f (xs ! k)"
    by (auto split: option.splits if_splits)
  show ?case
    using Cons.prems k Cons.IH by (cases j) auto
qed

section \<open>Lists\<close>

lemma in_set_tl: "x \<in> set (tl xs) \<Longrightarrow> x \<in> set xs"
  by (cases xs) auto

lemma sorted_last_ge: "sorted xs \<Longrightarrow> x \<in> set xs \<Longrightarrow> x \<le> last xs"
  by (induction xs) auto

lemma map_sort_key: "map f (sort_key f xs) = sort (map f xs)"
  by (rule sym, rule properties_for_sort) simp_all

lemma sort_mset_cong: "mset xs = mset ys \<Longrightarrow> sort xs = sort ys"
  by (rule properties_for_sort) simp_all

lemma mset_update_hd:
  "i < length ys \<Longrightarrow> ys ! i = hd ys \<Longrightarrow> mset (ys[i := y]) = mset (y # tl ys)"
  by (cases ys; cases i) (auto simp: mset_update)

text \<open>
  Replacing the smallest element of a sorted list, unless the new one is smaller still, keeps
  the suffix of what a full insertion would give.
\<close>

definition insert_key :: "'a::linorder \<Rightarrow> 'a list \<Rightarrow> 'a list" where
  "insert_key k ks = (if k < hd ks then ks else insort k (tl ks))"

lemma insort_le_hd: "sorted ys \<Longrightarrow> (\<And>z. z \<in> set ys \<Longrightarrow> y \<le> z) \<Longrightarrow> insort y ys = y # ys"
  by (cases ys) auto

lemma drop_insort:
  "sorted ys \<Longrightarrow> n < length ys \<Longrightarrow> drop (Suc n) (insort y ys) = insert_key y (drop n ys)"
proof (induction n arbitrary: ys)
  case 0
  then obtain a t where ys: "ys = a # t" by (cases ys) auto
  with 0 have "insort a t = a # t" by (intro insort_le_hd) auto
  with ys show ?case by (auto simp: insert_key_def)
next
  case (Suc n)
  then obtain a t where ys: "ys = a # t" by (cases ys) auto
  show ?case
  proof (cases "y \<le> a")
    case True
    from Suc.prems ys have "drop n t \<noteq> []" by auto
    then obtain b u where u: "drop n t = b # u" by (cases "drop n t") auto
    then have "sorted (b # u)" using Suc.prems ys sorted_wrt_drop [of "(\<le>)" t n] by simp
    moreover have "a \<le> b"
      using Suc.prems(1) ys u in_set_dropD [of b n t] by auto
    moreover from this have "y < b \<or> y = b"
      using True by auto
    ultimately show ?thesis
      using True ys u insort_le_hd [of u b] by (auto simp: insert_key_def)
  next
    case False
    with Suc ys show ?thesis by simp
  qed
qed

end
