(* ===== verification/Node_State.thy ===== *)
theory Node_State
  imports Noodle_Prelude
begin

text \<open>
  The state of a node and its representation in an \<open>AtomicU8\<close>
  (\<open>State\<close> and \<open>AtomicState\<close> of \<open>storage_node.rs\<close>), the transition diagram that
  \<open>storage_node.rs\<close> and \<open>safety_guide.rs\<close> draw, and the error types of \<open>error.rs\<close>.
\<close>

type_synonym key = string

section \<open>Node states\<close>

datatype state = Initial | NonResident | ValidNoWriteNeeded | NeedsWrite

fun into_u8 :: "state \<Rightarrow> u8" where
  "into_u8 Initial = 0"
| "into_u8 NonResident = 1"
| "into_u8 ValidNoWriteNeeded = 2"
| "into_u8 NeedsWrite = 3"

definition try_from_u8 :: "u8 \<Rightarrow> state option" where
  "try_from_u8 v =
     (if v = 0 then Some Initial
      else if v = 1 then Some NonResident
      else if v = 2 then Some ValidNoWriteNeeded
      else if v = 3 then Some NeedsWrite
      else None)"

text \<open>
  \<open>AtomicState\<close> keeps the byte. \<open>load\<close> ends in \<open>unwrap_unchecked\<close>, which is undefined
  behaviour on a byte that no state has: \<open>None\<close> here.
\<close>

datatype atomic_state = AtomicState u8

definition atomic_new :: "state \<Rightarrow> atomic_state" where
  "atomic_new init = AtomicState (into_u8 init)"

definition atomic_store :: "atomic_state \<Rightarrow> state \<Rightarrow> atomic_state" where
  "atomic_store a v = AtomicState (into_u8 v)"

fun atomic_load :: "atomic_state \<Rightarrow> state option" where
  "atomic_load (AtomicState b) = try_from_u8 b"

lemma try_from_into_u8 [simp]: "try_from_u8 (into_u8 s) = Some s"
  by (cases s) (simp_all add: try_from_u8_def)

lemma into_from_u8: "try_from_u8 b = Some s \<longleftrightarrow> b = into_u8 s"
  by (cases s) (auto simp: try_from_u8_def split: if_splits)

lemma atomic_load_new [simp]: "atomic_load (atomic_new s) = Some s"
  by (simp add: atomic_new_def)

lemma atomic_load_store [simp]: "atomic_load (atomic_store a s) = Some s"
  by (simp add: atomic_store_def)

instantiation state :: linorder
begin

definition less_eq_state :: "state \<Rightarrow> state \<Rightarrow> bool" where
  "less_eq_state a b \<longleftrightarrow> unat (into_u8 a) \<le> unat (into_u8 b)"

definition less_state :: "state \<Rightarrow> state \<Rightarrow> bool" where
  "less_state a b \<longleftrightarrow> unat (into_u8 a) < unat (into_u8 b)"

instance
proof
  fix a b c :: state
  show "a < b \<longleftrightarrow> a \<le> b \<and> \<not> b \<le> a"
    by (simp add: less_eq_state_def less_state_def less_le_not_le)
  show "a \<le> a"
    by (simp add: less_eq_state_def)
  show "a \<le> b \<Longrightarrow> b \<le> c \<Longrightarrow> a \<le> c"
    unfolding less_eq_state_def by (rule order_trans)
  show "a \<le> b \<Longrightarrow> b \<le> a \<Longrightarrow> a = b"
    by (cases a; cases b) (simp_all add: less_eq_state_def)
  show "a \<le> b \<or> b \<le> a"
    unfolding less_eq_state_def by (rule linear)
qed

end

section \<open>The transition diagram\<close>

text \<open>The states in which the data item of a node is initialised and may be read.\<close>

definition has_data :: "state \<Rightarrow> bool" where
  "has_data s \<longleftrightarrow> s = ValidNoWriteNeeded \<or> s = NeedsWrite"

lemma has_data_simps [simp]:
  "\<not> has_data Initial" "\<not> has_data NonResident"
  "has_data ValidNoWriteNeeded" "has_data NeedsWrite"
  by (simp_all add: has_data_def)

lemma has_data_ge: "has_data s \<longleftrightarrow> ValidNoWriteNeeded \<le> s"
  by (cases s) (simp_all add: less_eq_state_def)

text \<open>The numbered arrows of the diagram.\<close>

inductive transition :: "state \<Rightarrow> state \<Rightarrow> bool" where
  t1: "transition Initial NonResident"
| t2: "transition Initial ValidNoWriteNeeded"
| t3: "transition NonResident NeedsWrite"
| t4: "transition NeedsWrite ValidNoWriteNeeded"
| t5: "transition ValidNoWriteNeeded NeedsWrite"
| t6: "transition s Initial"

inductive_cases transition_from_Initial: "transition Initial s"
inductive_cases transition_from_NonResident: "transition NonResident s"
inductive_simps transition_to_NeedsWrite: "transition s NeedsWrite"
inductive_simps transition_to_Valid: "transition s ValidNoWriteNeeded"

code_pred transition .

section \<open>Errors (\<open>error.rs\<close>)\<close>

datatype error =
    Deserialization
  | Serialization
  | DuplicateKey
  | NeedsFirstRead
  | NeedsGarbageCollect
  | InvalidState key state
  | InconsistentFlash
  | AlreadyTaken
  | NodeInOtherList

datatype 'e load_store_error =
    FlashWrite 'e
  | FlashRead 'e
  | InvalidBufferSize
  | WriteVerificationFailed
  | AppError error

end
