(* ===== verification/Element.thy ===== *)
theory Element
  imports Node_State
begin

text \<open>
  The elements of a write record as \<open>lib.rs\<close> defines them: the header constants, serialised
  data elements (\<open>SerData\<close>), their key/value view (\<open>KvPair\<close>), the three kinds of element
  (\<open>Elem\<close>) and the running CRC (\<open>Crc32\<close>).

  The crates behind them are not part of the repository and are parameters: \<open>externs\<close>
  bundles the checksum of the \<open>crc\<close> crate and minicbor's codec for strings, \<open>codec\<close> is
  what minicbor's derived \<open>Encode\<close>, \<open>Decode\<close> and \<open>CborLen\<close> give for one stored type. The
  laws a property needs of them are the predicates \<open>externs_ok\<close> and \<open>roundtrips\<close>.
\<close>

section \<open>Third-party code\<close>

record externs =
  ext_crc :: "u8 list \<Rightarrow> u32"            \<comment> \<open>\<open>Crc::<u32>::checksum\<close> of all bytes fed to the digest\<close>
  str_encode :: "key \<Rightarrow> u8 list"         \<comment> \<open>\<open>minicbor::encode\<close> of a string\<close>
  str_decode :: "u8 list \<Rightarrow> key option"  \<comment> \<open>\<open>minicbor::decode::<&str>\<close>, which ignores what follows\<close>
  str_len :: "key \<Rightarrow> nat"                \<comment> \<open>\<open>len_with(key)\<close>\<close>

record 'v codec =
  cd_encode :: "'v \<Rightarrow> u8 list"
  cd_decode :: "u8 list \<Rightarrow> 'v option"
  cd_len :: "'v \<Rightarrow> nat"

text \<open>
  What minicbor documents: a string is never encoded to nothing, \<open>CborLen\<close> is the length of the
  encoding, and decoding reads back what was encoded, whatever bytes come after it.
\<close>

definition externs_ok :: "externs \<Rightarrow> bool" where
  "externs_ok X \<longleftrightarrow>
     (\<forall>k. str_encode X k \<noteq> []) \<and>
     (\<forall>k. str_len X k = length (str_encode X k)) \<and>
     (\<forall>k rest. str_decode X (str_encode X k @ rest) = Some k)"

definition roundtrips :: "'v codec \<Rightarrow> 'v \<Rightarrow> bool" where
  "roundtrips c v \<longleftrightarrow>
     cd_decode c (cd_encode c v) = Some v \<and> cd_len c v = length (cd_encode c v)"

lemma externs_okD:
  assumes "externs_ok X"
  shows "str_encode X k \<noteq> []"
    and "str_len X k = length (str_encode X k)"
    and "str_decode X (str_encode X k @ rest) = Some k"
  using assms by (auto simp: externs_ok_def)

section \<open>Header bytes (\<open>consts\<close>)\<close>

definition ELEM_VERSION_MASK :: u8 where "ELEM_VERSION_MASK = 0b11110000"
definition ELEM_DISCRIMINANT_MASK :: u8 where "ELEM_DISCRIMINANT_MASK = 0b00001111"
definition ELEM_VERSION_V0 :: u8 where "ELEM_VERSION_V0 = 0b00000000"
definition ELEM_DISCRIMINANT_START :: u8 where "ELEM_DISCRIMINANT_START = 0b00000000"
definition ELEM_DISCRIMINANT_DATA :: u8 where "ELEM_DISCRIMINANT_DATA = 0b00000001"
definition ELEM_DISCRIMINANT_END :: u8 where "ELEM_DISCRIMINANT_END = 0b00000010"

definition V0_START :: u8 where "V0_START = ELEM_VERSION_V0 OR ELEM_DISCRIMINANT_START"
definition V0_DATA :: u8 where "V0_DATA = ELEM_VERSION_V0 OR ELEM_DISCRIMINANT_DATA"
definition V0_END :: u8 where "V0_END = ELEM_VERSION_V0 OR ELEM_DISCRIMINANT_END"

lemma V0_values [simp]: "V0_START = 0" "V0_DATA = 1" "V0_END = 2"
  by (simp_all add: V0_START_def V0_DATA_def V0_END_def ELEM_VERSION_V0_def
      ELEM_DISCRIMINANT_START_def ELEM_DISCRIMINANT_DATA_def ELEM_DISCRIMINANT_END_def)

section \<open>Serialised data elements\<close>

datatype ser_data = SerData (hdr_key_val: "u8 list")

text \<open>\<open>SerData::new\<close> overwrites the first byte of the slice it is given.\<close>

fun ser_data_new :: "u8 list \<Rightarrow> ser_data option" where
  "ser_data_new [] = None"
| "ser_data_new (_ # rest) =
     Some (SerData ((ELEM_VERSION_V0 OR ELEM_DISCRIMINANT_DATA) # rest))"

definition ser_data_from_existing :: "u8 list \<Rightarrow> ser_data option" where
  "ser_data_from_existing data = (if data = [] then None else Some (SerData data))"

text \<open>\<open>hdr\<close> reads with \<open>get_unchecked(0)\<close>: undefined behaviour on an empty slice.\<close>

definition ser_hdr :: "ser_data \<Rightarrow> u8 option" where
  "ser_hdr d = (case hdr_key_val d of [] \<Rightarrow> None | b # _ \<Rightarrow> Some b)"

definition key_val :: "ser_data \<Rightarrow> u8 list" where
  "key_val d = (case hdr_key_val d of [] \<Rightarrow> [] | _ # rest \<Rightarrow> rest)"

datatype kv_pair = KvPair (kv_key: key) (kv_body: "u8 list")

definition get_from :: "nat \<Rightarrow> 'a list \<Rightarrow> 'a list option" where
  "get_from n xs = (if n \<le> length xs then Some (drop n xs) else None)"

definition kv_pair :: "externs \<Rightarrow> ser_data \<Rightarrow> (kv_pair, error) result" where
  "kv_pair X d =
     (let item = key_val d in
      case str_decode X item of
        None \<Rightarrow> Err Deserialization
      | Some key \<Rightarrow>
          (case get_from (str_len X key) item of
             None \<Rightarrow> Err Deserialization
           | Some remain \<Rightarrow> Ok (KvPair key remain)))"

lemma key_val_SerData [simp]: "key_val (SerData (b # r)) = r" "key_val (SerData []) = []"
  by (simp_all add: key_val_def)

lemma ser_data_new_Some:
  "ser_data_new bs = Some d \<Longrightarrow> hdr_key_val d = V0_DATA # tl bs \<and> bs \<noteq> []"
  by (cases bs) (auto simp: ELEM_VERSION_V0_def ELEM_DISCRIMINANT_DATA_def)

lemma ser_data_from_existing_Some [simp]:
  "ser_data_from_existing bs = Some d \<longleftrightarrow> d = SerData bs \<and> bs \<noteq> []"
  by (auto simp: ser_data_from_existing_def)

text \<open>A data element as it is laid out by serialising a key and a body.\<close>

lemma kv_pair_encoded:
  assumes "externs_ok X"
  shows "kv_pair X (SerData (h # str_encode X k @ body)) = Ok (KvPair k body)"
  using externs_okD [OF assms] by (simp add: kv_pair_def get_from_def)

section \<open>Elements\<close>

datatype elem =
    Start u32
  | Data ser_data
  | End u32 u32

text \<open>
  What the Rust types of an \<open>Elem\<close> guarantee: sequence numbers are \<open>NonZeroU32\<close>, and a
  \<open>SerData\<close> is never built on an empty slice.
\<close>

fun elem_typed :: "elem \<Rightarrow> bool" where
  "elem_typed (Start seq) \<longleftrightarrow> seq \<noteq> 0"
| "elem_typed (Data d) \<longleftrightarrow> hdr_key_val d \<noteq> []"
| "elem_typed (End seq crc) \<longleftrightarrow> seq \<noteq> 0"

text \<open>
  The elements the crate itself pushes: as above, and data elements carry the v0 data header and
  at least one byte of key.
\<close>

fun storable :: "elem \<Rightarrow> bool" where
  "storable (Start seq) \<longleftrightarrow> seq \<noteq> 0"
| "storable (Data d) \<longleftrightarrow> (\<exists>kv. hdr_key_val d = V0_DATA # kv \<and> kv \<noteq> [])"
| "storable (End seq crc) \<longleftrightarrow> seq \<noteq> 0"

lemma storable_typed: "storable e \<Longrightarrow> elem_typed e"
  by (cases e) auto

section \<open>CRC\<close>

text \<open>
  The digest of the \<open>crc\<close> crate is documented to depend on the concatenation of everything fed to
  it, so the running digest is that concatenation.
\<close>

datatype crc32 = Crc32 (crc_fed: "u8 list")

definition crc_new :: crc32 where
  "crc_new = Crc32 []"

definition crc_update :: "crc32 \<Rightarrow> u8 list \<Rightarrow> crc32" where
  "crc_update c data = Crc32 (crc_fed c @ data)"

definition crc_finalize :: "externs \<Rightarrow> crc32 \<Rightarrow> u32" where
  "crc_finalize X c = ext_crc X (crc_fed c)"

lemma crc_update_append: "crc_update (crc_update c a) b = crc_update c (a @ b)"
  by (simp add: crc_update_def)

lemma crc_fed_update [simp]: "crc_fed (crc_update c a) = crc_fed c @ a"
  by (simp add: crc_update_def)

lemma crc_fed_new [simp]: "crc_fed crc_new = []"
  by (simp add: crc_new_def)

text \<open>The checksum a write record with these data elements carries in its end element.\<close>

definition record_crc :: "externs \<Rightarrow> ser_data list \<Rightarrow> u32" where
  "record_crc X ds = ext_crc X (concat (map key_val ds))"

end
