(* ===== verification/Seq_State.thy ===== *)
theory Seq_State
  imports Element
begin

text \<open>
  The cache of a \<open>StorageList\<close> (\<open>GoodWriteRecord\<close> and \<open>SeqState\<close> of
  \<open>storage_list.rs\<close>): the next sequence number, the most recent valid write records in
  ascending order of their sequence numbers, and whether garbage collection is due.

  The contract of \<open>insert_good\<close> is abstract: inserting any number of records leaves the
  \<open>KEPT_RECORDS\<close> largest sequence numbers, in order (\<open>insert_all_seqs\<close>).
\<close>

section \<open>Data\<close>

record good_write_record =
  gr_seq :: u32
  gr_start :: nat     \<comment> \<open>\<open>range.start()\<close>\<close>
  gr_end :: nat       \<comment> \<open>\<open>range.end()\<close>, inclusive\<close>

definition range_contains :: "good_write_record \<Rightarrow> nat \<Rightarrow> bool" where
  "range_contains r n \<longleftrightarrow> gr_start r \<le> n \<and> n \<le> gr_end r"

record seq_state =
  next_seq :: "u32 option"
  last_records :: "good_write_record option list"
  needs_gc :: bool

section \<open>Operations\<close>

definition seq_new :: "nat \<Rightarrow> seq_state" where
  "seq_new kept = \<lparr>next_seq = None, last_records = replicate kept None, needs_gc = False\<rparr>"

definition initial_scan_completed :: "seq_state \<Rightarrow> bool" where
  "initial_scan_completed s \<longleftrightarrow> next_seq s \<noteq> None"

definition highest_seen :: "seq_state \<Rightarrow> good_write_record option" where
  "highest_seen s = (case last_records s of [] \<Rightarrow> None | r # rs \<Rightarrow> last (r # rs))"

text \<open>The key by which \<open>insert_good\<close> looks for the slot to replace.\<close>

definition slot_key :: "good_write_record option \<Rightarrow> u32" where
  "slot_key r = (case r of Some r \<Rightarrow> gr_seq r | None \<Rightarrow> 0)"

text \<open>
  The tail of \<open>insert_good\<close>: write the slot, sort, recompute the next sequence number and ask
  for garbage collection. \<open>sort_unstable_by_key\<close> may order equal keys in any way; the model
  sorts stably, and no property below depends on the order of equal keys.
\<close>

definition put_record :: "nat \<Rightarrow> good_write_record \<Rightarrow> seq_state \<Rightarrow> seq_state" where
  "put_record i rec s =
     (let recs = sort_key (map_option gr_seq) ((last_records s)[i := Some rec]);
          next = (case recs ! (length recs - 1) of Some n \<Rightarrow> gr_seq n | None \<Rightarrow> 1)
      in s\<lparr>last_records := recs, next_seq := checked_add next 1, needs_gc := True\<rparr>)"

text \<open>\<open>None\<close> is the panic of \<open>expect\<close> on an array of length 0.\<close>

definition insert_good :: "good_write_record \<Rightarrow> seq_state \<Rightarrow> seq_state option" where
  "insert_good rec s =
     (case min_index slot_key (last_records s) of
        None \<Rightarrow> None
      | Some i \<Rightarrow>
          (case last_records s ! i of
             Some lowest \<Rightarrow>
               if gr_seq lowest > gr_seq rec then Some s else Some (put_record i rec s)
           | None \<Rightarrow> Some (put_record i rec s)))"

fun insert_all :: "good_write_record list \<Rightarrow> seq_state \<Rightarrow> seq_state option" where
  "insert_all [] s = Some s"
| "insert_all (r # rs) s =
     (case insert_good r s of None \<Rightarrow> None | Some s' \<Rightarrow> insert_all rs s')"

lemma insert_all_append:
  "insert_all (rs @ rs') s =
     (case insert_all rs s of None \<Rightarrow> None | Some s' \<Rightarrow> insert_all rs' s')"
  by (induction rs arbitrary: s) (auto split: option.splits)

section \<open>Well-formedness\<close>

definition seq_keys :: "seq_state \<Rightarrow> u32 option list" where
  "seq_keys s = map (map_option gr_seq) (last_records s)"

definition seq_wf :: "nat \<Rightarrow> seq_state \<Rightarrow> bool" where
  "seq_wf kept s \<longleftrightarrow>
     0 < kept \<and> length (last_records s) = kept \<and> sorted (seq_keys s) \<and>
     Some 0 \<notin> set (seq_keys s)"

lemma seq_wf_new: "0 < kept \<Longrightarrow> seq_wf kept (seq_new kept)"
  by (auto simp: seq_wf_def seq_new_def seq_keys_def sorted_iff_nth_mono)

lemma seq_wf_nonempty: "seq_wf kept s \<Longrightarrow> last_records s \<noteq> []"
  by (auto simp: seq_wf_def)

lemma length_seq_keys [simp]: "length (seq_keys s) = length (last_records s)"
  by (simp add: seq_keys_def)

text \<open>On a sorted list, the smallest element is the first one.\<close>

lemma min_slot_is_hd:
  assumes "seq_wf kept s" and "min_index slot_key (last_records s) = Some i"
  shows "i < length (last_records s)" and "seq_keys s ! i = hd (seq_keys s)"
proof -
  let ?L = "last_records s"
  show i: "i < length ?L" using assms(2) by (rule min_index_lt)
  have ne: "?L \<noteq> []" using assms(1) by (rule seq_wf_nonempty)
  then have hd: "hd (seq_keys s) = seq_keys s ! 0" and L0: "?L ! 0 \<in> set ?L"
    by (auto simp: hd_conv_nth seq_keys_def)
  have le1: "seq_keys s ! 0 \<le> seq_keys s ! i"
    using assms(1) i by (auto simp: seq_wf_def intro: sorted_nth_mono)
  have nz: "Some 0 \<notin> set (seq_keys s)" using assms(1) by (simp add: seq_wf_def)
  have le2: "slot_key (?L ! i) \<le> slot_key (?L ! 0)"
    using min_index_le [OF assms(2) L0] .
  have k0: "seq_keys s ! 0 = map_option gr_seq (?L ! 0)"
    and ki: "seq_keys s ! i = map_option gr_seq (?L ! i)"
    using i ne by (simp_all add: seq_keys_def)
  have n0: "seq_keys s ! i \<noteq> Some 0"
    using nz i by (metis length_seq_keys nth_mem)
  show "seq_keys s ! i = hd (seq_keys s)"
  proof (cases "?L ! i")
    case None
    with le1 hd k0 ki show ?thesis by (cases "?L ! 0") auto
  next
    case (Some r)
    with n0 ki have "gr_seq r \<noteq> 0" by simp
    with le1 le2 hd k0 ki Some show ?thesis
      by (cases "?L ! 0") (auto simp: slot_key_def)
  qed
qed

section \<open>One insertion\<close>

text \<open>The effect of an insertion on the sequence numbers alone is \<open>insert_key\<close>.\<close>

lemma put_record_keys:
  assumes "seq_wf kept s" and "min_index slot_key (last_records s) = Some i"
  shows "seq_keys (put_record i rec s) = insort (Some (gr_seq rec)) (tl (seq_keys s))"
proof -
  have "seq_keys (put_record i rec s) = sort (map (map_option gr_seq) ((last_records s)[i := Some rec]))"
    by (simp add: seq_keys_def put_record_def Let_def map_sort_key)
  also have "\<dots> = sort ((seq_keys s)[i := Some (gr_seq rec)])"
    by (simp add: seq_keys_def map_update)
  also have "\<dots> = sort (Some (gr_seq rec) # tl (seq_keys s))"
    using min_slot_is_hd [OF assms] by (intro sort_mset_cong mset_update_hd) simp_all
  also have "\<dots> = insort (Some (gr_seq rec)) (tl (seq_keys s))"
    using assms(1) by (simp add: seq_wf_def sorted_sort_id sorted_tl)
  finally show ?thesis .
qed

lemma insert_good_cases:
  assumes "seq_wf kept s"
  obtains (skip) "insert_good rec s = Some s" "Some (gr_seq rec) < hd (seq_keys s)"
  | (put) i where "insert_good rec s = Some (put_record i rec s)"
      "min_index slot_key (last_records s) = Some i"
      "\<not> Some (gr_seq rec) < hd (seq_keys s)"
proof -
  obtain i where i: "min_index slot_key (last_records s) = Some i"
    using seq_wf_nonempty [OF assms] by (cases "min_index slot_key (last_records s)") auto
  note hd = min_slot_is_hd [OF assms i]
  then have k: "hd (seq_keys s) = map_option gr_seq (last_records s ! i)"
    by (simp add: seq_keys_def)
  show thesis
  proof (cases "last_records s ! i")
    case None
    with i k that(2) show ?thesis by (simp add: insert_good_def)
  next
    case (Some r)
    with i k that show ?thesis
      by (cases "gr_seq r > gr_seq rec") (simp_all add: insert_good_def)
  qed
qed

lemma insert_good_Some: "seq_wf kept s \<Longrightarrow> \<exists>s'. insert_good rec s = Some s'"
  by (erule insert_good_cases [of kept s rec]) auto

lemma insert_good_keys:
  assumes "seq_wf kept s" and "insert_good rec s = Some s'"
  shows "seq_keys s' = insert_key (Some (gr_seq rec)) (seq_keys s)"
  using assms(1)
proof (cases rule: insert_good_cases [of kept s rec])
  case skip
  with assms(2) show ?thesis by (simp add: insert_key_def)
next
  case (put i)
  then have s': "s' = put_record i rec s" using assms(2) by simp
  show ?thesis
    unfolding s' using put(3) by (simp add: put_record_keys [OF assms(1) put(2)] insert_key_def)
qed

lemma length_put_record [simp]:
  "length (last_records (put_record i rec s)) = length (last_records s)"
  by (simp add: put_record_def Let_def)

lemma insert_good_wf:
  assumes "seq_wf kept s" and "insert_good rec s = Some s'" and "gr_seq rec \<noteq> 0"
  shows "seq_wf kept s'"
  using assms(1)
proof (cases rule: insert_good_cases [of kept s rec])
  case skip
  with assms show ?thesis by simp
next
  case (put i)
  then have s': "s' = put_record i rec s" using assms(2) by simp
  have keys: "seq_keys s' = insort (Some (gr_seq rec)) (tl (seq_keys s))"
    unfolding s' by (rule put_record_keys [OF assms(1) put(2)])
  have "sorted (seq_keys s')"
    using assms(1) by (simp add: keys sorted_insort sorted_tl seq_wf_def)
  moreover have "Some 0 \<notin> set (seq_keys s')"
    using assms by (auto simp: keys set_insort_key seq_wf_def dest: in_set_tl)
  ultimately show ?thesis
    using assms(1) by (simp add: seq_wf_def s')
qed

section \<open>The records that are present\<close>

definition present :: "seq_state \<Rightarrow> good_write_record list" where
  "present s = map the (filter (\<lambda>r. r \<noteq> None) (last_records s))"

lemma set_present: "r \<in> set (present s) \<longleftrightarrow> Some r \<in> set (last_records s)"
  by (force simp: present_def)

lemma present_keys: "gr_seq ` set (present s) = {k. Some k \<in> set (seq_keys s)}"
proof -
  have img: "Some k \<in> map_option gr_seq ` A \<longleftrightarrow> (\<exists>r. Some r \<in> A \<and> k = gr_seq r)" for k A
  proof
    assume "Some k \<in> map_option gr_seq ` A"
    then obtain x where "x \<in> A" "Some k = map_option gr_seq x" by blast
    then show "\<exists>r. Some r \<in> A \<and> k = gr_seq r" by (cases x) auto
  next
    assume "\<exists>r. Some r \<in> A \<and> k = gr_seq r"
    then obtain r where "Some r \<in> A" "k = gr_seq r" by blast
    then show "Some k \<in> map_option gr_seq ` A" by (intro rev_image_eqI [of "Some r"]) simp_all
  qed
  have "Some k \<in> set (seq_keys s) \<longleftrightarrow> (\<exists>r \<in> set (present s). k = gr_seq r)" for k
    unfolding seq_keys_def set_map img by (auto simp: set_present)
  then show ?thesis by auto
qed

lemma present_new [simp]: "present (seq_new kept) = []"
  by (simp add: present_def seq_new_def)

lemma mset_present_put:
  assumes "i < length (last_records s)"
  shows "mset (present (put_record i rec s)) \<subseteq># add_mset rec (mset (present s))"
proof -
  let ?P = "\<lambda>r :: good_write_record option. r \<noteq> None"
  let ?L = "last_records s"
  have "mset (present (put_record i rec s)) =
      image_mset the (filter_mset ?P (mset (?L[i := Some rec])))"
    by (simp add: present_def put_record_def Let_def)
  also have "mset (?L[i := Some rec]) = add_mset (Some rec) (mset ?L - {#?L ! i#})"
    using assms by (rule mset_update)
  also have "image_mset the (filter_mset ?P \<dots>) \<subseteq>#
      add_mset rec (image_mset the (filter_mset ?P (mset ?L)))"
    by (simp add: image_mset_subseteq_mono multiset_filter_mono)
  finally show ?thesis by (simp add: present_def)
qed

lemma mset_present_insert_good:
  assumes "insert_good rec s = Some s'"
  shows "mset (present s') \<subseteq># add_mset rec (mset (present s))"
  using assms mset_present_put [OF min_index_lt, of slot_key s _ rec]
  by (auto simp: insert_good_def split: option.splits if_splits)

lemma mset_present_insert_all:
  "insert_all rs s = Some s' \<Longrightarrow> mset (present s') \<subseteq># mset rs + mset (present s)"
proof (induction rs arbitrary: s)
  case Nil
  then show ?case by simp
next
  case (Cons r rs)
  then obtain s1 where s1: "insert_good r s = Some s1" "insert_all rs s1 = Some s'"
    by (auto split: option.splits)
  from Cons.IH [OF s1(2)] have "mset (present s') \<subseteq># mset rs + mset (present s1)" .
  also have "\<dots> \<subseteq># mset rs + add_mset r (mset (present s))"
    using mset_present_insert_good [OF s1(1)] by simp
  finally show ?case by simp
qed

section \<open>The next sequence number\<close>

lemma highest_seen_last: "last_records s \<noteq> [] \<Longrightarrow> highest_seen s = last (last_records s)"
  by (cases "last_records s") (simp_all add: highest_seen_def)

definition next_ok :: "seq_state \<Rightarrow> bool" where
  "next_ok s \<longleftrightarrow>
     (case highest_seen s of
        None \<Rightarrow> next_seq s = None \<or> next_seq s = Some 1
      | Some r \<Rightarrow> next_seq s = checked_add (gr_seq r) 1)"

lemma highest_seen_keys:
  "last_records s \<noteq> [] \<Longrightarrow> map_option gr_seq (highest_seen s) = last (seq_keys s)"
  by (simp add: highest_seen_last seq_keys_def last_map)

lemma highest_seen_new [simp]: "highest_seen (seq_new kept) = None"
proof (cases "last_records (seq_new kept)")
  case Nil
  then show ?thesis by (simp add: highest_seen_def)
next
  case (Cons r rs)
  then have "highest_seen (seq_new kept) \<in> set (last_records (seq_new kept))"
    by (metis highest_seen_last last_in_set list.distinct(1))
  then show ?thesis by (simp add: seq_new_def)
qed

lemma next_ok_new: "next_ok (seq_new kept)"
  by (simp add: next_ok_def) (simp add: seq_new_def)

text \<open>An inserted record leaves some record in the last slot, and the next number follows it.\<close>

lemma next_seq_put_record:
  "next_seq (put_record i rec s) =
     checked_add (case last_records (put_record i rec s) !
        (length (last_records (put_record i rec s)) - 1) of Some n \<Rightarrow> gr_seq n | None \<Rightarrow> 1) 1"
  by (simp add: put_record_def Let_def)

lemma needs_gc_put_record [simp]: "needs_gc (put_record i rec s)"
  by (simp add: put_record_def Let_def)

lemma put_record_highest:
  assumes "seq_wf kept s" and "min_index slot_key (last_records s) = Some i"
  obtains r where "highest_seen (put_record i rec s) = Some r" "gr_seq rec \<le> gr_seq r"
    "next_seq (put_record i rec s) = checked_add (gr_seq r) 1"
proof -
  let ?s = "put_record i rec s"
  have ne: "last_records ?s \<noteq> []"
    using seq_wf_nonempty [OF assms(1)] by (metis length_put_record length_0_conv)
  have "Some (gr_seq rec) \<le> last (seq_keys ?s)"
    unfolding put_record_keys [OF assms]
    using assms(1) by (intro sorted_last_ge) (simp_all add: seq_wf_def sorted_tl sorted_insort set_insort_key)
  then have "Some (gr_seq rec) \<le> map_option gr_seq (highest_seen ?s)"
    by (simp add: highest_seen_keys [OF ne])
  then obtain r where r: "highest_seen ?s = Some r" "gr_seq rec \<le> gr_seq r"
    by (cases "highest_seen ?s") auto
  have "last_records ?s ! (length (last_records ?s) - 1) = Some r"
    using r(1) ne by (simp add: highest_seen_last last_conv_nth)
  then have "next_seq ?s = checked_add (gr_seq r) 1"
    by (simp only: next_seq_put_record option.case)
  with r show thesis by (rule that)
qed

lemma insert_good_next_ok:
  assumes "seq_wf kept s" and "insert_good rec s = Some s'" and "next_ok s"
  shows "next_ok s'"
  using assms(1)
proof (cases rule: insert_good_cases [of kept s rec])
  case skip
  with assms show ?thesis by simp
next
  case (put i)
  with assms(2) have "s' = put_record i rec s" by simp
  moreover obtain r where "highest_seen (put_record i rec s) = Some r"
      "next_seq (put_record i rec s) = checked_add (gr_seq r) 1"
    using put_record_highest [OF assms(1) put(2)] by blast
  ultimately show ?thesis by (simp add: next_ok_def)
qed

section \<open>Inserting many records\<close>

text \<open>
  The specification: of all sequence numbers inserted, the \<open>kept\<close> largest in ascending order,
  padded at the front with \<open>None\<close>.
\<close>

definition top_keys :: "nat \<Rightarrow> u32 list \<Rightarrow> u32 option list" where
  "top_keys kept ks = drop (length ks) (sort (replicate kept None @ map Some ks))"

lemma sort_replicate [simp]: "sort (replicate n x) = replicate n x"
  by (rule sorted_sort_id) (auto simp: sorted_iff_nth_mono)

lemma top_keys_Nil [simp]: "top_keys kept [] = replicate kept None"
  by (simp add: top_keys_def)

lemma sort_snoc: "sort (xs @ [x]) = insort x (sort xs)"
  by (rule properties_for_sort) (simp_all add: sorted_insort)

lemma top_keys_snoc:
  "0 < kept \<Longrightarrow> top_keys kept (ks @ [k]) = insert_key (Some k) (top_keys kept ks)"
  using drop_insort [of "sort (replicate kept None @ map Some ks)" "length ks" "Some k"]
    sort_snoc [of "replicate kept None @ map Some ks" "Some k"]
  by (simp add: top_keys_def)

text \<open>What every state built by insertions satisfies.\<close>

definition cache_ok :: "nat \<Rightarrow> seq_state \<Rightarrow> bool" where
  "cache_ok kept s \<longleftrightarrow> seq_wf kept s \<and> next_ok s"

lemma cache_ok_new: "0 < kept \<Longrightarrow> cache_ok kept (seq_new kept)"
  by (simp add: cache_ok_def seq_wf_new next_ok_new)

lemma insert_good_ok:
  assumes "cache_ok kept s" and "gr_seq rec \<noteq> 0"
  obtains s' where "insert_good rec s = Some s'" "cache_ok kept s'"
    "seq_keys s' = insert_key (Some (gr_seq rec)) (seq_keys s)"
  using insert_good_Some [of kept s rec] insert_good_wf [of kept s rec]
    insert_good_next_ok [of kept s rec] insert_good_keys [of kept s rec] assms
  unfolding cache_ok_def by metis

lemma insert_all_ok:
  assumes "cache_ok kept q" and "\<forall>r \<in> set rs. gr_seq r \<noteq> 0"
  shows "\<exists>q'. insert_all rs q = Some q' \<and> cache_ok kept q'"
  using assms
proof (induction rs arbitrary: q)
  case (Cons r rs)
  then obtain q1 where "insert_good r q = Some q1" "cache_ok kept q1"
    by (metis insert_good_ok list.set_intros(1))
  then show ?case using Cons.IH [of q1] Cons.prems by simp
qed simp

text \<open>A record that goes into the cache makes a collection due.\<close>

lemma insert_good_due: "insert_good r q = Some q' \<Longrightarrow> q' = q \<or> needs_gc q'"
  by (auto simp: insert_good_def put_record_def Let_def split: option.splits if_splits)

lemma insert_all_due: "insert_all rs q = Some q' \<Longrightarrow> q' = q \<or> needs_gc q'"
proof (induction rs arbitrary: q)
  case (Cons r rs)
  then obtain q1 where "insert_good r q = Some q1" "insert_all rs q1 = Some q'" by (auto split: option.splits)
  then show ?case using Cons.IH insert_good_due by blast
qed simp

lemma insert_good_needs_gc:
  assumes "seq_wf kept s" and "insert_good rec s = Some s'" and "present s = [] \<or> needs_gc s"
  shows "needs_gc s'"
  using assms(1)
proof (cases rule: insert_good_cases [of kept s rec])
  case skip
  then obtain k where "hd (seq_keys s) = Some k"
    by (cases "hd (seq_keys s)") auto
  then have "Some k \<in> set (seq_keys s)"
    using seq_wf_nonempty [OF assms(1)] by (metis hd_in_set length_seq_keys length_0_conv)
  then obtain r where "Some r \<in> set (last_records s)"
    by (auto simp: seq_keys_def map_option_case split: option.splits)
  then have "present s \<noteq> []" by (metis set_present list.set(1) empty_iff)
  with skip assms show ?thesis by simp
next
  case (put i)
  with assms(2) show ?thesis by (metis needs_gc_put_record option.inject)
qed

lemma insert_all_seqs:
  assumes "0 < kept" and "\<forall>r \<in> set rs. gr_seq r \<noteq> 0"
  shows "\<exists>s. insert_all rs (seq_new kept) = Some s \<and> cache_ok kept s \<and>
           seq_keys s = top_keys kept (map gr_seq rs) \<and> (rs \<noteq> [] \<longrightarrow> needs_gc s)"
  using assms(2)
proof (induction rs rule: rev_induct)
  case Nil
  show ?case
    using cache_ok_new [OF assms(1)] by (simp add: seq_keys_def seq_new_def)
next
  case (snoc r rs)
  then obtain s where s: "insert_all rs (seq_new kept) = Some s" "cache_ok kept s"
      "seq_keys s = top_keys kept (map gr_seq rs)" "rs \<noteq> [] \<longrightarrow> needs_gc s"
    by auto
  have nz: "gr_seq r \<noteq> 0" using snoc.prems by simp
  obtain s' where s': "insert_good r s = Some s'" "cache_ok kept s'"
      "seq_keys s' = insert_key (Some (gr_seq r)) (seq_keys s)"
    using insert_good_ok [OF s(2) nz] .
  have gc: "needs_gc s'"
  proof (rule insert_good_needs_gc [OF _ s'(1)])
    show "seq_wf kept s" using s(2) by (simp add: cache_ok_def)
    show "present s = [] \<or> needs_gc s" using s(1,4) by (cases "rs = []") auto
  qed
  show ?case
    using s s' gc top_keys_snoc [OF assms(1), of "map gr_seq rs" "gr_seq r"]
    by (simp add: insert_all_append)
qed

lemma last_top_keys:
  assumes "0 < kept" and "ks \<noteq> []"
  shows "last (top_keys kept ks) = Some (Max (set ks))"
proof -
  let ?L = "sort (replicate kept None @ map Some ks)"
  have len: "length ks < length ?L" using assms by simp
  then have last: "last (top_keys kept ks) = last ?L"
    by (simp add: top_keys_def last_drop)
  have "Some (Max (set ks)) \<in> set ?L"
    using assms(2) by simp
  then have "Some (Max (set ks)) \<le> last ?L"
    by (intro sorted_last_ge) simp_all
  moreover have "last ?L \<in> set ?L"
    using len by (metis last_in_set length_greater_0_conv gr_zeroI less_zeroE)
  ultimately have "last ?L = Some (Max (set ks))"
    by (auto intro!: antisym Max_ge)
  with last show ?thesis by simp
qed

lemma top_keys_short:
  assumes "length ks \<le> kept"
  shows "top_keys kept ks = replicate (kept - length ks) None @ map Some (sort ks)"
proof -
  have "sort (replicate kept None @ map Some ks) = replicate kept None @ map Some (sort ks)"
  proof (rule properties_for_sort)
    show "mset (replicate kept None @ map Some (sort ks)) = mset (replicate kept None @ map Some ks)"
      by (simp add: mset_map)
    show "sorted (replicate kept None @ map Some (sort ks))"
      by (auto simp: sorted_append sorted_map sorted_iff_nth_mono [of "replicate kept None"]
          intro: sorted_wrt_mono_rel [OF _ sorted_sort])
  qed
  with assms show ?thesis by (simp add: top_keys_def)
qed

text \<open>A record newer than everything cached becomes the highest one.\<close>

lemma insert_good_newest:
  assumes "seq_wf kept s" and "\<forall>k \<in> set (seq_keys s). k < Some (gr_seq rec)"
  obtains s' where "insert_good rec s = Some s'" "highest_seen s' = Some rec"
    "next_seq s' = checked_add (gr_seq rec) 1" "needs_gc s'"
proof -
  have "hd (seq_keys s) \<in> set (seq_keys s)"
    using seq_wf_nonempty [OF assms(1)] by (metis hd_in_set length_seq_keys length_0_conv)
  with assms(2) have "\<not> Some (gr_seq rec) < hd (seq_keys s)" by force
  then obtain i where i: "insert_good rec s = Some (put_record i rec s)"
      "min_index slot_key (last_records s) = Some i"
    using insert_good_cases [OF assms(1), of rec] by metis
  obtain r where r: "highest_seen (put_record i rec s) = Some r" "gr_seq rec \<le> gr_seq r"
      "next_seq (put_record i rec s) = checked_add (gr_seq r) 1"
    using put_record_highest [OF assms(1) i(2)] by blast
  have "last_records (put_record i rec s) \<noteq> []"
    using seq_wf_nonempty [OF assms(1)] by (metis length_put_record length_0_conv)
  with r(1) have "Some r \<in> set (last_records (put_record i rec s))"
    by (metis highest_seen_last last_in_set)
  then have "Some r \<in> insert (Some rec) (set (last_records s))"
    using set_update_subset_insert [of "last_records s" i "Some rec"]
    by (auto simp: put_record_def Let_def)
  then have "r = rec"
    using assms(2) r(2) by (force simp: seq_keys_def)
  with i r that show thesis by simp
qed

text \<open>The next sequence number is above every cached one, and never 0.\<close>

lemma next_above_keys:
  assumes "cache_ok kept q" and "next_seq q = Some n"
  shows "n \<noteq> 0" and "\<forall>k \<in> set (seq_keys q). k < Some n"
proof -
  have ne: "last_records q \<noteq> []" and srt: "sorted (seq_keys q)" and nk: "next_ok q"
    using assms(1) by (auto simp: cache_ok_def seq_wf_def)
  have last: "last (seq_keys q) = map_option gr_seq (highest_seen q)"
    using highest_seen_keys [OF ne] by simp
  have "n \<noteq> 0 \<and> last (seq_keys q) < Some n"
  proof (cases "highest_seen q")
    case None
    with nk assms(2) last show ?thesis by (simp add: next_ok_def)
  next
    case (Some r)
    with nk assms(2) have "checked_add (gr_seq r) 1 = Some n" by (simp add: next_ok_def)
    with checked_add_one_less checked_add_one_nonzero Some last show ?thesis by auto
  qed
  moreover have "k \<le> last (seq_keys q)" if "k \<in> set (seq_keys q)" for k
    using srt that by (rule sorted_last_ge)
  ultimately show "n \<noteq> 0" "\<forall>k \<in> set (seq_keys q). k < Some n"
    by (auto intro: le_less_trans)
qed

end
