(* ===== verification/Record_Scan.thy ===== *)
theory Record_Scan
  imports Seq_State
begin

text \<open>
  The initial scan of \<open>StorageListInner::get_or_populate_latest\<close> as a function on what the
  storage iterator yields, and its specification.

  An entry is what one call of \<open>NdlElemIter::next\<close> gives: the decoded element (\<open>None\<close> when it
  does not decode) and its length in storage. \<open>scan_step\<close> is the body of the loop, line by line.
  The specification cuts a sequence of elements into complete write records and junk
  (\<open>segments\<close>); \<open>scan_list_spec\<close> shows that the scan inserts exactly the complete records, in
  order, and \<open>located_iff\<close> that these are exactly the positions at which a start element, data
  elements and a matching end element with the right checksum stand next to each other.
\<close>

type_synonym entry = "elem option \<times> nat"

section \<open>The loop body\<close>

record scan_state =
  sc_current :: "(u32 \<times> nat) option"
  sc_crc :: crc32
  sc_ctr :: nat
  sc_bytes :: nat
  sc_seq :: seq_state

text \<open>\<open>None\<close> is the panic of \<open>insert_good\<close> on an empty record array.\<close>

definition scan_step :: "externs \<Rightarrow> elem option \<Rightarrow> nat \<Rightarrow> scan_state \<Rightarrow> scan_state option" where
  "scan_step X data len st0 =
     (let idx = sc_ctr st0;
          st = st0\<lparr>sc_ctr := Suc idx, sc_bytes := sc_bytes st0 + len\<rparr>
      in case data of
           None \<Rightarrow> Some (st\<lparr>sc_current := None\<rparr>)
         | Some (Start seq_no) \<Rightarrow> Some (st\<lparr>sc_current := Some (seq_no, idx), sc_crc := crc_new\<rparr>)
         | Some (Data d) \<Rightarrow>
             (case sc_current st of
                None \<Rightarrow> Some st
              | Some _ \<Rightarrow> Some (st\<lparr>sc_crc := crc_update (sc_crc st) (key_val d)\<rparr>))
         | Some (End seq_no calc_crc) \<Rightarrow>
             (case sc_current st of
                None \<Rightarrow> Some st
              | Some (seq, start_idx) \<Rightarrow>
                  (let check_crc = crc_finalize X (sc_crc st);
                       st1 = st\<lparr>sc_current := None, sc_crc := crc_new\<rparr>
                   in if seq \<noteq> seq_no then Some st1
                      else if calc_crc \<noteq> check_crc then Some st1
                      else (case insert_good
                              \<lparr>gr_seq = seq_no, gr_start = start_idx, gr_end = idx\<rparr> (sc_seq st1) of
                              None \<Rightarrow> None
                            | Some q \<Rightarrow> Some (st1\<lparr>sc_seq := q\<rparr>)))))"

fun scan_list :: "externs \<Rightarrow> entry list \<Rightarrow> scan_state \<Rightarrow> scan_state option" where
  "scan_list X [] st = Some st"
| "scan_list X ((data, len) # xs) st =
     (case scan_step X data len st of None \<Rightarrow> None | Some st' \<Rightarrow> scan_list X xs st')"

definition scan_init :: "nat \<Rightarrow> seq_state \<Rightarrow> scan_state" where
  "scan_init bytes q =
     \<lparr>sc_current = None, sc_crc = crc_new, sc_ctr = 0, sc_bytes = bytes, sc_seq = q\<rparr>"

section \<open>The specification: complete records and junk\<close>

datatype segment = Junk "elem option" | Rec u32 "ser_data list"

definition record_elems :: "externs \<Rightarrow> u32 \<Rightarrow> ser_data list \<Rightarrow> elem list" where
  "record_elems X seq ds = Start seq # map Data ds @ [End seq (record_crc X ds)]"

fun seg_elems :: "externs \<Rightarrow> segment \<Rightarrow> elem option list" where
  "seg_elems X (Junk d) = [d]"
| "seg_elems X (Rec seq ds) = map Some (record_elems X seq ds)"

text \<open>The data elements at the front, and what follows them.\<close>

fun take_data :: "elem option list \<Rightarrow> ser_data list \<times> elem option list" where
  "take_data (Some (Data d) # es) = (d # fst (take_data es), snd (take_data es))"
| "take_data es = ([], es)"

lemma length_take_data: "length (snd (take_data es)) \<le> length es"
  by (induction es rule: take_data.induct) auto

lemma take_data_stops: "snd (take_data es) \<noteq> Some (Data d) # es'"
  by (induction es rule: take_data.induct) auto

lemma take_data_append: "map (\<lambda>d. Some (Data d)) (fst (take_data es)) @ snd (take_data es) = es"
  by (induction es rule: take_data.induct) auto

text \<open>A complete record opened by \<open>seq\<close> whose rest starts here: its data, and what follows.\<close>

definition closes :: "externs \<Rightarrow> u32 \<Rightarrow> elem option list \<Rightarrow> (ser_data list \<times> elem option list) option" where
  "closes X seq es =
     (case snd (take_data es) of
        Some (End seq' crc) # rest \<Rightarrow>
          if seq' = seq \<and> crc = record_crc X (fst (take_data es))
          then Some (fst (take_data es), rest) else None
      | _ \<Rightarrow> None)"

lemma closes_length: "closes X seq es = Some (ds, rest) \<Longrightarrow> length rest < length es"
  using length_take_data [of es]
  by (auto simp: closes_def split: list.splits option.splits elem.splits if_splits)

lemma closes_eq:
  "closes X seq es = Some (ds, rest) \<Longrightarrow>
     es = map (\<lambda>d. Some (Data d)) ds @ Some (End seq (record_crc X ds)) # rest"
  using take_data_append [of es]
  by (auto simp: closes_def split: list.splits option.splits elem.splits if_splits)

lemma take_data_map: "take_data (map (\<lambda>d. Some (Data d)) ds @ es) = (ds @ fst (take_data es), snd (take_data es))"
  by (induction ds) auto

lemma closes_intro:
  "closes X seq (map (\<lambda>d. Some (Data d)) ds @ Some (End seq (record_crc X ds)) # rest) = Some (ds, rest)"
  by (simp add: closes_def take_data_map)

function (sequential) segments :: "externs \<Rightarrow> elem option list \<Rightarrow> segment list" where
  "segments X [] = []"
| "segments X (Some (Start seq) # es) =
     (case closes X seq es of
        Some (ds, rest) \<Rightarrow> Rec seq ds # segments X rest
      | None \<Rightarrow> Junk (Some (Start seq)) # segments X es)"
| "segments X (x # es) = Junk x # segments X es"
  by pat_completeness auto
termination
  by (relation "measure (\<lambda>(X, es). length es)") (auto dest: closes_length)

fun seg_length :: "segment \<Rightarrow> nat" where
  "seg_length (Junk d) = 1"
| "seg_length (Rec seq ds) = length ds + 2"

text \<open>The records of a cut, with the positions they have in storage.\<close>

fun locate :: "nat \<Rightarrow> segment list \<Rightarrow> good_write_record list" where
  "locate i [] = []"
| "locate i (Junk d # sg) = locate (i + 1) sg"
| "locate i (Rec seq ds # sg) =
     \<lparr>gr_seq = seq, gr_start = i, gr_end = i + length ds + 1\<rparr> # locate (i + length ds + 2) sg"

lemma segments_flat: "concat (map (seg_elems X) (segments X es)) = es"
  by (induction X es rule: segments.induct)
    (auto simp: record_elems_def dest: closes_eq split: option.splits)

lemma length_seg_elems [simp]: "length (seg_elems X sg) = seg_length sg"
  by (cases sg) (simp_all add: record_elems_def)

lemma locate_append:
  "locate i (xs @ ys) = locate i xs @ locate (i + sum_list (map seg_length xs)) ys"
  by (induction i xs rule: locate.induct) (auto simp: algebra_simps)

lemma segments_record:
  "segments X (map Some (record_elems X seq ds) @ es) = Rec seq ds # segments X es"
  using closes_intro [of X seq ds es]
  by (simp add: record_elems_def comp_def)

section \<open>The scan finds the complete records\<close>

text \<open>The records the loop passes to \<open>insert_good\<close>, from any point of the loop.\<close>

fun found_from ::
  "externs \<Rightarrow> (u32 \<times> nat) option \<Rightarrow> u8 list \<Rightarrow> nat \<Rightarrow> elem option list \<Rightarrow> good_write_record list" where
  "found_from X cur b i [] = []"
| "found_from X cur b i (None # es) = found_from X None b (Suc i) es"
| "found_from X cur b i (Some (Start seq) # es) = found_from X (Some (seq, i)) [] (Suc i) es"
| "found_from X cur b i (Some (Data d) # es) =
     (case cur of
        None \<Rightarrow> found_from X None b (Suc i) es
      | Some c \<Rightarrow> found_from X (Some c) (b @ key_val d) (Suc i) es)"
| "found_from X cur b i (Some (End seq crc) # es) =
     (case cur of
        None \<Rightarrow> found_from X None b (Suc i) es
      | Some (seq0, i0) \<Rightarrow>
          if seq0 = seq \<and> crc = ext_crc X b
          then \<lparr>gr_seq = seq, gr_start = i0, gr_end = i\<rparr> # found_from X None [] (Suc i) es
          else found_from X None [] (Suc i) es)"

lemma scan_list_found:
  "map_option sc_seq (scan_list X xs st) =
     insert_all (found_from X (sc_current st) (crc_fed (sc_crc st)) (sc_ctr st) (map fst xs)) (sc_seq st)"
proof (induction xs arbitrary: st)
  case Nil
  show ?case by simp
next
  case (Cons x xs)
  obtain data len where x: "x = (data, len)" by (cases x)
  show ?case
  proof (cases data)
    case None
    then show ?thesis by (simp add: x Cons.IH scan_step_def Let_def)
  next
    case (Some e)
    show ?thesis
    proof (cases e)
      case (Start seq)
      with Some show ?thesis by (simp add: x Cons.IH scan_step_def Let_def)
    next
      case (Data d)
      with Some show ?thesis
        by (cases "sc_current st") (simp_all add: x Cons.IH scan_step_def Let_def)
    next
      case (End seq crc)
      with Some show ?thesis
        by (cases "sc_current st")
          (auto simp: x Cons.IH scan_step_def Let_def crc_finalize_def split: option.splits if_splits)
    qed
  qed
qed

lemma scan_list_counts:
  "scan_list X xs st = Some st' \<Longrightarrow>
     sc_ctr st' = sc_ctr st + length xs \<and> sc_bytes st' = sc_bytes st + sum_list (map snd xs)"
proof (induction xs arbitrary: st)
  case Nil
  then show ?case by simp
next
  case (Cons x xs)
  obtain data len where x: "x = (data, len)" by (cases x)
  from Cons.prems obtain st1 where st1: "scan_step X data len st = Some st1" "scan_list X xs st1 = Some st'"
    by (auto simp: x split: option.splits)
  have "sc_ctr st1 = Suc (sc_ctr st) \<and> sc_bytes st1 = sc_bytes st + len"
    using st1(1) by (auto simp: scan_step_def Let_def split: option.splits elem.splits if_splits)
  with Cons.IH [OF st1(2)] show ?case by (simp add: x)
qed

lemma found_from_None: "found_from X None b i es = found_from X None b' i es"
proof (induction es arbitrary: i b b')
  case Nil
  show ?case by simp
next
  case (Cons x es)
  show ?case
  proof (cases x)
    case None
    then show ?thesis by (simp add: Cons.IH [of b _ b'])
  next
    case (Some e)
    then show ?thesis by (cases e) (simp_all add: Cons.IH [of b _ b'])
  qed
qed

lemma found_from_take_data:
  "found_from X (Some (seq, i0)) b i es =
     found_from X (Some (seq, i0)) (b @ concat (map key_val (fst (take_data es))))
       (i + length (fst (take_data es))) (snd (take_data es))"
  by (induction es arbitrary: b i rule: take_data.induct) auto

lemma found_from_None_take_data:
  "found_from X None b i es =
     found_from X None b (i + length (fst (take_data es))) (snd (take_data es))"
  by (induction es arbitrary: b i rule: take_data.induct) auto

text \<open>An opened record that does not close contributes nothing.\<close>

lemma found_from_open:
  "closes X seq es = None \<Longrightarrow> found_from X (Some (seq, i0)) [] i es = found_from X None [] i es"
  using take_data_append [of es]
  by (subst found_from_take_data, subst found_from_None_take_data)
    (auto simp: closes_def record_crc_def take_data_stops intro: found_from_None
      split: list.splits option.splits elem.splits if_splits)

lemma found_from_closes:
  assumes "closes X seq es = Some (ds, rest)"
  shows "found_from X (Some (seq, i0)) [] i es =
    \<lparr>gr_seq = seq, gr_start = i0, gr_end = i + length ds\<rparr> # found_from X None [] (i + length ds + 1) rest"
  using closes_eq [OF assms]
  by (subst found_from_take_data) (simp add: take_data_map record_crc_def)

lemma found_from_segments: "found_from X None b i es = locate i (segments X es)"
proof (induction X es arbitrary: b i rule: segments.induct)
  case (2 X seq es)
  show ?case
  proof (cases "closes X seq es")
    case None
    with 2 found_from_open [OF None] show ?thesis by simp
  next
    case (Some p)
    obtain ds rest where p: "p = (ds, rest)" by (cases p)
    with Some 2 found_from_closes [of X seq es ds rest] show ?thesis by simp
  qed
qed auto

text \<open>The scan, as a whole.\<close>

theorem scan_list_spec:
  "map_option sc_seq (scan_list X xs (scan_init n q)) =
     insert_all (locate 0 (segments X (map fst xs))) q"
  by (simp add: scan_list_found scan_init_def found_from_segments)

section \<open>Cutting at a separator\<close>

text \<open>
  An element that does not decode, and a start element, end whatever record was open before them:
  the cut of the whole is the cut of both sides.
\<close>

definition separator :: "elem option \<Rightarrow> bool" where
  "separator x \<longleftrightarrow> x = None \<or> (\<exists>seq. x = Some (Start seq))"

lemma separator_simps [simp]: "separator None" "separator (Some (Start seq))"
  by (simp_all add: separator_def)

lemma take_data_separator:
  "separator x \<Longrightarrow> take_data (es @ x # t) = (fst (take_data es), snd (take_data es) @ x # t)"
  by (induction es rule: take_data.induct) (auto simp: separator_def)

lemma closes_separator:
  "separator x \<Longrightarrow> closes X seq (es @ x # t) =
     (case closes X seq es of None \<Rightarrow> None | Some (ds, rest) \<Rightarrow> Some (ds, rest @ x # t))"
  by (cases "snd (take_data es)")
    (auto simp: closes_def take_data_separator take_data_stops separator_def
      split: option.splits elem.splits)

lemma segments_separator:
  "separator x \<Longrightarrow> segments X (es @ x # t) = segments X es @ segments X (x # t)"
proof (induction X es rule: segments.induct)
  case (2 X seq es)
  then show ?case
    by (auto simp: closes_separator split: option.splits)
qed auto

lemma segments_around_record:
  "segments X (pre @ map Some (record_elems X seq ds) @ post) =
     segments X pre @ Rec seq ds # segments X post"
  using segments_separator [of "Some (Start seq)" X pre] segments_record [of X seq ds post]
  by (simp add: record_elems_def)

lemma sum_seg_length: "sum_list (map seg_length (segments X es)) = length es"
proof -
  have "length es = length (concat (map (seg_elems X) (segments X es)))"
    by (simp add: segments_flat)
  then show ?thesis by (simp add: length_concat comp_def)
qed

lemma locate_shift:
  "locate (i + n) sg = map (\<lambda>r. r\<lparr>gr_start := gr_start r + n, gr_end := gr_end r + n\<rparr>) (locate i sg)"
proof (induction i sg rule: locate.induct)
  case (3 i seq ds sg)
  then show ?case by (simp add: algebra_simps)
qed (auto simp: algebra_simps)

lemma located_split:
  assumes "r \<in> set (locate i sg)"
  obtains sg1 ds sg2 where "sg = sg1 @ Rec (gr_seq r) ds # sg2"
    "gr_start r = i + sum_list (map seg_length sg1)" "gr_end r = gr_start r + length ds + 1"
  using assms
proof (induction i sg arbitrary: thesis rule: locate.induct)
  case (1 i)
  then show ?case by simp
next
  case (2 i d sg)
  then obtain sg1 ds sg2 where "sg = sg1 @ Rec (gr_seq r) ds # sg2"
      "gr_start r = i + 1 + sum_list (map seg_length sg1)" "gr_end r = gr_start r + length ds + 1"
    by auto
  then show ?case by (intro "2.prems"(1) [of "Junk d # sg1"]) auto
next
  case (3 i seq ds sg)
  show ?case
  proof (cases "r = \<lparr>gr_seq = seq, gr_start = i, gr_end = i + length ds + 1\<rparr>")
    case True
    then show ?thesis by (intro "3.prems"(1) [of "[]"]) auto
  next
    case False
    with "3.prems"(2) have "r \<in> set (locate (i + length ds + 2) sg)" by simp
    then obtain sg1 ds' sg2 where "sg = sg1 @ Rec (gr_seq r) ds' # sg2"
        "gr_start r = i + length ds + 2 + sum_list (map seg_length sg1)"
        "gr_end r = gr_start r + length ds' + 1"
      using "3.IH" by blast
    then show ?thesis by (intro "3.prems"(1) [of "Rec seq ds # sg1"]) auto
  qed
qed

section \<open>Which positions are records\<close>

definition records_in :: "externs \<Rightarrow> elem option list \<Rightarrow> good_write_record list" where
  "records_in X es = locate 0 (segments X es)"

theorem located_iff:
  "r \<in> set (records_in X es) \<longleftrightarrow>
     (\<exists>pre ds post. es = pre @ map Some (record_elems X (gr_seq r) ds) @ post \<and>
        gr_start r = length pre \<and> gr_end r = length pre + length ds + 1)"
    (is "?L \<longleftrightarrow> ?R")
proof
  assume ?L
  then obtain sg1 ds sg2 where sg: "segments X es = sg1 @ Rec (gr_seq r) ds # sg2"
      "gr_start r = sum_list (map seg_length sg1)" "gr_end r = gr_start r + length ds + 1"
    unfolding records_in_def by (auto elim: located_split)
  let ?pre = "concat (map (seg_elems X) sg1)"
  have "es = ?pre @ map Some (record_elems X (gr_seq r) ds) @ concat (map (seg_elems X) sg2)"
    using segments_flat [of X es] by (simp add: sg(1))
  moreover have "length ?pre = sum_list (map seg_length sg1)"
    by (simp add: length_concat comp_def)
  ultimately show ?R using sg by metis
next
  assume ?R
  then obtain pre ds post where
      "es = pre @ map Some (record_elems X (gr_seq r) ds) @ post"
      "gr_start r = length pre" "gr_end r = length pre + length ds + 1"
    by blast
  then show ?L
    by (simp add: records_in_def segments_around_record locate_append sum_seg_length)
qed

lemma records_in_append_separator:
  assumes "separator x"
  shows "records_in X (es @ x # t) =
    records_in X es @ map (\<lambda>r. r\<lparr>gr_start := gr_start r + length es, gr_end := gr_end r + length es\<rparr>)
      (records_in X (x # t))"
  using locate_shift [of 0 "length es" "segments X (x # t)"]
  by (simp add: records_in_def segments_separator [OF assms] locate_append sum_seg_length)

lemma records_in_data: "records_in X (map (\<lambda>d. Some (Data d)) ds @ es) =
    map (\<lambda>r. r\<lparr>gr_start := gr_start r + length ds, gr_end := gr_end r + length ds\<rparr>) (records_in X es)"
proof (induction ds)
  case Nil
  then show ?case by simp
next
  case (Cons d ds)
  then show ?case
    using locate_shift [of 0 1] by (simp add: records_in_def comp_def)
qed

lemma closes_only_data: "closes X seq (map (\<lambda>d. Some (Data d)) ds) = None"
  using take_data_map [of ds "[]"] by (simp add: closes_def)

text \<open>A write that stopped before its end element adds no record.\<close>

lemma records_in_interrupted:
  "records_in X (es @ Some (Start seq) # map (\<lambda>d. Some (Data d)) ds) = records_in X es"
proof -
  have "records_in X (Some (Start seq) # map (\<lambda>d. Some (Data d)) ds) = []"
    using records_in_data [of X ds "[]"] locate_shift [of 0 1]
    by (simp add: records_in_def closes_only_data)
  then show ?thesis by (simp add: records_in_append_separator)
qed

text \<open>A completed write adds exactly its own record, after all others.\<close>

lemma records_in_complete:
  "records_in X (es @ map Some (record_elems X seq ds)) =
     records_in X es @ [\<lparr>gr_seq = seq, gr_start = length es, gr_end = length es + length ds + 1\<rparr>]"
  using segments_around_record [of X es seq ds "[]"]
  by (simp add: records_in_def locate_append sum_seg_length)

end
