(* ===== verification/Data_Storage.thy ===== *)
theory Data_Storage
  imports Record_Scan
begin

text \<open>
  The storage interface of \<open>lib.rs\<close>: the traits \<open>NdlDataStorage\<close>, \<open>NdlElemIter\<close> and
  \<open>NdlElemIterNode\<close> as a record of operations, passed to every definition that is generic over
  the storage, and their documented contract as two locales. \<open>ndl_reader\<close> is iteration alone;
  \<open>ndl_storage\<close> adds \<open>push\<close> and \<open>invalidate\<close>.

  The contract speaks of the entries a healthy storage holds (\<open>view\<close>). An iterator splits them
  into those it has passed and those still to come; it borrows the storage, and \<open>st_release\<close> is
  the end of that borrow.
\<close>

section \<open>The operations\<close>

datatype ('it, 's, 'e) iter_result = IterOk 'it | IterErr 'e 's

datatype ('it, 'item, 'e) next_result = NextItem 'item 'it | NextEnd 'it | NextErr 'e 'it

datatype ('it, 'e) invalidate_result = InvalidateOk 'it | InvalidateErr 'e 'it

text \<open>\<open>PushPanic\<close>: the implementation panicked, so the caller never sees a result.\<close>

datatype ('s, 'e) push_result = PushOk nat 's | PushErr 'e 's | PushPanic

record ('s, 'it, 'item, 'e) storage_ops =
  st_iter :: "'s \<Rightarrow> ('it, 's, 'e) iter_result"
  st_next :: "nat \<Rightarrow> 'it \<Rightarrow> ('it, 'item, 'e) next_result"   \<comment> \<open>with the length of the scratch buffer\<close>
  st_data :: "'item \<Rightarrow> elem option"
  st_len :: "'item \<Rightarrow> nat"
  st_invalidate :: "'item \<Rightarrow> 'it \<Rightarrow> ('it, 'e) invalidate_result"
  st_release :: "'it \<Rightarrow> 's"
  st_push :: "'s \<Rightarrow> elem \<Rightarrow> ('s, 'e) push_result"
  st_max_elem_size :: nat

text \<open>\<open>NdlDataStorage::check_node_size\<close>.\<close>

definition check_node_size ::
  "('s, 'it, 'item, 'e) storage_ops \<Rightarrow> externs \<Rightarrow> 'v codec \<Rightarrow> key \<Rightarrow> 'v \<Rightarrow> bool" where
  "check_node_size S X c key node \<longleftrightarrow> 1 + str_len X key + cd_len c node \<le> st_max_elem_size S"

section \<open>Reading a run of entries\<close>

text \<open>\<open>reads S b it xs it'\<close>: successive calls of \<open>next\<close> yield the entries \<open>xs\<close> and lead to \<open>it'\<close>.\<close>

inductive reads ::
  "('s, 'it, 'item, 'e) storage_ops \<Rightarrow> nat \<Rightarrow> 'it \<Rightarrow> entry list \<Rightarrow> 'it \<Rightarrow> bool"
  for S :: "('s, 'it, 'item, 'e) storage_ops" and b :: nat where
  reads_Nil: "reads S b it [] it"
| reads_Cons: "st_next S b it = NextItem item it1 \<Longrightarrow> reads S b it1 xs it2 \<Longrightarrow>
     reads S b it ((st_data S item, st_len S item) # xs) it2"

inductive_cases reads_NilE: "reads S b it [] it'"
inductive_cases reads_ConsE: "reads S b it (x # xs) it'"

inductive_simps reads_Nil_iff [simp]: "reads S b it [] it'"

lemma reads_append: "reads S b it xs it1 \<Longrightarrow> reads S b it1 ys it2 \<Longrightarrow> reads S b it (xs @ ys) it2"
  by (induction rule: reads.induct) (auto intro: reads.intros)

section \<open>The contract\<close>

text \<open>
  The elements the crate pushes, of a size that a scratch buffer of \<open>b\<close> bytes can read back: one
  byte of header, four for a sequence number and four for a checksum.
\<close>

fun elem_size :: "elem \<Rightarrow> nat" where
  "elem_size (Start _) = 5"
| "elem_size (Data d) = length (hdr_key_val d)"
| "elem_size (End _ _) = 9"

definition writable :: "nat \<Rightarrow> elem \<Rightarrow> bool" where
  "writable b e \<longleftrightarrow> storable e \<and> elem_size e \<le> b"

lemma writable_simps [simp]:
  "writable b (Start seq) \<longleftrightarrow> seq \<noteq> 0 \<and> 5 \<le> b"
  "writable b (End seq crc) \<longleftrightarrow> seq \<noteq> 0 \<and> 9 \<le> b"
  "writable b (Data d) \<longleftrightarrow> storable (Data d) \<and> length (hdr_key_val d) \<le> b"
  by (simp_all add: writable_def)

lemma writable_storable: "writable b e \<Longrightarrow> storable e"
  by (simp add: writable_def)

locale ndl_reader =
  fixes S :: "('s, 'it, 'item, 'e) storage_ops"
    and healthy :: "nat \<Rightarrow> 's \<Rightarrow> bool"
    and view :: "'s \<Rightarrow> entry list"
    and it_ok :: "nat \<Rightarrow> 'it \<Rightarrow> bool"
    and passed :: "'it \<Rightarrow> entry list"
    and todo :: "'it \<Rightarrow> entry list"
  assumes iter_start: "healthy b s \<Longrightarrow>
      \<exists>it. st_iter S s = IterOk it \<and> it_ok b it \<and> passed it = [] \<and> todo it = view s"
    and next_end: "it_ok b it \<Longrightarrow> todo it = [] \<Longrightarrow>
      \<exists>it'. st_next S b it = NextEnd it' \<and> it_ok b it' \<and> passed it' = passed it \<and> todo it' = []"
    and next_item: "it_ok b it \<Longrightarrow> todo it = x # xs \<Longrightarrow>
      \<exists>item it'. st_next S b it = NextItem item it' \<and> st_data S item = fst x \<and> st_len S item = snd x \<and>
        it_ok b it' \<and> passed it' = passed it @ [x] \<and> todo it' = xs"
    and release: "it_ok b it \<Longrightarrow>
      healthy b (st_release S it) \<and> view (st_release S it) = passed it @ todo it"
    and typed: "healthy b s \<Longrightarrow> (Some e, n) \<in> set (view s) \<Longrightarrow> elem_typed e"
begin

lemma reads_todo:
  "it_ok b it \<Longrightarrow> todo it = xs @ ys \<Longrightarrow>
     \<exists>it'. reads S b it xs it' \<and> it_ok b it' \<and> passed it' = passed it @ xs \<and> todo it' = ys"
proof (induction xs arbitrary: it)
  case Nil
  then show ?case by auto
next
  case (Cons x xs)
  from next_item [OF Cons.prems(1), of x "xs @ ys"] Cons.prems(2)
  obtain item it1 where it1: "st_next S b it = NextItem item it1" "st_data S item = fst x"
      "st_len S item = snd x" "it_ok b it1" "passed it1 = passed it @ [x]" "todo it1 = xs @ ys"
    by auto
  from Cons.IH [OF it1(4,6)] obtain it2 where
      "reads S b it1 xs it2" "it_ok b it2" "passed it2 = passed it1 @ xs" "todo it2 = ys"
    by blast
  with it1 reads_Cons [of S b it item it1 xs it2] show ?case by auto
qed

text \<open>A healthy storage is read from start to end, and left as it was.\<close>

lemma reads_all:
  assumes "healthy b s"
  obtains it it1 it2 where "st_iter S s = IterOk it" "reads S b it (view s) it1"
    "st_next S b it1 = NextEnd it2"
    "healthy b (st_release S it2)" "view (st_release S it2) = view s"
proof -
  obtain it where it: "st_iter S s = IterOk it" "it_ok b it" "passed it = []" "todo it = view s"
    using iter_start [OF assms] by blast
  obtain it1 where it1: "reads S b it (view s) it1" "it_ok b it1" "passed it1 = view s" "todo it1 = []"
    using reads_todo [OF it(2), of "view s" "[]"] it by auto
  obtain it2 where "st_next S b it1 = NextEnd it2" "it_ok b it2" "passed it2 = view s" "todo it2 = []"
    using next_end [OF it1(2,4)] it1 by auto
  with it it1 release [of b it2] that show thesis by simp
qed

text \<open>A healthy storage is read up to any point, and left as it was.\<close>

lemma reads_prefix:
  assumes "healthy b s" and "view s = xs @ ys"
  obtains it it1 where "st_iter S s = IterOk it" "reads S b it xs it1"
    "it_ok b it1" "passed it1 = xs" "todo it1 = ys"
    "healthy b (st_release S it1)" "view (st_release S it1) = view s"
proof -
  obtain it where it: "st_iter S s = IterOk it" "it_ok b it" "passed it = []" "todo it = view s"
    using iter_start [OF assms(1)] by blast
  obtain it1 where "reads S b it xs it1" "it_ok b it1" "passed it1 = xs" "todo it1 = ys"
    using reads_todo [OF it(2), of xs ys] it assms(2) by auto
  with it release [of b it1] assms(2) that show thesis by simp
qed

end

text \<open>
  \<open>push\<close> appends; if it fails, the storage still holds everything it held, and at most the
  element being written, readable or not. \<open>room s\<close> is a number of pushes that are sure to
  succeed. \<open>invalidate\<close> removes the entry just yielded and no other.
\<close>

locale ndl_storage = ndl_reader S healthy view it_ok passed todo
  for S :: "('s, 'it, 'item, 'e) storage_ops"
    and healthy :: "nat \<Rightarrow> 's \<Rightarrow> bool"
    and view :: "'s \<Rightarrow> entry list"
    and it_ok :: "nat \<Rightarrow> 'it \<Rightarrow> bool"
    and passed :: "'it \<Rightarrow> entry list"
    and todo :: "'it \<Rightarrow> entry list" +
  fixes room :: "'s \<Rightarrow> nat"
  assumes push_ok: "healthy b s \<Longrightarrow> writable b e \<Longrightarrow> st_push S s e = PushOk n s' \<Longrightarrow>
      healthy b s' \<and> view s' = view s @ [(Some e, n)]"
    and push_err: "healthy b s \<Longrightarrow> writable b e \<Longrightarrow> st_push S s e = PushErr er s' \<Longrightarrow>
      healthy b s' \<and> (view s' = view s \<or> (\<exists>d n. view s' = view s @ [(d, n)] \<and> (d = None \<or> d = Some e)))"
    and push_room: "healthy b s \<Longrightarrow> writable b e \<Longrightarrow> 0 < room s \<Longrightarrow>
      \<exists>n s'. st_push S s e = PushOk n s' \<and> room s - 1 \<le> room s'"
    and invalidate: "it_ok b it \<Longrightarrow> st_next S b it = NextItem item it' \<Longrightarrow>
      \<exists>it''. st_invalidate S item it' = InvalidateOk it'' \<and> it_ok b it'' \<and>
        passed it'' = passed it \<and> todo it'' = todo it'"

end
