(* ===== verification/Storage_Node.thy ===== *)
theory Storage_Node
  imports Data_Storage
begin

text \<open>
  Nodes and the list of nodes (\<open>storage_node.rs\<close>, \<open>StorageListInner\<close> of \<open>storage_list.rs\<close>).

  Nodes are static objects that the list, the handles and the worker share; they live in a heap
  from node identifiers to node records. \<open>n_t\<close> is the \<open>MaybeUninit<T>\<close> data item (\<open>None\<close> is
  uninitialised memory) and \<open>n_taken\<close> the pointer \<open>taken_for_list\<close> as an address whose lowest
  bit is the "handle is live" flag. Values of all stored types share the type variable \<open>'v\<close>; a
  node's \<open>codec\<close> is what its own \<open>T\<close> brings.
\<close>

section \<open>Nodes\<close>

type_synonym nid = nat
type_synonym addr = nat

text \<open>
  The scratch buffer after writing bytes at its front through a \<open>Cursor\<close>, and how many were
  written; writing fails when they do not fit (\<open>EndOfSlice\<close>).
\<close>

definition cursor_write :: "u8 list \<Rightarrow> u8 list \<Rightarrow> (nat \<times> u8 list) option" where
  "cursor_write buf bs =
     (if length bs \<le> length buf then Some (length bs, bs @ drop (length bs) buf) else None)"

text \<open>
  The type-erased functions of a \<open>VTable\<close>. \<open>Err ()\<close> is Rust's \<open>Err(())\<close>; \<open>None\<close> in
  \<open>vt_serialize\<close> is undefined behaviour (\<open>assume_init_ref\<close> on uninitialised data).
\<close>

record 'v vtable =
  vt_serialize :: "'v option \<Rightarrow> u8 list \<Rightarrow> (nat \<times> u8 list, unit) result option"
  vt_deserialize :: "'v option \<Rightarrow> u8 list \<Rightarrow> (nat, unit) result \<times> 'v option"

definition serialize :: "'v codec \<Rightarrow> 'v option \<Rightarrow> u8 list \<Rightarrow> (nat \<times> u8 list, unit) result option" where
  "serialize c t buf =
     (case t of
        None \<Rightarrow> None
      | Some v \<Rightarrow>
          (case cursor_write buf (cd_encode c v) of
             Some (n, buf') \<Rightarrow> Some (Ok (n, buf'))
           | None \<Rightarrow> Some (Err ())))"

definition deserialize :: "'v codec \<Rightarrow> 'v option \<Rightarrow> u8 list \<Rightarrow> (nat, unit) result \<times> 'v option" where
  "deserialize c t buf =
     (case cd_decode c buf of
        None \<Rightarrow> (Err (), t)
      | Some v \<Rightarrow> (Ok (cd_len c v), Some v))"

definition vtable_for_ty :: "'v codec \<Rightarrow> 'v vtable" where
  "vtable_for_ty c = \<lparr>vt_serialize = serialize c, vt_deserialize = deserialize c\<rparr>"

record 'v node =
  n_key :: key
  n_state :: state
  n_vtable :: "'v vtable"
  n_t :: "'v option"
  n_taken :: addr

definition node_new :: "key \<Rightarrow> 'v codec \<Rightarrow> 'v node" where
  "node_new path c =
     \<lparr>n_key = path, n_state = Initial, n_vtable = vtable_for_ty c, n_t = None, n_taken = 0\<rparr>"

type_synonym 'v heap = "nid \<Rightarrow> 'v node"

definition set_state :: "nid \<Rightarrow> state \<Rightarrow> 'v heap \<Rightarrow> 'v heap" where
  "set_state i st h = h(i := (h i)\<lparr>n_state := st\<rparr>)"

lemma set_state_simps [simp]:
  "n_state (set_state i st h j) = (if j = i then st else n_state (h j))"
  "n_t (set_state i st h j) = n_t (h j)"
  "n_key (set_state i st h j) = n_key (h j)"
  "n_vtable (set_state i st h j) = n_vtable (h j)"
  "n_taken (set_state i st h j) = n_taken (h j)"
  by (simp_all add: set_state_def)

section \<open>The list\<close>

text \<open>The node pointers from the front of the list, and the cache.\<close>

record list_inner =
  li_list :: "nid list"
  li_seq :: seq_state

definition find_node :: "'v heap \<Rightarrow> nid list \<Rightarrow> key \<Rightarrow> nid option" where
  "find_node h ns key = find (\<lambda>i. n_key (h i) = key) ns"

text \<open>\<open>mark_initial_nonresident\<close>.\<close>

fun mark_initial_nonresident :: "nid list \<Rightarrow> 'v heap \<Rightarrow> 'v heap" where
  "mark_initial_nonresident [] h = h"
| "mark_initial_nonresident (i # ns) h =
     mark_initial_nonresident ns (if n_state (h i) = Initial then set_state i NonResident h else h)"

text \<open>\<open>needs_writing\<close>: an attached node that was never read is an error; otherwise any
  changed node, or a storage without records, asks for a write.\<close>

fun scan_needs_writing :: "'v heap \<Rightarrow> nid list \<Rightarrow> bool \<Rightarrow> (bool, error) result" where
  "scan_needs_writing h [] needs = Ok needs"
| "scan_needs_writing h (i # ns) needs =
     (case n_state (h i) of
        ValidNoWriteNeeded \<Rightarrow> scan_needs_writing h ns needs
      | NeedsWrite \<Rightarrow> scan_needs_writing h ns True
      | Initial \<Rightarrow> Err NeedsFirstRead
      | NonResident \<Rightarrow> scan_needs_writing h ns needs)"

definition needs_writing :: "'v heap \<Rightarrow> list_inner \<Rightarrow> (bool, error) result" where
  "needs_writing h li =
     (case scan_needs_writing h (li_list li) False of
        Err e \<Rightarrow> Err e
      | Ok needs \<Rightarrow> Ok (needs \<or> highest_seen (li_seq li) = None))"

text \<open>The loop of \<open>process_writes\<close> that marks what was written.\<close>

fun mark_written :: "nid list \<Rightarrow> 'v heap \<Rightarrow> 'v heap" where
  "mark_written [] h = h"
| "mark_written (i # ns) h =
     mark_written ns
       (case n_state (h i) of
          Initial \<Rightarrow> h
        | NonResident \<Rightarrow> h
        | ValidNoWriteNeeded \<Rightarrow> set_state i ValidNoWriteNeeded h
        | NeedsWrite \<Rightarrow> set_state i ValidNoWriteNeeded h)"

section \<open>Serialising a node (\<open>serialize_node\<close>)\<close>

text \<open>
  The key, then the value, into the buffer; the result is the number of bytes used and the
  buffer. \<open>buf.get_mut(used..)\<close> cannot fail after a successful write.
\<close>

definition serialize_node ::
  "externs \<Rightarrow> 'v node \<Rightarrow> u8 list \<Rightarrow> (nat \<times> u8 list, error) result option" where
  "serialize_node X node buf =
     (case cursor_write buf (str_encode X (n_key node)) of
        None \<Rightarrow> Some (Err Serialization)
      | Some (used, buf1) \<Rightarrow>
          (case get_from used buf1 of
             None \<Rightarrow> Some (Err Serialization)
           | Some remain \<Rightarrow>
               (case vt_serialize (n_vtable node) (n_t node) remain of
                  None \<Rightarrow> None
                | Some (Err _) \<Rightarrow> Some (Err Serialization)
                | Some (Ok (len, remain')) \<Rightarrow> Some (Ok (len + used, take used buf1 @ remain')))))"

section \<open>Lemmas on the list operations\<close>

lemma find_node_Some: "find_node h ns k = Some i \<Longrightarrow> i \<in> set ns \<and> n_key (h i) = k"
  unfolding find_node_def by (auto simp: find_Some_iff)

lemma find_node_None: "find_node h ns k = None \<longleftrightarrow> k \<notin> (\<lambda>i. n_key (h i)) ` set ns"
  unfolding find_node_def by (auto simp: find_None_iff)

lemma find_node_unique:
  assumes "inj_on (\<lambda>i. n_key (h i)) (set ns)" and "i \<in> set ns"
  shows "find_node h ns (n_key (h i)) = Some i"
proof (cases "find_node h ns (n_key (h i))")
  case None
  with assms(2) show ?thesis by (simp add: find_node_None)
next
  case (Some j)
  with assms show ?thesis by (auto dest!: find_node_Some dest: inj_onD)
qed

lemma mark_initial_simps [simp]:
  "n_t (mark_initial_nonresident ns h i) = n_t (h i)"
  "n_key (mark_initial_nonresident ns h i) = n_key (h i)"
  "n_vtable (mark_initial_nonresident ns h i) = n_vtable (h i)"
  "n_taken (mark_initial_nonresident ns h i) = n_taken (h i)"
  by (induction ns arbitrary: h) simp_all

lemma mark_initial_state:
  "n_state (mark_initial_nonresident ns h i) =
     (if i \<in> set ns \<and> n_state (h i) = Initial then NonResident else n_state (h i))"
  by (induction ns arbitrary: h) auto

lemma mark_written_simps [simp]:
  "n_t (mark_written ns h i) = n_t (h i)"
  "n_key (mark_written ns h i) = n_key (h i)"
  "n_vtable (mark_written ns h i) = n_vtable (h i)"
  "n_taken (mark_written ns h i) = n_taken (h i)"
  by (induction ns arbitrary: h) (simp_all split: state.splits)

lemma mark_written_state:
  "n_state (mark_written ns h i) =
     (if i \<in> set ns \<and> n_state (h i) = NeedsWrite then ValidNoWriteNeeded else n_state (h i))"
  by (induction ns arbitrary: h) (auto split: state.splits)

lemma scan_needs_writing_eq:
  "scan_needs_writing h ns needs =
     (if \<exists>i \<in> set ns. n_state (h i) = Initial then Err NeedsFirstRead
      else Ok (needs \<or> (\<exists>i \<in> set ns. n_state (h i) = NeedsWrite)))"
  by (induction ns arbitrary: needs) (auto split: state.splits)

text \<open>The bytes of a serialised node: key then value, if the buffer has room for both.\<close>

definition node_bytes :: "externs \<Rightarrow> 'v codec \<Rightarrow> key \<Rightarrow> 'v \<Rightarrow> u8 list" where
  "node_bytes X c k v = str_encode X k @ cd_encode c v"

lemma serialize_node_eq:
  assumes "n_vtable node = vtable_for_ty c" and "n_t node = Some v"
  shows "serialize_node X node buf =
    (let bs = node_bytes X c (n_key node) v
     in if length bs \<le> length buf then Some (Ok (length bs, bs @ drop (length bs) buf))
        else Some (Err Serialization))"
  using assms
  by (auto simp: serialize_node_def cursor_write_def get_from_def vtable_for_ty_def serialize_def
      node_bytes_def Let_def add.commute)

end
