(* ===== verification/List_Scan.thy ===== *)
theory List_Scan
  imports Storage_Node
begin

text \<open>
  \<open>StorageListInner::get_or_populate_latest\<close>: the scan of the whole storage, run when the cache
  is empty. The loop over the storage iterator is a partial function (an iterator need not end);
  \<open>scan_loop_reads\<close> reduces it to \<open>scan_list\<close> for any run of the iterator, and the lemmas in the
  context of \<open>ndl_reader\<close> show that it returns on every healthy storage.
\<close>

section \<open>The loop\<close>

text \<open>The result, the iterator (which still borrows the storage) and the loop state.\<close>

partial_function (option) scan_loop ::
  "('s, 'it, 'item, 'e) storage_ops \<Rightarrow> externs \<Rightarrow> nat \<Rightarrow> 'it \<Rightarrow> scan_state \<Rightarrow>
     ((unit, 'e load_store_error) result \<times> 'it \<times> scan_state) option" where
  "scan_loop S X b it st =
     (case st_next S b it of
        NextErr e it' \<Rightarrow> Some (Err (FlashRead e), it', st)
      | NextEnd it' \<Rightarrow> Some (Ok (), it', st)
      | NextItem item it' \<Rightarrow>
          (case scan_step X (st_data S item) (st_len S item) st of
             None \<Rightarrow> None
           | Some st' \<Rightarrow> scan_loop S X b it' st'))"

text \<open>
  The whole operation on the cache \<open>q\<close>: the result, the cache, the byte counter and the storage.
\<close>

definition get_or_populate_latest ::
  "('s, 'it, 'item, 'e) storage_ops \<Rightarrow> externs \<Rightarrow> nat \<Rightarrow> seq_state \<Rightarrow> nat \<Rightarrow> 's \<Rightarrow>
     ((good_write_record option, 'e load_store_error) result \<times> seq_state \<times> nat \<times> 's) option" where
  "get_or_populate_latest S X b q bytes_read s =
     (if initial_scan_completed q then Some (Ok (highest_seen q), q, bytes_read, s)
      else
        (case st_iter S s of
           IterErr e s' \<Rightarrow> Some (Err (FlashRead e), q, bytes_read, s')
         | IterOk it \<Rightarrow>
             (case scan_loop S X b it (scan_init bytes_read q) of
                None \<Rightarrow> None
              | Some (res, it', st) \<Rightarrow>
                  (case res of
                     Err e \<Rightarrow> Some (Err e, sc_seq st, sc_bytes st, st_release S it')
                   | Ok _ \<Rightarrow>
                       (let highest = highest_seen (sc_seq st);
                            q' = (if highest = None then (sc_seq st)\<lparr>next_seq := nonzero 1\<rparr> else sc_seq st)
                        in Some (Ok highest, q', sc_bytes st, st_release S it'))))))"

section \<open>The loop is the pure scan\<close>

lemma scan_loop_reads:
  "reads S b it xs it' \<Longrightarrow>
     scan_loop S X b it st =
       (case scan_list X xs st of None \<Rightarrow> None | Some st' \<Rightarrow> scan_loop S X b it' st')"
proof (induction arbitrary: st rule: reads.induct)
  case (reads_Nil it)
  show ?case by simp
next
  case (reads_Cons it item it1 xs it2)
  then show ?case
    by (subst scan_loop.simps) (simp split: option.split)
qed

lemma scan_loop_end: "st_next S b it = NextEnd it' \<Longrightarrow> scan_loop S X b it st = Some (Ok (), it', st)"
  by (subst scan_loop.simps) simp

lemma scan_loop_err:
  "st_next S b it = NextErr e it' \<Longrightarrow> scan_loop S X b it st = Some (Err (FlashRead e), it', st)"
  by (subst scan_loop.simps) simp

section \<open>The result of a scan\<close>

text \<open>What the scan of a storage holding these elements leaves in an empty cache.\<close>

definition scanned :: "externs \<Rightarrow> nat \<Rightarrow> elem option list \<Rightarrow> seq_state" where
  "scanned X kept es =
     (case insert_all (records_in X es) (seq_new kept) of
        None \<Rightarrow> seq_new kept
      | Some q \<Rightarrow> if highest_seen q = None then q\<lparr>next_seq := Some 1\<rparr> else q)"

definition entries_typed :: "entry list \<Rightarrow> bool" where
  "entries_typed xs \<longleftrightarrow> (\<forall>e n. (Some e, n) \<in> set xs \<longrightarrow> elem_typed e)"

lemma records_typed:
  assumes "entries_typed xs" and "r \<in> set (records_in X (map fst xs))"
  shows "gr_seq r \<noteq> 0"
proof -
  obtain pre ds post where "map fst xs = pre @ map Some (record_elems X (gr_seq r) ds) @ post"
    using assms(2) by (auto simp: located_iff)
  then have "Some (Start (gr_seq r)) \<in> set (map fst xs)"
    by (simp add: record_elems_def)
  then obtain n where "(Some (Start (gr_seq r)), n) \<in> set xs"
    by auto
  with assms(1) have "elem_typed (Start (gr_seq r))"
    unfolding entries_typed_def by blast
  then show ?thesis by simp
qed

text \<open>The records of a typed storage always fit the cache.\<close>

lemma scanned_spec:
  assumes "0 < kept" and "entries_typed xs"
  obtains q where "insert_all (records_in X (map fst xs)) (seq_new kept) = Some q"
    "cache_ok kept q" "seq_keys q = top_keys kept (map gr_seq (records_in X (map fst xs)))"
    "records_in X (map fst xs) \<noteq> [] \<longrightarrow> needs_gc q"
  using insert_all_seqs [OF assms(1), of "records_in X (map fst xs)"] records_typed [OF assms(2)]
  by blast

lemma highest_seen_next [simp]: "highest_seen (q\<lparr>next_seq := n\<rparr>) = highest_seen q"
  "seq_keys (q\<lparr>next_seq := n\<rparr>) = seq_keys q" "present (q\<lparr>next_seq := n\<rparr>) = present q"
  by (simp_all add: highest_seen_def seq_keys_def present_def)

lemma highest_seen_gc [simp]: "highest_seen (q\<lparr>needs_gc := n\<rparr>) = highest_seen q"
  "seq_keys (q\<lparr>needs_gc := n\<rparr>) = seq_keys q" "present (q\<lparr>needs_gc := n\<rparr>) = present q"
  by (simp_all add: highest_seen_def seq_keys_def present_def)

lemma scanned_no_records:
  "records_in X es = [] \<Longrightarrow> scanned X kept es = (seq_new kept)\<lparr>next_seq := Some 1\<rparr>"
  by (simp add: scanned_def)

lemma scanned_keys:
  assumes "0 < kept" and "entries_typed xs"
  shows "seq_keys (scanned X kept (map fst xs)) = top_keys kept (map gr_seq (records_in X (map fst xs)))"
proof -
  obtain q where "insert_all (records_in X (map fst xs)) (seq_new kept) = Some q"
      "seq_keys q = top_keys kept (map gr_seq (records_in X (map fst xs)))"
    by (rule scanned_spec [OF assms])
  then show ?thesis by (simp add: scanned_def)
qed

lemma scanned_cache_ok:
  assumes "0 < kept" and "entries_typed xs"
  shows "cache_ok kept (scanned X kept (map fst xs))"
proof -
  obtain q where "insert_all (records_in X (map fst xs)) (seq_new kept) = Some q" "cache_ok kept q"
    by (rule scanned_spec [OF assms])
  then show ?thesis
    by (simp add: scanned_def cache_ok_def seq_wf_def next_ok_def)
qed

lemma scanned_present:
  assumes "0 < kept" and "entries_typed xs"
  shows "mset (present (scanned X kept (map fst xs))) \<subseteq># mset (records_in X (map fst xs))"
proof -
  obtain q where q: "insert_all (records_in X (map fst xs)) (seq_new kept) = Some q"
    using scanned_spec [OF assms, of X] by blast
  then show ?thesis
    using mset_present_insert_all [OF q] by (simp add: scanned_def)
qed

lemma scanned_needs_gc:
  assumes "0 < kept" and "entries_typed xs"
  shows "needs_gc (scanned X kept (map fst xs)) \<longleftrightarrow> records_in X (map fst xs) \<noteq> []"
proof (cases "records_in X (map fst xs) = []")
  case True
  then show ?thesis by (simp add: scanned_no_records seq_new_def)
next
  case False
  obtain q where q: "insert_all (records_in X (map fst xs)) (seq_new kept) = Some q"
      "records_in X (map fst xs) \<noteq> [] \<longrightarrow> needs_gc q"
    by (rule scanned_spec [OF assms])
  with False show ?thesis by (simp add: scanned_def)
qed

text \<open>The highest record is one with the largest sequence number, and the next number follows it.\<close>

lemma scanned_highest:
  assumes "0 < kept" and "entries_typed xs" and "records_in X (map fst xs) \<noteq> []"
  obtains r where "highest_seen (scanned X kept (map fst xs)) = Some r"
    "r \<in> set (records_in X (map fst xs))"
    "gr_seq r = Max (gr_seq ` set (records_in X (map fst xs)))"
    "next_seq (scanned X kept (map fst xs)) = checked_add (gr_seq r) 1"
proof -
  let ?q = "scanned X kept (map fst xs)" and ?rs = "records_in X (map fst xs)"
  have ok: "cache_ok kept ?q" using assms(1,2) by (rule scanned_cache_ok)
  then have ne: "last_records ?q \<noteq> []" by (auto simp: cache_ok_def seq_wf_def)
  have "map_option gr_seq (highest_seen ?q) = Some (Max (set (map gr_seq ?rs)))"
    using highest_seen_keys [OF ne] scanned_keys [OF assms(1,2), of X]
      last_top_keys [OF assms(1), of "map gr_seq ?rs"] assms(3) by simp
  then obtain r where r: "highest_seen ?q = Some r" "gr_seq r = Max (gr_seq ` set ?rs)"
    by auto
  have "r \<in> set (present ?q)"
    using r(1) ne by (metis highest_seen_last last_in_set set_present)
  with scanned_present [OF assms(1,2), of X] have "r \<in> set ?rs"
    by (metis mset_subset_eqD set_mset_mset)
  moreover have "next_seq ?q = checked_add (gr_seq r) 1"
    using ok r(1) by (simp add: cache_ok_def next_ok_def)
  ultimately show thesis using r that by blast
qed

lemma scanned_none:
  assumes "0 < kept" and "entries_typed xs"
  shows "highest_seen (scanned X kept (map fst xs)) = None \<longleftrightarrow> records_in X (map fst xs) = []"
  by (cases "records_in X (map fst xs) = []")
    (auto simp: scanned_no_records elim: scanned_highest [OF assms])

text \<open>A read error in the middle of the scan leaves what was found in front of it in the cache.\<close>

lemma populate_interrupted:
  assumes "0 < kept" and "entries_typed xs" and "records_in X (map fst xs) \<noteq> []"
    and "st_iter F s = IterOk it" and "reads F b it xs it1" and "st_next F b it1 = NextErr e it2"
  shows "get_or_populate_latest F X b (seq_new kept) n s =
    Some (Err (FlashRead e), scanned X kept (map fst xs), n + sum_list (map snd xs), st_release F it2)"
proof -
  obtain q where q: "insert_all (records_in X (map fst xs)) (seq_new kept) = Some q"
    by (rule scanned_spec [OF assms(1,2)])
  have "highest_seen (scanned X kept (map fst xs)) \<noteq> None"
    using scanned_none [OF assms(1,2)] assms(3) by simp
  then have sq: "scanned X kept (map fst xs) = q"
    using q by (auto simp: scanned_def split: if_splits)
  then obtain st where st: "scan_list X xs (scan_init n (seq_new kept)) = Some st" "sc_seq st = q"
    using scan_list_spec [of X xs n "seq_new kept"] q by (auto simp: records_in_def)
  then show ?thesis
    using scan_list_counts [OF st(1)] sq assms(4)
    by (simp add: get_or_populate_latest_def initial_scan_completed_def seq_new_def
        scan_loop_reads [OF assms(5)] scan_loop_err [OF assms(6)])
      (simp add: scan_init_def)
qed

section \<open>Scanning a healthy storage\<close>

text \<open>A scan on top of a cache: the complete records are inserted one after the other.\<close>

definition rescan :: "seq_state \<Rightarrow> seq_state" where
  "rescan q = (if highest_seen q = None then q\<lparr>next_seq := Some 1\<rparr> else q)"

lemma rescan_highest [simp]: "highest_seen (rescan q) = highest_seen q"
  by (simp add: rescan_def highest_seen_def)

context ndl_reader begin

abbreviation elems_of :: "'s \<Rightarrow> elem option list" where
  "elems_of s \<equiv> map fst (view s)"

lemma view_typed: "healthy b s \<Longrightarrow> entries_typed (view s)"
  using typed unfolding entries_typed_def by blast

text \<open>The first scan returns, reads every byte once and leaves the storage as it was.\<close>

lemma populate_scans:
  assumes "healthy b s" and "0 < kept"
  obtains s' where
    "get_or_populate_latest S X b (seq_new kept) n s =
       Some (Ok (highest_seen (scanned X kept (elems_of s))), scanned X kept (elems_of s),
             n + sum_list (map snd (view s)), s')"
    "healthy b s'" "view s' = view s"
proof -
  obtain it it1 it2 where it: "st_iter S s = IterOk it" "reads S b it (view s) it1"
      "st_next S b it1 = NextEnd it2" "healthy b (st_release S it2)" "view (st_release S it2) = view s"
    using reads_all [OF assms(1)] by blast
  obtain q where q: "insert_all (records_in X (elems_of s)) (seq_new kept) = Some q"
    using scanned_spec [OF assms(2) view_typed [OF assms(1)], of X] by blast
  with scan_list_spec [of X "view s" n "seq_new kept"]
  obtain st where st: "scan_list X (view s) (scan_init n (seq_new kept)) = Some st" "sc_seq st = q"
    by (auto simp: records_in_def)
  have bytes: "sc_bytes st = n + sum_list (map snd (view s))"
    using scan_list_counts [OF st(1)] by (simp add: scan_init_def)
  have not_done: "\<not> initial_scan_completed (seq_new kept)"
    by (simp add: initial_scan_completed_def seq_new_def)
  have "get_or_populate_latest S X b (seq_new kept) n s =
       Some (Ok (highest_seen (scanned X kept (elems_of s))), scanned X kept (elems_of s),
             n + sum_list (map snd (view s)), st_release S it2)"
    using not_done it(1) st bytes q
    by (simp add: get_or_populate_latest_def scan_loop_reads [OF it(2)] scan_loop_end [OF it(3)]
        scanned_def Let_def nonzero_def)
  with it that show thesis by blast
qed

lemma populate_inserts:
  assumes "healthy b s" and "\<not> initial_scan_completed q" and "insert_all (records_in X (elems_of s)) q = Some q1"
  obtains n' s' where
    "get_or_populate_latest S X b q n s = Some (Ok (highest_seen (rescan q1)), rescan q1, n', s')"
    "healthy b s'" "view s' = view s"
proof -
  obtain it it1 it2 where it: "st_iter S s = IterOk it" "reads S b it (view s) it1"
      "st_next S b it1 = NextEnd it2" "healthy b (st_release S it2)" "view (st_release S it2) = view s"
    using reads_all [OF assms(1)] by blast
  obtain st where st: "scan_list X (view s) (scan_init n q) = Some st" "sc_seq st = q1"
    using scan_list_spec [of X "view s" n q] assms(3) by (auto simp: records_in_def)
  have "get_or_populate_latest S X b q n s =
      Some (Ok (highest_seen (rescan q1)), rescan q1, sc_bytes st, st_release S it2)"
    using assms(2) it(1) st
    by (simp add: get_or_populate_latest_def scan_loop_reads [OF it(2)] scan_loop_end [OF it(3)]
        rescan_def Let_def nonzero_def)
  then show thesis by (rule that [OF _ it(4,5)])
qed

end

end
