(* ===== verification/List_Read.thy ===== *)
theory List_Read
  imports List_Scan
begin

text \<open>
  \<open>StorageListInner::extract_all\<close> and \<open>StorageList::process_reads\<close>: hydrating the nodes that
  are still \<open>Initial\<close> from the newest valid write record.

  The specification is per node (\<open>read_node\<close>): a node in state \<open>Initial\<close> takes the value of the
  first data element with its key, and becomes \<open>NonResident\<close> if there is none or it does not
  decode; every other node is left alone.
\<close>

section \<open>Outcomes of the list operations\<close>

datatype wake = WakeNeedsRead | WakeNeedsWrite | WakeReadingDone

record ('v, 's, 'r, 'e) outcome =
  o_res :: "('r, 'e load_store_error) result"
  o_heap :: "'v heap"
  o_inner :: list_inner
  o_storage :: 's
  o_wakes :: "wake list"

record read_counters =
  pr_total_bytes_read :: nat
  pr_current_bytes_read :: nat

section \<open>Hydrating one node\<close>

text \<open>The call through the \<open>vtable\<close> and the state change that follows it.\<close>

definition hydrate_node :: "u8 list \<Rightarrow> 'v node \<Rightarrow> 'v node" where
  "hydrate_node body node =
     (case vt_deserialize (n_vtable node) (n_t node) body of
        (Ok _, t) \<Rightarrow> node\<lparr>n_t := t, n_state := ValidNoWriteNeeded\<rparr>
      | (Err _, t) \<Rightarrow> node\<lparr>n_t := t, n_state := NonResident\<rparr>)"

text \<open>What the loop of \<open>extract_all\<close> does with one data element.\<close>

definition hydrate :: "externs \<Rightarrow> nid list \<Rightarrow> ser_data \<Rightarrow> 'v heap \<Rightarrow> 'v heap" where
  "hydrate X ns d h =
     (case kv_pair X d of
        Err _ \<Rightarrow> h
      | Ok kv \<Rightarrow>
          (case find_node h ns (kv_key kv) of
             None \<Rightarrow> h
           | Some i \<Rightarrow>
               (case n_state (h i) of
                  Initial \<Rightarrow> h(i := hydrate_node (kv_body kv) (h i))
                | NonResident \<Rightarrow> h
                | ValidNoWriteNeeded \<Rightarrow> h
                | NeedsWrite \<Rightarrow> h)))"

section \<open>\<open>extract_all\<close>\<close>

text \<open>Skipping the items before the record.\<close>

fun skip_items ::
  "('s, 'it, 'item, 'e) storage_ops \<Rightarrow> nat \<Rightarrow> nat \<Rightarrow> 'it \<Rightarrow> nat \<Rightarrow>
     (unit, 'e load_store_error) result \<times> 'it \<times> nat" where
  "skip_items S b 0 it total_read = (Ok (), it, total_read)"
| "skip_items S b (Suc n) it total_read =
     (case st_next S b it of
        NextItem item it' \<Rightarrow> skip_items S b n it' (total_read + st_len S item)
      | NextEnd it' \<Rightarrow> (Err (AppError InconsistentFlash), it', total_read)
      | NextErr e it' \<Rightarrow> (Err (FlashRead e), it', total_read))"

partial_function (option) extract_loop ::
  "('s, 'it, 'item, 'e) storage_ops \<Rightarrow> externs \<Rightarrow> nat \<Rightarrow> nid list \<Rightarrow> u32 \<Rightarrow> 'it \<Rightarrow> 'v heap \<Rightarrow> nat \<Rightarrow> nat \<Rightarrow>
     ((unit, 'e load_store_error) result \<times> 'it \<times> 'v heap \<times> nat \<times> nat) option" where
  "extract_loop S X b ns seq it h total_read current =
     (case st_next S b it of
        NextEnd it' \<Rightarrow> Some (Err (AppError InconsistentFlash), it', h, total_read, current)
      | NextErr e it' \<Rightarrow> Some (Err (FlashRead e), it', h, total_read, current)
      | NextItem item it' \<Rightarrow>
          (case st_data S item of
             None \<Rightarrow> Some (Err (AppError InconsistentFlash), it', h, total_read + st_len S item, current)
           | Some el \<Rightarrow>
               (case el of
                  Start _ \<Rightarrow> Some (Err (AppError InconsistentFlash), it', h, total_read + st_len S item, current)
                | End seq_no _ \<Rightarrow>
                    Some (if seq_no = seq then Ok () else Err (AppError InconsistentFlash),
                      it', h, total_read + st_len S item, current)
                | Data d \<Rightarrow>
                    extract_loop S X b ns seq it' (hydrate X ns d h)
                      (total_read + st_len S item) (current + st_len S item))))"

text \<open>
  The next item has to be the start element of the expected record; every other outcome, a read
  error included, is \<open>InconsistentFlash\<close>.
\<close>

definition extract_all ::
  "('s, 'it, 'item, 'e) storage_ops \<Rightarrow> externs \<Rightarrow> nat \<Rightarrow> nid list \<Rightarrow> good_write_record \<Rightarrow> 's \<Rightarrow> 'v heap \<Rightarrow> nat \<Rightarrow> nat \<Rightarrow>
     ((unit, 'e load_store_error) result \<times> 's \<times> 'v heap \<times> nat \<times> nat) option" where
  "extract_all S X b ns latest s h total_read current =
     (case st_iter S s of
        IterErr e s' \<Rightarrow> Some (Err (FlashRead e), s', h, total_read, current)
      | IterOk it \<Rightarrow>
          (case skip_items S b (gr_start latest) it total_read of
             (Err e, it1, total_read1) \<Rightarrow> Some (Err e, st_release S it1, h, total_read1, current)
           | (Ok _, it1, total_read1) \<Rightarrow>
               (case st_next S b it1 of
                  NextErr e it2 \<Rightarrow>
                    Some (Err (AppError InconsistentFlash), st_release S it2, h, total_read1, current)
                | NextEnd it2 \<Rightarrow>
                    Some (Err (AppError InconsistentFlash), st_release S it2, h, total_read1, current)
                | NextItem item it2 \<Rightarrow>
                    (let total_read2 = total_read1 + st_len S item in
                     if st_data S item \<noteq> Some (Start (gr_seq latest))
                     then Some (Err (AppError InconsistentFlash), st_release S it2, h, total_read2, current)
                     else
                       (case extract_loop S X b ns (gr_seq latest) it2 h total_read2 current of
                          None \<Rightarrow> None
                        | Some (res, it3, h', total_read3, current3) \<Rightarrow>
                            Some (res, st_release S it3, h', total_read3, current3))))))"

section \<open>\<open>process_reads\<close>\<close>

definition process_reads ::
  "('s, 'it, 'item, 'e) storage_ops \<Rightarrow> externs \<Rightarrow> u8 list \<Rightarrow> 'v heap \<Rightarrow> list_inner \<Rightarrow> 's \<Rightarrow>
     ('v, 's, read_counters, 'e) outcome option" where
  "process_reads S X buf h li s =
     (case get_or_populate_latest S X (length buf) (li_seq li) 0 s of
        None \<Rightarrow> None
      | Some (res, q, total_read, s1) \<Rightarrow>
          (let li1 = li\<lparr>li_seq := q\<rparr> in
           case res of
             Err e \<Rightarrow> Some \<lparr>o_res = Err e, o_heap = h, o_inner = li1, o_storage = s1, o_wakes = []\<rparr>
           | Ok found \<Rightarrow>
               (case (case found of
                        None \<Rightarrow> Some (Ok (), s1, h, total_read, 0)
                      | Some latest \<Rightarrow>
                          extract_all S X (length buf) (li_list li) latest s1 h total_read 0) of
                  None \<Rightarrow> None
                | Some (res2, s2, h2, total_read2, current2) \<Rightarrow>
                    (case res2 of
                       Err e \<Rightarrow>
                         Some \<lparr>o_res = Err e, o_heap = h2, o_inner = li1, o_storage = s2, o_wakes = []\<rparr>
                     | Ok _ \<Rightarrow>
                         Some \<lparr>o_res = Ok \<lparr>pr_total_bytes_read = total_read2, pr_current_bytes_read = current2\<rparr>,
                               o_heap = mark_initial_nonresident (li_list li) h2,
                               o_inner = li1, o_storage = s2, o_wakes = [WakeReadingDone]\<rparr>))))"

section \<open>The loops are pure functions of what is read\<close>

lemma skip_items_reads:
  "reads S b it xs it' \<Longrightarrow> skip_items S b (length xs) it total_read = (Ok (), it', total_read + sum_list (map snd xs))"
  by (induction arbitrary: total_read rule: reads.induct) simp_all

lemma extract_loop_data:
  "reads S b it (zip (map (\<lambda>d. Some (Data d)) ds) ls) it' \<Longrightarrow> length ls = length ds \<Longrightarrow>
     extract_loop S X b ns seq it h total_read current =
     extract_loop S X b ns seq it' (fold (hydrate X ns) ds h)
       (total_read + sum_list ls) (current + sum_list ls)"
proof (induction ds arbitrary: ls it h total_read current)
  case Nil
  then show ?case by simp
next
  case (Cons d ds)
  then obtain l ls' where ls: "ls = l # ls'" by (cases ls) auto
  with Cons.prems(1) obtain item it1 where
      "st_next S b it = NextItem item it1" "st_data S item = Some (Data d)" "st_len S item = l"
      "reads S b it1 (zip (map (\<lambda>d. Some (Data d)) ds) ls') it'"
    by (auto elim: reads_ConsE)
  with Cons ls show ?case
    by (subst extract_loop.simps) (simp add: add.assoc)
qed

section \<open>Hydration, node by node\<close>

fun lookup_body :: "externs \<Rightarrow> key \<Rightarrow> ser_data list \<Rightarrow> u8 list option" where
  "lookup_body X k [] = None"
| "lookup_body X k (d # ds) =
     (case kv_pair X d of
        Ok kv \<Rightarrow> if kv_key kv = k then Some (kv_body kv) else lookup_body X k ds
      | Err _ \<Rightarrow> lookup_body X k ds)"

definition hydrated :: "externs \<Rightarrow> ser_data list \<Rightarrow> 'v node \<Rightarrow> 'v node" where
  "hydrated X ds node =
     (if n_state node = Initial
      then (case lookup_body X (n_key node) ds of
              None \<Rightarrow> node
            | Some body \<Rightarrow> hydrate_node body node)
      else node)"

definition read_node :: "externs \<Rightarrow> ser_data list \<Rightarrow> 'v node \<Rightarrow> 'v node" where
  "read_node X ds node =
     (if n_state node = Initial
      then (case lookup_body X (n_key node) ds of
              None \<Rightarrow> node\<lparr>n_state := NonResident\<rparr>
            | Some body \<Rightarrow> hydrate_node body node)
      else node)"

lemma hydrate_node_simps [simp]:
  "n_key (hydrate_node body node) = n_key node"
  "n_taken (hydrate_node body node) = n_taken node"
  "n_vtable (hydrate_node body node) = n_vtable node"
  "n_state (hydrate_node body node) \<noteq> Initial"
  by (auto simp: hydrate_node_def split: prod.splits result.splits)

lemma hydrate_key [simp]: "n_key (hydrate X ns d h i) = n_key (h i)"
  by (auto simp: hydrate_def split: result.splits option.splits state.splits)

lemma fold_hydrate_key [simp]: "n_key (fold (hydrate X ns) ds h i) = n_key (h i)"
  by (induction ds arbitrary: h) simp_all

lemma hydrate_other: "i \<notin> set ns \<Longrightarrow> hydrate X ns d h i = h i"
  by (auto simp: hydrate_def dest: find_node_Some split: result.splits option.splits state.splits)

definition distinct_keys :: "'v heap \<Rightarrow> nid list \<Rightarrow> bool" where
  "distinct_keys h ns \<longleftrightarrow> inj_on (\<lambda>i. n_key (h i)) (set ns)"

lemma hydrate_at:
  assumes "distinct_keys h ns" and "i \<in> set ns"
  shows "hydrate X ns d h i = hydrated X [d] (h i)"
proof (cases "kv_pair X d")
  case (Err e)
  then show ?thesis by (simp add: hydrate_def hydrated_def)
next
  case (Ok kv)
  show ?thesis
  proof (cases "kv_key kv = n_key (h i)")
    case True
    with assms have "find_node h ns (kv_key kv) = Some i"
      by (simp add: distinct_keys_def find_node_unique)
    with True Ok show ?thesis
      by (simp add: hydrate_def hydrated_def split: state.split)
  next
    case False
    then show ?thesis
      using Ok by (auto simp: hydrate_def hydrated_def dest: find_node_Some split: option.split state.split)
  qed
qed

lemma hydrated_Nil [simp]: "hydrated X [] node = node"
  by (simp add: hydrated_def)

lemma hydrated_Cons: "hydrated X (d # ds) node = hydrated X ds (hydrated X [d] node)"
  by (cases "kv_pair X d"; cases "lookup_body X (n_key node) ds") (simp_all add: hydrated_def)

lemma fold_hydrate:
  assumes "distinct_keys h ns"
  shows "fold (hydrate X ns) ds h i = (if i \<in> set ns then hydrated X ds (h i) else h i)"
  using assms
proof (induction ds arbitrary: h)
  case Nil
  then show ?case by simp
next
  case (Cons d ds)
  have "distinct_keys (hydrate X ns d h) ns"
    using Cons.prems by (simp add: distinct_keys_def inj_on_def)
  from Cons.IH [OF this] Cons.prems show ?case
    by (simp add: hydrate_at hydrated_Cons [of X d ds] hydrate_other)
qed

lemma mark_initial_at:
  "mark_initial_nonresident ns h i =
     (if i \<in> set ns \<and> n_state (h i) = Initial then (h i)\<lparr>n_state := NonResident\<rparr> else h i)"
proof -
  have ext: "a = b" if "n_key a = n_key b" "n_state a = n_state b" "n_vtable a = n_vtable b"
      "n_t a = n_t b" "n_taken a = n_taken b" for a b :: "'a node"
    using that by (cases a; cases b) simp
  show ?thesis by (rule ext) (auto simp: mark_initial_state)
qed

lemma mark_hydrated:
  assumes "distinct_keys h ns"
  shows "mark_initial_nonresident ns (fold (hydrate X ns) ds h) i =
    (if i \<in> set ns then read_node X ds (h i) else h i)"
  by (auto simp: mark_initial_at fold_hydrate [OF assms] hydrated_def read_node_def split: option.splits)

section \<open>The data of a cached record\<close>

definition data_at :: "elem option list \<Rightarrow> good_write_record \<Rightarrow> ser_data list" where
  "data_at es r = fst (take_data (drop (Suc (gr_start r)) es))"

definition latest_data :: "elem option list \<Rightarrow> seq_state \<Rightarrow> ser_data list" where
  "latest_data es q = (case highest_seen q of None \<Rightarrow> [] | Some r \<Rightarrow> data_at es r)"

text \<open>The highest record of the cache stands in storage where the cache says.\<close>

definition stands_at :: "externs \<Rightarrow> elem option list \<Rightarrow> good_write_record \<Rightarrow> ser_data list \<Rightarrow> bool" where
  "stands_at X es r ds \<longleftrightarrow>
     (\<exists>pre post. es = pre @ map Some (record_elems X (gr_seq r) ds) @ post \<and> gr_start r = length pre)"

definition cache_describes :: "externs \<Rightarrow> elem option list \<Rightarrow> seq_state \<Rightarrow> bool" where
  "cache_describes X es q \<longleftrightarrow>
     (\<forall>r. highest_seen q = Some r \<longrightarrow> (\<exists>ds. stands_at X es r ds))"

lemma stands_at_data: "stands_at X es r ds \<Longrightarrow> data_at es r = ds"
  by (auto simp: stands_at_def data_at_def record_elems_def comp_def take_data_map)

lemma located_stands_at:
  assumes "r \<in> set (records_in X es)"
  obtains ds where "stands_at X es r ds" "gr_end r = gr_start r + length ds + 1"
proof -
  obtain pre ds post where "es = pre @ map Some (record_elems X (gr_seq r) ds) @ post"
      "gr_start r = length pre" "gr_end r = length pre + length ds + 1"
    using assms unfolding located_iff by blast
  then show thesis by (intro that [of ds]) (auto simp: stands_at_def)
qed

lemma scanned_describes:
  assumes "0 < kept" and "entries_typed xs"
  shows "cache_describes X (map fst xs) (scanned X kept (map fst xs))"
proof -
  {
    fix r assume r: "highest_seen (scanned X kept (map fst xs)) = Some r"
    then have ne: "records_in X (map fst xs) \<noteq> []"
      using scanned_none [OF assms, of X] by auto
    obtain r' where "highest_seen (scanned X kept (map fst xs)) = Some r'"
        "r' \<in> set (records_in X (map fst xs))"
      by (rule scanned_highest [OF assms ne])
    with r have "r \<in> set (records_in X (map fst xs))" by simp
    then obtain ds where "stands_at X (map fst xs) r ds" by (rule located_stands_at)
    then have "\<exists>ds. stands_at X (map fst xs) r ds" ..
  }
  then show ?thesis by (simp add: cache_describes_def)
qed

section \<open>Reading a healthy storage\<close>

lemma zip_map_fst_snd: "map fst xs = ys \<Longrightarrow> xs = zip ys (map snd xs)"
  by (metis zip_map_fst_snd)

context ndl_reader begin

lemma reads_data:
  assumes "it_ok b it" and "map fst (todo it) = map (\<lambda>d. Some (Data d)) ds @ Some (End seq crc) # post"
  obtains it1 where
    "extract_loop S X b ns seq it h total_read current = Some (Ok (), it1, fold (hydrate X ns) ds h,
       total_read + sum_list (map snd (take (length ds + 1) (todo it))),
       current + sum_list (map snd (take (length ds) (todo it))))"
    "healthy b (st_release S it1)" "view (st_release S it1) = passed it @ todo it"
proof -
  let ?xs = "take (length ds) (todo it)" and ?ys = "drop (length ds) (todo it)"
  have fst_xs: "map fst ?xs = map (\<lambda>d. Some (Data d)) ds"
    using assms(2) by (simp add: take_map [symmetric])
  have "map fst ?ys = Some (End seq crc) # post"
    using assms(2) by (simp add: drop_map [symmetric])
  then obtain l ys where ys: "?ys = (Some (End seq crc), l) # ys"
    by (cases ?ys) auto
  have len: "length ?xs = length ds" using fst_xs by (metis length_map)
  obtain it1 where it1: "reads S b it ?xs it1" "it_ok b it1" "passed it1 = passed it @ ?xs" "todo it1 = ?ys"
    using reads_todo [OF assms(1), of ?xs ?ys] by auto
  obtain item it2 where it2: "st_next S b it1 = NextItem item it2" "st_data S item = Some (End seq crc)"
      "st_len S item = l" "it_ok b it2" "passed it2 = passed it1 @ [(Some (End seq crc), l)]" "todo it2 = ys"
    using next_item [OF it1(2), of "(Some (End seq crc), l)" ys] it1(4) ys by auto
  have take1: "take (length ds + 1) (todo it) = ?xs @ [(Some (End seq crc), l)]"
    by (simp only: take_add) (simp add: ys)
  have "extract_loop S X b ns seq it h total_read current =
      extract_loop S X b ns seq it1 (fold (hydrate X ns) ds h)
        (total_read + sum_list (map snd ?xs)) (current + sum_list (map snd ?xs))"
    using it1(1) zip_map_fst_snd [OF fst_xs] len by (intro extract_loop_data) simp_all
  also have "\<dots> = Some (Ok (), it2, fold (hydrate X ns) ds h,
       total_read + sum_list (map snd (take (length ds + 1) (todo it))),
       current + sum_list (map snd ?xs))"
    using it2 take1 by (subst extract_loop.simps) (simp add: add.assoc)
  finally have loop: "extract_loop S X b ns seq it h total_read current = \<dots>" .
  have whole: "?xs @ (Some (End seq crc), l) # ys = todo it"
    using ys by (metis append_take_drop_id)
  show thesis
    by (rule that [OF loop]) (use release [OF it2(4)] it1(3) it2(5,6) whole in simp_all)
qed

text \<open>A cached record that stands in storage is extracted completely.\<close>

lemma extract_all_ok:
  assumes "healthy b s" and "stands_at X (elems_of s) r ds"
  obtains s' where
    "extract_all S X b ns r s h total_read current = Some (Ok (), s', fold (hydrate X ns) ds h,
       total_read + sum_list (map snd (take (gr_start r + length ds + 2) (view s))),
       current + sum_list (map snd (take (length ds) (drop (gr_start r + 1) (view s)))))"
    "healthy b s'" "view s' = view s"
proof -
  obtain pre post where es: "elems_of s = pre @ map Some (record_elems X (gr_seq r) ds) @ post"
      "gr_start r = length pre"
    using assms(2) by (auto simp: stands_at_def)
  let ?xs = "take (length pre) (view s)" and ?ys = "drop (length pre) (view s)"
  have "map fst ?ys = map Some (record_elems X (gr_seq r) ds) @ post"
    using es(1) by (simp add: drop_map [symmetric])
  then obtain l ys where ys: "?ys = (Some (Start (gr_seq r)), l) # ys"
      "map fst ys = map (\<lambda>d. Some (Data d)) ds @ Some (End (gr_seq r) (record_crc X ds)) # post"
    by (cases ?ys) (auto simp: record_elems_def comp_def)
  have len: "length ?xs = length pre"
    using es(1) by (metis length_append length_map length_take le_add1 min.absorb2)
  obtain it it1 where it: "st_iter S s = IterOk it" "reads S b it ?xs it1" "it_ok b it1"
      "passed it1 = ?xs" "todo it1 = ?ys"
    by (rule reads_prefix [OF assms(1), of ?xs ?ys]) auto
  have skip: "skip_items S b (gr_start r) it total_read = (Ok (), it1, total_read + sum_list (map snd ?xs))"
    using skip_items_reads [OF it(2), of total_read] len es(2) by simp
  obtain item it2 where it2: "st_next S b it1 = NextItem item it2"
      "st_data S item = Some (Start (gr_seq r))" "st_len S item = l" "it_ok b it2"
      "passed it2 = ?xs @ [(Some (Start (gr_seq r)), l)]" "todo it2 = ys"
    using next_item [OF it(3), of "(Some (Start (gr_seq r)), l)" ys] it(4,5) ys by auto
  obtain it3 where it3:
      "extract_loop S X b ns (gr_seq r) it2 h (total_read + sum_list (map snd ?xs) + l) current =
        Some (Ok (), it3, fold (hydrate X ns) ds h,
          total_read + sum_list (map snd ?xs) + l + sum_list (map snd (take (length ds + 1) ys)),
          current + sum_list (map snd (take (length ds) ys)))"
      "healthy b (st_release S it3)" "view (st_release S it3) = passed it2 @ todo it2"
    using reads_data [OF it2(4), of ds "gr_seq r" "record_crc X ds" post] ys(2) it2(6) by metis
  have view: "view s = ?xs @ (Some (Start (gr_seq r)), l) # ys"
    using ys(1) by (metis append_take_drop_id)
  have drop: "drop (gr_start r + 1) (view s) = ys"
    using ys(1) es(2) by (metis drop_drop drop_Suc_Cons drop_0 Suc_eq_plus1 add.commute)
  have take: "take (gr_start r + length ds + 2) (view s) =
      ?xs @ (Some (Start (gr_seq r)), l) # take (length ds + 1) ys"
    using len es(2) by (subst view) simp
  show thesis
  proof (rule that)
    show "extract_all S X b ns r s h total_read current =
      Some (Ok (), st_release S it3, fold (hydrate X ns) ds h,
       total_read + sum_list (map snd (take (gr_start r + length ds + 2) (view s))),
       current + sum_list (map snd (take (length ds) (drop (gr_start r + 1) (view s)))))"
      using it(1) skip it2 it3(1) drop take
      by (simp add: extract_all_def Let_def add.assoc)
    show "healthy b (st_release S it3)" "view (st_release S it3) = view s"
      using it3 it2 view by simp_all
  qed
qed

text \<open>
  Reading, once the cache describes the storage: the cache is kept, every \<open>Initial\<close> node of the
  list is hydrated from the newest record, and the readers are woken.
\<close>

lemma process_reads_from_cache:
  assumes populate: "get_or_populate_latest S X (length buf) (li_seq li) 0 s =
      Some (Ok (highest_seen q), q, n, s1)"
    and s1: "healthy (length buf) s1" "view s1 = view s"
    and desc: "cache_describes X (elems_of s) q"
    and keys: "distinct_keys h (li_list li)"
  obtains out where "process_reads S X buf h li s = Some out"
    "is_ok (o_res out)"
    "\<And>i. o_heap out i = (if i \<in> set (li_list li) then read_node X (latest_data (elems_of s) q) (h i) else h i)"
    "o_inner out = li\<lparr>li_seq := q\<rparr>"
    "healthy (length buf) (o_storage out)" "view (o_storage out) = view s"
    "o_wakes out = [WakeReadingDone]"
proof (cases "highest_seen q")
  case None
  have heap: "mark_initial_nonresident (li_list li) h i =
      (if i \<in> set (li_list li) then read_node X (latest_data (elems_of s) q) (h i) else h i)" for i
    using mark_hydrated [OF keys, of X "[]" i] None by (simp add: latest_data_def)
  let ?out = "\<lparr>o_res = Ok \<lparr>pr_total_bytes_read = n, pr_current_bytes_read = 0\<rparr>,
    o_heap = mark_initial_nonresident (li_list li) h, o_inner = li\<lparr>li_seq := q\<rparr>,
    o_storage = s1, o_wakes = [WakeReadingDone]\<rparr>"
  have run: "process_reads S X buf h li s = Some ?out"
    using populate None by (simp add: process_reads_def Let_def)
  show thesis
    by (rule that [OF run]) (use s1 heap in simp_all)
next
  case (Some r)
  then obtain ds where ds: "stands_at X (elems_of s1) r ds"
    using desc s1(2) by (auto simp: cache_describes_def)
  obtain s2 where s2: "extract_all S X (length buf) (li_list li) r s1 h n 0 =
      Some (Ok (), s2, fold (hydrate X (li_list li)) ds h,
        n + sum_list (map snd (take (gr_start r + length ds + 2) (view s1))),
        0 + sum_list (map snd (take (length ds) (drop (gr_start r + 1) (view s1)))))"
      "healthy (length buf) s2" "view s2 = view s1"
    using extract_all_ok [OF s1(1) ds] by metis
  have "latest_data (elems_of s) q = ds"
    using Some stands_at_data [OF ds] s1(2) by (simp add: latest_data_def)
  then have heap: "mark_initial_nonresident (li_list li) (fold (hydrate X (li_list li)) ds h) i =
      (if i \<in> set (li_list li) then read_node X (latest_data (elems_of s) q) (h i) else h i)" for i
    using mark_hydrated [OF keys, of X ds i] by simp
  let ?out = "\<lparr>o_res = Ok
      \<lparr>pr_total_bytes_read = n + sum_list (map snd (take (gr_start r + length ds + 2) (view s1))),
       pr_current_bytes_read = 0 + sum_list (map snd (take (length ds) (drop (gr_start r + 1) (view s1))))\<rparr>,
    o_heap = mark_initial_nonresident (li_list li) (fold (hydrate X (li_list li)) ds h),
    o_inner = li\<lparr>li_seq := q\<rparr>, o_storage = s2, o_wakes = [WakeReadingDone]\<rparr>"
  have run: "process_reads S X buf h li s = Some ?out"
    using populate Some s2(1) by (simp add: process_reads_def Let_def)
  show thesis
    by (rule that [OF run]) (use s1 s2 heap in simp_all)
qed

text \<open>The first read of a list: the whole storage is scanned.\<close>

lemma process_reads_fresh:
  assumes "healthy (length buf) s" and "0 < kept" and "li_seq li = seq_new kept"
    and "distinct_keys h (li_list li)"
  obtains out where "process_reads S X buf h li s = Some out"
    "is_ok (o_res out)"
    "\<And>i. o_heap out i =
       (if i \<in> set (li_list li)
        then read_node X (latest_data (elems_of s) (scanned X kept (elems_of s))) (h i) else h i)"
    "o_inner out = li\<lparr>li_seq := scanned X kept (elems_of s)\<rparr>"
    "healthy (length buf) (o_storage out)" "view (o_storage out) = view s"
    "o_wakes out = [WakeReadingDone]"
proof -
  obtain s1 where s1: "get_or_populate_latest S X (length buf) (seq_new kept) 0 s =
       Some (Ok (highest_seen (scanned X kept (elems_of s))), scanned X kept (elems_of s),
             0 + sum_list (map snd (view s)), s1)"
      "healthy (length buf) s1" "view s1 = view s"
    by (rule populate_scans [OF assms(1,2)])
  show thesis
    by (rule process_reads_from_cache [OF s1(1) [folded assms(3)] s1(2,3)
          scanned_describes [OF assms(2) view_typed [OF assms(1)]] assms(4)]) (rule that)
qed

text \<open>A later read: the cache is trusted.\<close>

lemma process_reads_cached:
  assumes "healthy (length buf) s" and "initial_scan_completed (li_seq li)"
    and "cache_describes X (elems_of s) (li_seq li)" and "distinct_keys h (li_list li)"
  obtains out where "process_reads S X buf h li s = Some out"
    "is_ok (o_res out)"
    "\<And>i. o_heap out i =
       (if i \<in> set (li_list li) then read_node X (latest_data (elems_of s) (li_seq li)) (h i) else h i)"
    "o_inner out = li"
    "healthy (length buf) (o_storage out)" "view (o_storage out) = view s"
    "o_wakes out = [WakeReadingDone]"
proof -
  have "get_or_populate_latest S X (length buf) (li_seq li) 0 s =
      Some (Ok (highest_seen (li_seq li)), li_seq li, 0, s)"
    using assms(2) by (simp add: get_or_populate_latest_def)
  then show thesis
    by (rule process_reads_from_cache [OF _ assms(1) refl assms(3,4)]) (auto intro: that)
qed

end

end
