(* ===== verification/List_Write.thy ===== *)
theory List_Write
  imports List_Read
begin

text \<open>
  \<open>StorageListInner::write_to_flash\<close>, \<open>verify_list_in_flash\<close> and
  \<open>StorageList::process_writes\<close>: writing all nodes that have data as one write record, reading
  it back, and caching its position.

  The lemmas of this theory cover every outcome. \<open>write_to_flash_torn\<close> says what a write leaves
  in storage wherever it stops, \<open>process_writes_ok\<close> what a completed one does to storage, cache
  and nodes, and \<open>process_writes_stale\<close> what happens when an unfinished record with the same
  sequence number is still in storage.
\<close>

section \<open>\<open>write_to_flash\<close>\<close>

record write_report =
  wr_seq :: u32
  wr_crc :: u32
  wr_ct :: nat
  wr_bytes_written :: nat

text \<open>
  The loop over the nodes: the running CRC, the number of elements and the bytes written so far.
  \<open>None\<close> is a panic of \<open>push\<close> or of the slice \<open>buf[..used + 1]\<close>, or undefined behaviour in
  \<open>serialize_node\<close>.
\<close>

fun write_nodes ::
  "('s, 'it, 'item, 'e) storage_ops \<Rightarrow> externs \<Rightarrow> 'v heap \<Rightarrow> nid list \<Rightarrow> u8 list \<Rightarrow> crc32 \<Rightarrow> nat \<Rightarrow> nat \<Rightarrow> 's \<Rightarrow>
     ((crc32 \<times> nat \<times> nat, 'e load_store_error) result \<times> 's \<times> u8 list) option" where
  "write_nodes S X h [] buf crc ct bytes s = Some (Ok (crc, ct, bytes), s, buf)"
| "write_nodes S X h (i # ns) buf crc ct bytes s =
     (if n_state (h i) = Initial \<or> n_state (h i) = NonResident
      then write_nodes S X h ns buf crc ct bytes s
      else
        (case buf of
           [] \<Rightarrow> Some (Err (AppError Serialization), s, buf)
         | first # rest \<Rightarrow>
             (case serialize_node X (h i) rest of
                None \<Rightarrow> None
              | Some (Err e) \<Rightarrow> Some (Err (AppError e), s, buf)
              | Some (Ok (used, rest')) \<Rightarrow>
                  (let buf1 = first # rest' in
                   if length buf1 < used + 1 then None
                   else
                     (case ser_data_new (take (used + 1) buf1) of
                        None \<Rightarrow> Some (Err (AppError Serialization), s, buf1)
                      | Some serdat \<Rightarrow>
                          (case st_push S s (Data serdat) of
                             PushPanic \<Rightarrow> None
                           | PushErr e s' \<Rightarrow>
                               Some (Err (FlashWrite e), s', hdr_key_val serdat @ drop (used + 1) buf1)
                           | PushOk n s' \<Rightarrow>
                               write_nodes S X h ns (hdr_key_val serdat @ drop (used + 1) buf1)
                                 (crc_update crc (key_val serdat)) (ct + 1) (bytes + n) s'))))))"

definition write_to_flash ::
  "('s, 'it, 'item, 'e) storage_ops \<Rightarrow> externs \<Rightarrow> 'v heap \<Rightarrow> nid list \<Rightarrow> u8 list \<Rightarrow> 's \<Rightarrow> u32 \<Rightarrow>
     ((write_report, 'e load_store_error) result \<times> 's \<times> u8 list) option" where
  "write_to_flash S X h ns buf s seq_no =
     (case st_push S s (Start seq_no) of
        PushPanic \<Rightarrow> None
      | PushErr e s1 \<Rightarrow> Some (Err (FlashWrite e), s1, buf)
      | PushOk used s1 \<Rightarrow>
          (case write_nodes S X h ns buf crc_new 0 used s1 of
             None \<Rightarrow> None
           | Some (Err e, s2, buf2) \<Rightarrow> Some (Err e, s2, buf2)
           | Some (Ok (check_crc, ct, bytes), s2, buf2) \<Rightarrow>
               (let crc = crc_finalize X check_crc in
                case st_push S s2 (End seq_no crc) of
                  PushPanic \<Rightarrow> None
                | PushErr e s3 \<Rightarrow> Some (Err (FlashWrite e), s3, buf2)
                | PushOk used3 s3 \<Rightarrow>
                    Some (Ok \<lparr>wr_seq = seq_no, wr_crc = crc, wr_ct = ct, wr_bytes_written = bytes + used3\<rparr>,
                          s3, buf2))))"

section \<open>\<open>verify_list_in_flash\<close>\<close>

text \<open>Fast forward to the first start element with the sequence number.\<close>

partial_function (option) verify_seek ::
  "('s, 'it, 'item, 'e) storage_ops \<Rightarrow> nat \<Rightarrow> u32 \<Rightarrow> 'it \<Rightarrow> nat \<Rightarrow> nat \<Rightarrow>
     ((unit, 'e load_store_error) result \<times> 'it \<times> nat \<times> nat) option" where
  "verify_seek S b seq it seen total_read =
     (case st_next S b it of
        NextEnd it' \<Rightarrow> Some (Err (AppError InconsistentFlash), it', seen, total_read)
      | NextErr e it' \<Rightarrow> Some (Err (FlashRead e), it', seen, total_read)
      | NextItem item it' \<Rightarrow>
          (if st_data S item = Some (Start seq)
           then Some (Ok (), it', Suc seen, total_read + st_len S item)
           else verify_seek S b seq it' (Suc seen) (total_read + st_len S item)))"

text \<open>Read the record back; the result is the number of items seen when its end element was.\<close>

partial_function (option) verify_loop ::
  "('s, 'it, 'item, 'e) storage_ops \<Rightarrow> externs \<Rightarrow> nat \<Rightarrow> write_report \<Rightarrow> 'it \<Rightarrow> crc32 \<Rightarrow> nat \<Rightarrow> nat \<Rightarrow> nat \<Rightarrow>
     ((nat, 'e load_store_error) result \<times> 'it \<times> nat) option" where
  "verify_loop S X b rpt it crc ct seen total_read =
     (case st_next S b it of
        NextEnd it' \<Rightarrow> Some (Err WriteVerificationFailed, it', total_read)
      | NextErr e it' \<Rightarrow> Some (Err (FlashRead e), it', total_read)
      | NextItem item it' \<Rightarrow>
          (case st_data S item of
             None \<Rightarrow> Some (Err WriteVerificationFailed, it', total_read + st_len S item)
           | Some el \<Rightarrow>
               (case el of
                  Start _ \<Rightarrow> Some (Err WriteVerificationFailed, it', total_read + st_len S item)
                | Data d \<Rightarrow>
                    verify_loop S X b rpt it' (crc_update crc (key_val d)) (Suc ct) (Suc seen)
                      (total_read + st_len S item)
                | End seq_no calc_crc \<Rightarrow>
                    Some (if seq_no = wr_seq rpt \<and> crc_finalize X crc = wr_crc rpt \<and>
                             calc_crc = wr_crc rpt \<and> ct = wr_ct rpt
                          then Ok (Suc seen) else Err WriteVerificationFailed,
                      it', total_read + st_len S item))))"

text \<open>
  The range is \<open>start_pos ..= total_items_seen_ctr\<close>: the end is the number of items seen up to
  and including the end element, one more than that element's index.
\<close>

definition verify_list_in_flash ::
  "('s, 'it, 'item, 'e) storage_ops \<Rightarrow> externs \<Rightarrow> nat \<Rightarrow> write_report \<Rightarrow> 's \<Rightarrow>
     ((nat \<times> nat, 'e load_store_error) result \<times> 's \<times> nat) option" where
  "verify_list_in_flash S X b rpt s =
     (case st_iter S s of
        IterErr e s' \<Rightarrow> Some (Err (FlashRead e), s', 0)
      | IterOk it \<Rightarrow>
          (case verify_seek S b (wr_seq rpt) it 0 0 of
             None \<Rightarrow> None
           | Some (Err e, it1, seen, total_read) \<Rightarrow> Some (Err e, st_release S it1, total_read)
           | Some (Ok _, it1, seen, total_read) \<Rightarrow>
               (case verify_loop S X b rpt it1 crc_new 0 seen total_read of
                  None \<Rightarrow> None
                | Some (Err e, it2, total_read2) \<Rightarrow> Some (Err e, st_release S it2, total_read2)
                | Some (Ok seen2, it2, total_read2) \<Rightarrow>
                    Some (Ok (seen - 1, seen2), st_release S it2, total_read2))))"

section \<open>\<open>process_writes\<close>\<close>

record write_counters =
  pw_total_bytes_read :: nat
  pw_current_bytes_written :: nat

definition process_writes ::
  "('s, 'it, 'item, 'e) storage_ops \<Rightarrow> externs \<Rightarrow> u8 list \<Rightarrow> 'v heap \<Rightarrow> list_inner \<Rightarrow> 's \<Rightarrow>
     ('v, 's, write_counters, 'e) outcome option" where
  "process_writes S X buf h li s =
     (let fail = (\<lambda>e s'. Some \<lparr>o_res = Err e, o_heap = h, o_inner = li, o_storage = s', o_wakes = []\<rparr>) in
      case next_seq (li_seq li) of
        None \<Rightarrow> fail (AppError NeedsFirstRead) s
      | Some seq_no \<Rightarrow>
          if needs_gc (li_seq li) then fail (AppError NeedsGarbageCollect) s
          else
            (case needs_writing h li of
               Err e \<Rightarrow> fail (AppError e) s
             | Ok needs \<Rightarrow>
                 if \<not> needs then
                   Some \<lparr>o_res = Ok \<lparr>pw_total_bytes_read = 0, pw_current_bytes_written = 0\<rparr>,
                         o_heap = h, o_inner = li, o_storage = s, o_wakes = []\<rparr>
                 else
                   (case write_to_flash S X h (li_list li) buf s seq_no of
                      None \<Rightarrow> None
                    | Some (Err e, s1, buf1) \<Rightarrow> fail e s1
                    | Some (Ok rpt, s1, buf1) \<Rightarrow>
                        (case verify_list_in_flash S X (length buf1) rpt s1 of
                           None \<Rightarrow> None
                         | Some (Err e, s2, total_read) \<Rightarrow> fail e s2
                         | Some (Ok (start_pos, end_pos), s2, total_read) \<Rightarrow>
                             (case insert_good \<lparr>gr_seq = seq_no, gr_start = start_pos, gr_end = end_pos\<rparr>
                                     (li_seq li) of
                                None \<Rightarrow> None
                              | Some q \<Rightarrow>
                                  Some \<lparr>o_res = Ok \<lparr>pw_total_bytes_read = total_read,
                                                   pw_current_bytes_written = wr_bytes_written rpt\<rparr>,
                                        o_heap = mark_written (li_list li) h,
                                        o_inner = li\<lparr>li_seq := q\<rparr>, o_storage = s2, o_wakes = []\<rparr>)))))"

section \<open>What is written\<close>

text \<open>
  Every static node has one type, so one codec: \<open>C\<close> assigns it. A node in a state with data has
  data.
\<close>

definition heap_ok :: "(nid \<Rightarrow> 'v codec) \<Rightarrow> 'v heap \<Rightarrow> nid set \<Rightarrow> bool" where
  "heap_ok C h I \<longleftrightarrow>
     (\<forall>i \<in> I. n_vtable (h i) = vtable_for_ty (C i) \<and> (has_data (n_state (h i)) \<longrightarrow> n_t (h i) \<noteq> None))"

definition node_data :: "externs \<Rightarrow> (nid \<Rightarrow> 'v codec) \<Rightarrow> 'v heap \<Rightarrow> nid \<Rightarrow> ser_data" where
  "node_data X C h i =
     SerData (V0_DATA # node_bytes X (C i) (n_key (h i)) (the (n_t (h i))))"

definition written :: "'v heap \<Rightarrow> nid list \<Rightarrow> nid list" where
  "written h ns = filter (\<lambda>i. has_data (n_state (h i))) ns"

definition list_data :: "externs \<Rightarrow> (nid \<Rightarrow> 'v codec) \<Rightarrow> 'v heap \<Rightarrow> nid list \<Rightarrow> ser_data list" where
  "list_data X C h ns = map (node_data X C h) (written h ns)"

definition fits :: "externs \<Rightarrow> (nid \<Rightarrow> 'v codec) \<Rightarrow> 'v heap \<Rightarrow> nid list \<Rightarrow> nat \<Rightarrow> bool" where
  "fits X C h ns b \<longleftrightarrow>
     (\<forall>d \<in> set (list_data X C h ns). length (hdr_key_val d) \<le> b)"

lemma written_simps [simp]:
  "written h [] = []"
  "written h (i # ns) = (if has_data (n_state (h i)) then i # written h ns else written h ns)"
  by (simp_all add: written_def)

lemma list_data_simps [simp]:
  "list_data X C h [] = []"
  "list_data X C h (i # ns) =
     (if has_data (n_state (h i)) then node_data X C h i # list_data X C h ns else list_data X C h ns)"
  by (simp_all add: list_data_def)

lemma key_val_node_data [simp]:
  "key_val (node_data X C h i) = node_bytes X (C i) (n_key (h i)) (the (n_t (h i)))"
  by (simp add: node_data_def)

lemma storable_node_data: "externs_ok X \<Longrightarrow> storable (Data (node_data X C h i))"
  by (simp add: node_data_def node_bytes_def externs_okD)

lemma not_has_data: "\<not> has_data st \<longleftrightarrow> st = Initial \<or> st = NonResident"
  by (cases st) simp_all

text \<open>One step of the loop on a node with data.\<close>

lemma write_nodes_step:
  assumes "heap_ok C h {i}" and "has_data (n_state (h i))"
  shows "write_nodes S X h (i # ns) buf crc ct bytes s =
    (let d = node_data X C h i; n = length (hdr_key_val d); buf' = hdr_key_val d @ drop n buf in
     if length buf < n then Some (Err (AppError Serialization), s, buf)
     else (case st_push S s (Data d) of
             PushPanic \<Rightarrow> None
           | PushErr e s' \<Rightarrow> Some (Err (FlashWrite e), s', buf')
           | PushOk m s' \<Rightarrow> write_nodes S X h ns buf' (crc_update crc (key_val d)) (ct + 1) (bytes + m) s'))"
proof -
  obtain v where v: "n_vtable (h i) = vtable_for_ty (C i)" "n_t (h i) = Some v"
    using assms by (auto simp: heap_ok_def)
  have st: "\<not> (n_state (h i) = Initial \<or> n_state (h i) = NonResident)"
    using assms(2) by (simp add: not_has_data [symmetric])
  show ?thesis
  proof (cases buf)
    case Nil
    with st show ?thesis by (simp add: node_data_def Let_def)
  next
    case (Cons first rest)
    with st v show ?thesis
      by (simp add: serialize_node_eq [OF v] node_data_def Let_def
          ELEM_VERSION_V0_def ELEM_DISCRIMINANT_DATA_def split: push_result.split)
  qed
qed

lemma write_nodes_skip:
  "\<not> has_data (n_state (h i)) \<Longrightarrow>
     write_nodes S X h (i # ns) buf crc ct bytes s = write_nodes S X h ns buf crc ct bytes s"
  by (simp add: not_has_data)

declare write_nodes.simps(2) [simp del]

section \<open>What a write leaves in storage\<close>

abbreviation data_elems :: "ser_data list \<Rightarrow> elem option list" where
  "data_elems ds \<equiv> map (\<lambda>d. Some (Data d)) ds"

text \<open>
  What an unfinished write may have appended: nothing, an unreadable element, or the start
  element and some of the data, with an unreadable element at the end if the last push was cut
  short; and, when only the result of the last push was lost, the complete record.
\<close>

definition torn :: "externs \<Rightarrow> u32 \<Rightarrow> ser_data list \<Rightarrow> elem option list \<Rightarrow> bool" where
  "torn X seq ds t \<longleftrightarrow>
     t = [] \<or> t = [None] \<or>
     (\<exists>k. t = Some (Start seq) # data_elems (take k ds)) \<or>
     (\<exists>k. t = Some (Start seq) # data_elems (take k ds) @ [None]) \<or>
     t = map Some (record_elems X seq ds)"

lemma records_in_junk: "records_in X (es @ [None]) = records_in X es"
  using records_in_append_separator [of None X es "[]"] by (simp add: records_in_def)

text \<open>A torn write adds no record, unless it is complete.\<close>

lemma records_in_torn:
  assumes "torn X seq ds t"
  shows "records_in X (es @ t) = records_in X es \<or> t = map Some (record_elems X seq ds)"
proof -
  from assms consider "t = []" | "t = [None]"
    | k where "t = Some (Start seq) # data_elems (take k ds)"
    | k where "t = Some (Start seq) # data_elems (take k ds) @ [None]"
    | "t = map Some (record_elems X seq ds)"
    unfolding torn_def by blast
  then show ?thesis
  proof cases
    case 1
    then show ?thesis by simp
  next
    case 2
    then show ?thesis by (simp add: records_in_junk)
  next
    case (3 k)
    then show ?thesis using records_in_interrupted [of X es seq "take k ds"] by simp
  next
    case (4 k)
    then show ?thesis
      using records_in_junk [of X "es @ Some (Start seq) # data_elems (take k ds)"]
        records_in_interrupted [of X es seq "take k ds"]
      by simp
  next
    case 5
    then show ?thesis by simp
  qed
qed

lemma length_hdr_node_data [simp]: "length (hdr_key_val (node_data X C h i)) =
    Suc (length (node_bytes X (C i) (n_key (h i)) (the (n_t (h i)))))"
  by (simp add: node_data_def)

text \<open>
  Part of the data elements: the first few, and an unreadable element if the last push was cut
  short.
\<close>

definition data_part :: "ser_data list \<Rightarrow> elem option list \<Rightarrow> bool" where
  "data_part ds t \<longleftrightarrow> (\<exists>k. t = data_elems (take k ds) \<or> t = data_elems (take k ds) @ [None])"

lemma data_part_Nil [simp]: "data_part ds []" and data_part_None [simp]: "data_part ds [None]"
  by (auto simp: data_part_def intro: exI [of _ 0])

lemma data_part_Cons [simp]: "data_part ds t \<Longrightarrow> data_part (d # ds) (Some (Data d) # t)"
  unfolding data_part_def by (elim exE) (rule exI [of _ "Suc k" for k], auto)

lemma data_part_all [simp]: "data_part ds (data_elems ds)" "data_part ds (data_elems ds @ [None])"
  by (auto simp: data_part_def intro: exI [of _ "length ds"])

lemma data_part_take: "data_part (take j ds) t \<Longrightarrow> data_part ds t"
  unfolding data_part_def by (metis take_take)

lemma torn_start [simp]: "data_part ds t \<Longrightarrow> torn X seq ds (Some (Start seq) # t)"
  unfolding data_part_def torn_def by blast

lemma torn_simps [simp]:
  "torn X seq ds []" "torn X seq ds [None]" "torn X seq ds (map Some (record_elems X seq ds))"
  by (simp_all add: torn_def)

lemma record_elems_options:
  "map Some (record_elems X seq ds) =
     Some (Start seq) # data_elems ds @ [Some (End seq (record_crc X ds))]"
  by (simp add: record_elems_def comp_def)

text \<open>The write after its start element and its nodes: only the end element is left.\<close>

lemma write_to_flash_end:
  assumes "st_push S s (Start seq) = PushOk n s1"
    and "write_nodes S X h ns buf crc_new 0 n s1 = Some (Ok (crc, ct, bytes), s2, buf2)"
  shows "write_to_flash S X h ns buf s seq =
    (case st_push S s2 (End seq (crc_finalize X crc)) of
       PushPanic \<Rightarrow> None
     | PushErr e s3 \<Rightarrow> Some (Err (FlashWrite e), s3, buf2)
     | PushOk m s3 \<Rightarrow>
         Some (Ok \<lparr>wr_seq = seq, wr_crc = crc_finalize X crc, wr_ct = ct, wr_bytes_written = bytes + m\<rparr>,
               s3, buf2))"
  using assms by (simp add: write_to_flash_def Let_def)

context ndl_storage begin

lemma push_ok_elems:
  assumes "st_push S s e = PushOk n s'" and "healthy b s" and "writable b e"
  shows "healthy b s'" and "elems_of s' = elems_of s @ [Some e]"
  using push_ok [OF assms(2,3,1)] by simp_all

lemma push_err_elems:
  assumes "st_push S s e = PushErr er s'" and "healthy b s" and "writable b e"
  shows "healthy b s'"
    and "elems_of s' = elems_of s \<or> elems_of s' = elems_of s @ [None] \<or> elems_of s' = elems_of s @ [Some e]"
  using push_err [OF assms(2,3,1)] by auto

text \<open>Every outcome of the node loop.\<close>

lemma write_nodes_outcome:
  assumes "externs_ok X" and "heap_ok C h (set ns)" and "healthy b s"
    and "write_nodes S X h ns buf crc ct bytes s = Some (res, s', buf')"
    and "length buf \<le> b"
  shows "healthy b s' \<and> length buf' = length buf \<and>
    (case res of
       Ok (crc', ct', _) \<Rightarrow>
         elems_of s' = elems_of s @ data_elems (list_data X C h ns) \<and>
         crc' = crc_update crc (concat (map key_val (list_data X C h ns))) \<and>
         ct' = ct + length (list_data X C h ns)
     | Err _ \<Rightarrow> \<exists>t. elems_of s' = elems_of s @ t \<and> data_part (list_data X C h ns) t)"
  using assms(2-)
proof (induction ns arbitrary: buf crc ct bytes s)
  case Nil
  then show ?case by (auto simp: crc_update_def)
next
  case (Cons i ns)
  have hi: "heap_ok C h {i}" and hns: "heap_ok C h (set ns)"
    using Cons.prems(1) by (auto simp: heap_ok_def)
  let ?d = "node_data X C h i" and ?ds = "list_data X C h ns"
  let ?buf = "hdr_key_val ?d @ drop (length (hdr_key_val ?d)) buf"
  consider "\<not> has_data (n_state (h i))"
    | "has_data (n_state (h i))" "length buf < length (hdr_key_val ?d)"
    | "has_data (n_state (h i))" "length (hdr_key_val ?d) \<le> length buf"
    by linarith
  then show ?case
  proof cases
    case 1
    then have eq: "list_data X C h (i # ns) = list_data X C h ns" by simp
    show ?thesis
      unfolding eq
      by (rule Cons.IH [OF hns Cons.prems(2) Cons.prems(3) [unfolded write_nodes_skip [of h i, OF 1]]
            Cons.prems(4)])
  next
    case 2
    with Cons.prems(2,3) show ?thesis
      by (auto simp: write_nodes_step [OF hi] intro: exI [of _ "[]"])
  next
    case 3
    note step = Cons.prems(3) [unfolded write_nodes_step [OF hi 3(1)] Let_def]
    have st: "writable b (Data ?d)"
      using 3 Cons.prems(4) storable_node_data [OF assms(1)] by simp
    show ?thesis
    proof (cases "st_push S s (Data ?d)")
      case PushPanic
      with step 3 show ?thesis by simp
    next
      case (PushErr e s1)
      from push_err_elems [OF PushErr Cons.prems(2) st] step PushErr 3 show ?thesis
        by (auto intro: exI [of _ "[]"])
    next
      case (PushOk n s1)
      note s1 = push_ok_elems [OF PushOk Cons.prems(2) st]
      have rest: "write_nodes S X h ns ?buf (crc_update crc (key_val ?d)) (ct + 1) (bytes + n) s1
          = Some (res, s', buf')"
        using step 3 PushOk by simp
      have len: "length ?buf = length buf" using 3(2) by simp
      with Cons.prems(4) have "length ?buf \<le> b" by simp
      from Cons.IH [OF hns s1(1) rest this] len 3(1) s1(2) show ?thesis
        by (cases res) (auto simp: crc_update_append dest: data_part_Cons [of _ _ ?d])
    qed
  qed
qed

text \<open>Every outcome of a write: the record is appended, or a torn part of it.\<close>

lemma write_to_flash_outcome:
  assumes "externs_ok X" and "heap_ok C h (set ns)" and "healthy b s" and "seq \<noteq> 0"
    and "write_to_flash S X h ns buf s seq = Some (res, s', buf')"
    and "length buf \<le> b" and "9 \<le> b"
  shows "healthy b s' \<and> length buf' = length buf \<and>
    (case res of
       Ok rpt \<Rightarrow>
         elems_of s' = elems_of s @ map Some (record_elems X seq (list_data X C h ns)) \<and>
         wr_seq rpt = seq \<and> wr_crc rpt = record_crc X (list_data X C h ns) \<and>
         wr_ct rpt = length (list_data X C h ns)
     | Err _ \<Rightarrow> \<exists>t. elems_of s' = elems_of s @ t \<and> torn X seq (list_data X C h ns) t)"
proof (cases "st_push S s (Start seq)")
  case PushPanic
  with assms(5) show ?thesis by (simp add: write_to_flash_def)
next
  case (PushErr e s1)
  have "torn X seq (list_data X C h ns) [Some (Start seq)]" by simp
  with push_err_elems [OF PushErr assms(3)] assms(4,5,7) PushErr show ?thesis
    by (auto simp: write_to_flash_def simp del: torn_start)
next
  case (PushOk n s1)
  let ?ds = "list_data X C h ns"
  have s1: "healthy b s1" "elems_of s1 = elems_of s @ [Some (Start seq)]"
    using push_ok_elems [OF PushOk assms(3)] assms(4,7) by simp_all
  obtain res2 s2 buf2 where wn: "write_nodes S X h ns buf crc_new 0 n s1 = Some (res2, s2, buf2)"
    using assms(5) PushOk by (auto simp: write_to_flash_def split: option.splits)
  note out = write_nodes_outcome [OF assms(1,2) s1(1) wn assms(6)]
  show ?thesis
  proof (cases res2)
    case (Err e)
    with assms(5) PushOk wn have "res = Err e" "s' = s2" "buf' = buf2"
      by (auto simp: write_to_flash_def)
    with out Err s1(2) show ?thesis by auto
  next
    case (Ok p)
    obtain crc ct bytes where p: "p = (crc, ct, bytes)" by (cases p)
    have s2: "healthy b s2" "elems_of s2 = elems_of s @ Some (Start seq) # data_elems ?ds"
        "length buf2 = length buf" "crc_finalize X crc = record_crc X ?ds" "ct = length ?ds"
      using out Ok p s1(2) by (auto simp: crc_finalize_def record_crc_def)
    let ?fin = "End seq (record_crc X ?ds)"
    have st: "writable b ?fin" using assms(4,7) by simp
    note eq = assms(5) [unfolded write_to_flash_end [OF PushOk wn [unfolded Ok p]] s2(4)]
    show ?thesis
    proof (cases "st_push S s2 ?fin")
      case PushPanic
      with eq show ?thesis by simp
    next
      case (PushErr e s3)
      with push_err_elems [OF PushErr s2(1) st] eq s2(2,3) show ?thesis
        by (auto simp: record_elems_options [symmetric])
    next
      case (PushOk m s3)
      with push_ok_elems [OF PushOk s2(1) st] eq s2 show ?thesis
        by (auto simp: record_elems_options)
    qed
  qed
qed

text \<open>With room in storage and in the buffer, a write completes.\<close>

lemma write_nodes_room:
  assumes "externs_ok X" and "heap_ok C h (set ns)" and "healthy b s"
    and "fits X C h ns (length buf)" and "length (list_data X C h ns) \<le> room s" and "length buf \<le> b"
  shows "\<exists>c' t' n' s' buf'. write_nodes S X h ns buf crc ct bytes s = Some (Ok (c', t', n'), s', buf') \<and>
    room s - length (list_data X C h ns) \<le> room s'"
  using assms(2-)
proof (induction ns arbitrary: buf crc ct bytes s)
  case Nil
  then show ?case by simp
next
  case (Cons i ns)
  have hi: "heap_ok C h {i}" and hns: "heap_ok C h (set ns)"
    using Cons.prems(1) by (auto simp: heap_ok_def)
  show ?case
  proof (cases "has_data (n_state (h i))")
    case False
    then have eq: "list_data X C h (i # ns) = list_data X C h ns" by simp
    have "fits X C h ns (length buf)" using Cons.prems(3) eq by (simp add: fits_def)
    then show ?thesis
      using Cons.IH [OF hns Cons.prems(2)] Cons.prems(4,5) eq
      by (simp add: write_nodes_skip [of h i, OF False])
  next
    case True
    let ?d = "node_data X C h i"
    let ?buf = "hdr_key_val ?d @ drop (length (hdr_key_val ?d)) buf"
    have fd: "length (hdr_key_val ?d) \<le> length buf" and fns: "fits X C h ns (length ?buf)"
      using Cons.prems(3) True by (auto simp: fits_def)
    have st: "writable b (Data ?d)"
      using fd Cons.prems(5) storable_node_data [OF assms(1)] by simp
    obtain n s1 where s1: "st_push S s (Data ?d) = PushOk n s1" "room s - 1 \<le> room s1"
      using push_room [OF Cons.prems(2) st] Cons.prems(4) True
      by auto
    have h1: "healthy b s1"
      using push_ok [OF Cons.prems(2) st s1(1)] by simp
    have "length (list_data X C h ns) \<le> room s1"
      using Cons.prems(4) s1(2) True by simp
    moreover have "length ?buf \<le> b" using fd Cons.prems(5) by simp
    ultimately obtain c' t' n' s' buf' where
        "write_nodes S X h ns ?buf (crc_update crc (key_val ?d)) (ct + 1) (bytes + n) s1 =
           Some (Ok (c', t', n'), s', buf')"
        "room s1 - length (list_data X C h ns) \<le> room s'"
      using Cons.IH [OF hns h1 fns] by blast
    then show ?thesis
      using s1 fd True unfolding write_nodes_step [OF hi True] Let_def by auto
  qed
qed

lemma write_to_flash_room:
  assumes "externs_ok X" and "heap_ok C h (set ns)" and "healthy b s" and "seq \<noteq> 0"
    and "fits X C h ns (length buf)" and "length (list_data X C h ns) + 2 \<le> room s"
    and "length buf \<le> b" and "9 \<le> b"
  obtains rpt s' buf' where "write_to_flash S X h ns buf s seq = Some (Ok rpt, s', buf')"
proof -
  obtain n s1 where s1: "st_push S s (Start seq) = PushOk n s1" "room s - 1 \<le> room s1"
    using push_room [OF assms(3), of "Start seq"] assms(4,6,8) by auto
  have h1: "healthy b s1" using push_ok [OF assms(3) _ s1(1)] assms(4,8) by simp
  have "length (list_data X C h ns) \<le> room s1" using assms(6) s1(2) by simp
  from write_nodes_room [OF assms(1,2) h1 assms(5) this assms(7)]
  obtain crc ct bytes s2 buf2 where
      s2: "write_nodes S X h ns buf crc_new 0 n s1 = Some (Ok (crc, ct, bytes), s2, buf2)"
      "room s1 - length (list_data X C h ns) \<le> room s2"
    by blast
  have h2: "healthy b s2" using write_nodes_outcome [OF assms(1,2) h1 s2(1) assms(7)] by simp
  have "0 < room s2" using assms(6) s1(2) s2(2) by simp
  then obtain m s3 where "st_push S s2 (End seq (crc_finalize X crc)) = PushOk m s3"
    using push_room [OF h2, of "End seq (crc_finalize X crc)"] assms(4,8) by auto
  with s1 s2 that show thesis by (simp add: write_to_flash_def Let_def)
qed

end

section \<open>Verification of a write\<close>

lemma verify_seek_reads:
  "reads S b it xs it' \<Longrightarrow> Some (Start seq) \<notin> set (map fst xs) \<Longrightarrow>
     verify_seek S b seq it seen n = verify_seek S b seq it' (seen + length xs) (n + sum_list (map snd xs))"
proof (induction arbitrary: seen n rule: reads.induct)
  case (reads_Nil it)
  show ?case by simp
next
  case (reads_Cons it item it1 xs it2)
  then show ?case
    by (subst verify_seek.simps) (auto simp: add.assoc)
qed

lemma verify_loop_reads:
  "reads S b it xs it' \<Longrightarrow> map fst xs = data_elems ds \<Longrightarrow>
     verify_loop S X b rpt it crc ct seen n =
     verify_loop S X b rpt it' (crc_update crc (concat (map key_val ds))) (ct + length ds)
       (seen + length ds) (n + sum_list (map snd xs))"
proof (induction arbitrary: ds crc ct seen n rule: reads.induct)
  case (reads_Nil it)
  then show ?case by (simp add: crc_update_def)
next
  case (reads_Cons it item it1 xs it2)
  then obtain d ds' where ds: "ds = d # ds'" "st_data S item = Some (Data d)" "map fst xs = data_elems ds'"
    by (cases ds) auto
  with reads_Cons show ?case
    by (subst verify_loop.simps) (simp add: crc_update_append add.assoc)
qed

context ndl_reader begin

text \<open>The read-back lands on the first start element with the number.\<close>

lemma verify_lands:
  assumes "healthy b s" and "elems_of s = es @ Some (Start seq) # post"
    and "Some (Start seq) \<notin> set es"
  obtains it it1 n where "st_iter S s = IterOk it"
    "verify_seek S b seq it 0 0 = Some (Ok (), it1, length es + 1, n)"
    "it_ok b it1" "map fst (todo it1) = post" "passed it1 @ todo it1 = view s"
proof -
  let ?xs = "take (length es) (view s)" and ?ys = "drop (length es) (view s)"
  have xs: "map fst ?xs = es" and "map fst ?ys = Some (Start seq) # post"
    using assms(2) by (simp_all add: take_map [symmetric] drop_map [symmetric])
  then obtain l ys where ys: "?ys = (Some (Start seq), l) # ys" "map fst ys = post"
    by (cases ?ys) auto
  have len: "length ?xs = length es" using xs by (metis length_map)
  obtain it it1 where it: "st_iter S s = IterOk it" "reads S b it ?xs it1" "it_ok b it1"
      "passed it1 = ?xs" "todo it1 = ?ys"
    by (rule reads_prefix [OF assms(1), of ?xs ?ys]) auto
  obtain item it2 where it2: "st_next S b it1 = NextItem item it2"
      "st_data S item = Some (Start seq)" "st_len S item = l" "it_ok b it2"
      "passed it2 = ?xs @ [(Some (Start seq), l)]" "todo it2 = ys"
    using next_item [OF it(3), of "(Some (Start seq), l)" ys] it(4,5) ys by auto
  have "verify_seek S b seq it 0 0 = verify_seek S b seq it1 (0 + length ?xs) (0 + sum_list (map snd ?xs))"
    using it(2) assms(3) xs by (intro verify_seek_reads) simp_all
  also have "\<dots> = Some (Ok (), it2, length es + 1, sum_list (map snd ?xs) + l)"
    using it2 len by (subst verify_seek.simps) simp
  finally have seek: "verify_seek S b seq it 0 0 = \<dots>" .
  have whole: "?xs @ (Some (Start seq), l) # ys = view s"
    using ys by (metis append_take_drop_id)
  show thesis
    by (rule that [OF it(1) seek it2(4)]) (use it2 ys whole in simp_all)
qed

lemma verify_data_run:
  assumes "it_ok b it" and "map fst (todo it) = data_elems ds @ x # post"
  obtains it1 item it2 n where
    "verify_loop S X b rpt it crc_new 0 seen m =
       verify_loop S X b rpt it1 (crc_update crc_new (concat (map key_val ds))) (length ds) (seen + length ds) n"
    "st_next S b it1 = NextItem item it2" "st_data S item = x"
    "it_ok b it2" "passed it2 @ todo it2 = passed it @ todo it"
proof -
  let ?xs = "take (length ds) (todo it)" and ?ys = "drop (length ds) (todo it)"
  have xs: "map fst ?xs = data_elems ds" and "map fst ?ys = x # post"
    using assms(2) by (simp_all add: take_map [symmetric] drop_map [symmetric])
  then obtain l ys where ys: "?ys = (x, l) # ys"
    by (cases ?ys) auto
  obtain it1 where it1: "reads S b it ?xs it1" "it_ok b it1" "passed it1 = passed it @ ?xs" "todo it1 = ?ys"
    using reads_todo [OF assms(1), of ?xs ?ys] by auto
  obtain item it2 where it2: "st_next S b it1 = NextItem item it2" "st_data S item = x"
      "it_ok b it2" "passed it2 = passed it1 @ [(x, l)]" "todo it2 = ys"
    using next_item [OF it1(2), of "(x, l)" ys] it1(4) ys by auto
  have whole: "?xs @ (x, l) # ys = todo it"
    using ys by (metis append_take_drop_id)
  show thesis
    by (rule that [OF verify_loop_reads [OF it1(1) xs, of X rpt crc_new 0 seen m, simplified add_0] it2(1,2,3)])
      (use it1 it2 whole in simp)
qed

text \<open>
  A complete record with the right report verifies, and the range reported runs from its start
  element to one past its end element.
\<close>

lemma verify_complete:
  assumes "healthy b s" and "elems_of s = es @ map Some (record_elems X seq ds)"
    and "Some (Start seq) \<notin> set es"
    and "wr_seq rpt = seq" "wr_crc rpt = record_crc X ds" "wr_ct rpt = length ds"
  obtains s' n where
    "verify_list_in_flash S X b rpt s = Some (Ok (length es, length es + length ds + 2), s', n)"
    "healthy b s'" "view s' = view s"
proof -
  have es: "elems_of s = es @ Some (Start seq) # data_elems ds @ [Some (End seq (record_crc X ds))]"
    using assms(2) by (simp add: record_elems_def comp_def)
  obtain it it1 n where it: "st_iter S s = IterOk it"
      "verify_seek S b seq it 0 0 = Some (Ok (), it1, length es + 1, n)" "it_ok b it1"
      "map fst (todo it1) = data_elems ds @ [Some (End seq (record_crc X ds))]"
      "passed it1 @ todo it1 = view s"
    by (rule verify_lands [OF assms(1) es assms(3)])
  obtain it2 item it3 m where run:
      "verify_loop S X b rpt it1 crc_new 0 (length es + 1) n =
         verify_loop S X b rpt it2 (crc_update crc_new (concat (map key_val ds))) (length ds)
           (length es + 1 + length ds) m"
      "st_next S b it2 = NextItem item it3" "st_data S item = Some (End seq (record_crc X ds))"
      "it_ok b it3" "passed it3 @ todo it3 = view s"
    by (rule verify_data_run [OF it(3,4), of X rpt "length es + 1" n]) (simp only: it(5))
  have "verify_loop S X b rpt it1 crc_new 0 (length es + 1) n =
      Some (Ok (length es + length ds + 2), it3, m + st_len S item)"
    using run assms(4-6)
    by (subst run(1), subst verify_loop.simps) (simp add: crc_finalize_def record_crc_def)
  then have "verify_list_in_flash S X b rpt s =
      Some (Ok (length es, length es + length ds + 2), st_release S it3, m + st_len S item)"
    using it assms(4) by (simp add: verify_list_in_flash_def)
  then show thesis
    by (rule that) (use release [OF run(4)] run(5) in simp_all)
qed

text \<open>
  If an earlier start element has the same number and its record is unfinished, the read-back
  judges that one and fails.
\<close>

lemma verify_stale:
  assumes "healthy b s" and "elems_of s = es @ Some (Start seq) # data_elems ds @ x # post"
    and "Some (Start seq) \<notin> set es" and "separator x" and "wr_seq rpt = seq"
  obtains s' n where
    "verify_list_in_flash S X b rpt s = Some (Err WriteVerificationFailed, s', n)"
    "healthy b s'" "view s' = view s"
proof -
  obtain it it1 n where it: "st_iter S s = IterOk it"
      "verify_seek S b seq it 0 0 = Some (Ok (), it1, length es + 1, n)" "it_ok b it1"
      "map fst (todo it1) = data_elems ds @ x # post"
      "passed it1 @ todo it1 = view s"
    by (rule verify_lands [OF assms(1,2,3)])
  obtain it2 item it3 m where run:
      "verify_loop S X b rpt it1 crc_new 0 (length es + 1) n =
         verify_loop S X b rpt it2 (crc_update crc_new (concat (map key_val ds))) (length ds)
           (length es + 1 + length ds) m"
      "st_next S b it2 = NextItem item it3" "st_data S item = x"
      "it_ok b it3" "passed it3 @ todo it3 = view s"
    by (rule verify_data_run [OF it(3,4), of X rpt "length es + 1" n]) (simp only: it(5))
  have "verify_loop S X b rpt it1 crc_new 0 (length es + 1) n =
      Some (Err WriteVerificationFailed, it3, m + st_len S item)"
    using run(2,3) assms(4)
    by (subst run(1), subst verify_loop.simps) (auto simp: separator_def)
  then have "verify_list_in_flash S X b rpt s =
      Some (Err WriteVerificationFailed, st_release S it3, m + st_len S item)"
    using it assms(5) by (simp add: verify_list_in_flash_def)
  then show thesis
    by (rule that) (use release [OF run(4)] run(5) in simp_all)
qed

text \<open>On a healthy storage, verification always returns, and changes nothing.\<close>

lemma verify_seek_returns:
  "it_ok b it \<Longrightarrow> \<exists>res it' seen' n'. verify_seek S b seq it seen n = Some (res, it', seen', n') \<and>
     it_ok b it' \<and> passed it' @ todo it' = passed it @ todo it"
proof (induction "todo it" arbitrary: it seen n)
  case Nil
  then obtain it' where "st_next S b it = NextEnd it'" "it_ok b it'" "passed it' = passed it" "todo it' = []"
    using next_end [of b it] by auto
  with Nil show ?case by (subst verify_seek.simps) simp
next
  case (Cons x xs)
  then obtain item it1 where it1: "st_next S b it = NextItem item it1" "it_ok b it1"
      "passed it1 = passed it @ [x]" "todo it1 = xs"
    using next_item [of b it x xs] by auto
  have whole: "passed it1 @ todo it1 = passed it @ todo it"
    using it1 by (simp flip: Cons.hyps(2))
  show ?case
  proof (cases "st_data S item = Some (Start seq)")
    case True
    with it1(1,2) whole show ?thesis by (subst verify_seek.simps) simp
  next
    case False
    with Cons.hyps(1) [OF it1(4) [symmetric] it1(2), of "Suc seen" "n + st_len S item"] it1(1) whole
    show ?thesis by (subst verify_seek.simps) simp
  qed
qed

lemma verify_loop_returns:
  "it_ok b it \<Longrightarrow> \<exists>res it' n'. verify_loop S X b rpt it crc ct seen n = Some (res, it', n') \<and>
     it_ok b it' \<and> passed it' @ todo it' = passed it @ todo it"
proof (induction "todo it" arbitrary: it crc ct seen n)
  case Nil
  then obtain it' where "st_next S b it = NextEnd it'" "it_ok b it'" "passed it' = passed it" "todo it' = []"
    using next_end [of b it] by auto
  with Nil show ?case by (subst verify_loop.simps) simp
next
  case (Cons x xs)
  then obtain item it1 where it1: "st_next S b it = NextItem item it1" "it_ok b it1"
      "passed it1 = passed it @ [x]" "todo it1 = xs"
    using next_item [of b it x xs] by auto
  have whole: "passed it1 @ todo it1 = passed it @ todo it"
    using it1 by (simp flip: Cons.hyps(2))
  show ?case
  proof (cases "\<exists>d. st_data S item = Some (Data d)")
    case True
    then obtain d where "st_data S item = Some (Data d)" ..
    with Cons.hyps(1) [OF it1(4) [symmetric] it1(2), of "crc_update crc (key_val d)" "Suc ct" "Suc seen"
        "n + st_len S item"] it1(1) whole
    show ?thesis by (subst verify_loop.simps) simp
  next
    case False
    with it1(1,2) whole show ?thesis
      by (subst verify_loop.simps) (auto split: option.split elem.split)
  qed
qed

lemma verify_returns:
  assumes "healthy b s"
  obtains res s' n where "verify_list_in_flash S X b rpt s = Some (res, s', n)"
    "healthy b s'" "view s' = view s"
proof -
  obtain it where it: "st_iter S s = IterOk it" "it_ok b it" "passed it = []" "todo it = view s"
    using iter_start [OF assms] by blast
  obtain res1 it1 seen1 n1 where it1: "verify_seek S b (wr_seq rpt) it 0 0 = Some (res1, it1, seen1, n1)"
      "it_ok b it1" "passed it1 @ todo it1 = view s"
    using verify_seek_returns [OF it(2), of "wr_seq rpt" 0 0] it(3,4) by auto
  obtain res2 it2 n2 where it2: "verify_loop S X b rpt it1 crc_new 0 seen1 n1 = Some (res2, it2, n2)"
      "it_ok b it2" "passed it2 @ todo it2 = view s"
    using verify_loop_returns [OF it1(2), of X rpt crc_new 0 seen1 n1] it1(3) by auto
  show thesis
  proof (cases res1)
    case (Err e)
    with it it1 have "verify_list_in_flash S X b rpt s = Some (Err e, st_release S it1, n1)"
      by (simp add: verify_list_in_flash_def)
    then show thesis by (rule that) (use release [OF it1(2)] it1(3) in simp_all)
  next
    case (Ok u)
    with it it1 it2 have "\<exists>res. verify_list_in_flash S X b rpt s = Some (res, st_release S it2, n2)"
      by (cases res2) (simp_all add: verify_list_in_flash_def)
    then show thesis using that release [OF it2(2)] it2(3) by auto
  qed
qed

end

section \<open>Writing the list\<close>

text \<open>The next sequence number is above every record in storage.\<close>

definition seq_ahead :: "externs \<Rightarrow> elem option list \<Rightarrow> u32 \<Rightarrow> bool" where
  "seq_ahead X es n \<longleftrightarrow> (\<forall>r \<in> set (records_in X es). gr_seq r < n)"

lemma scanned_ahead:
  assumes "0 < kept" and "entries_typed xs" and "next_seq (scanned X kept (map fst xs)) = Some n"
  shows "seq_ahead X (map fst xs) n"
proof (cases "records_in X (map fst xs) = []")
  case True
  then show ?thesis by (simp add: seq_ahead_def)
next
  case False
  obtain r where "highest_seen (scanned X kept (map fst xs)) = Some r"
      "r \<in> set (records_in X (map fst xs))"
      and r: "gr_seq r = Max (gr_seq ` set (records_in X (map fst xs)))"
      "next_seq (scanned X kept (map fst xs)) = checked_add (gr_seq r) 1"
    by (rule scanned_highest [OF assms(1,2) False])
  have above: "gr_seq r < n"
    by (rule checked_add_one_less) (use r(2) assms(3) in simp)
  have "gr_seq r' \<le> gr_seq r" if "r' \<in> set (records_in X (map fst xs))" for r'
    unfolding r(1) by (rule Max_ge) (use that in simp_all)
  with above show ?thesis
    unfolding seq_ahead_def by (blast intro: le_less_trans)
qed

lemma process_writes_guards:
  "next_seq (li_seq li) = None \<Longrightarrow> process_writes S X buf h li s =
     Some \<lparr>o_res = Err (AppError NeedsFirstRead), o_heap = h, o_inner = li, o_storage = s, o_wakes = []\<rparr>"
  "next_seq (li_seq li) = Some n \<Longrightarrow> needs_gc (li_seq li) \<Longrightarrow> process_writes S X buf h li s =
     Some \<lparr>o_res = Err (AppError NeedsGarbageCollect), o_heap = h, o_inner = li, o_storage = s, o_wakes = []\<rparr>"
  "next_seq (li_seq li) = Some n \<Longrightarrow> \<not> needs_gc (li_seq li) \<Longrightarrow> needs_writing h li = Err e \<Longrightarrow>
     process_writes S X buf h li s =
     Some \<lparr>o_res = Err (AppError e), o_heap = h, o_inner = li, o_storage = s, o_wakes = []\<rparr>"
  "next_seq (li_seq li) = Some n \<Longrightarrow> \<not> needs_gc (li_seq li) \<Longrightarrow> needs_writing h li = Ok False \<Longrightarrow>
     process_writes S X buf h li s =
     Some \<lparr>o_res = Ok \<lparr>pw_total_bytes_read = 0, pw_current_bytes_written = 0\<rparr>,
           o_heap = h, o_inner = li, o_storage = s, o_wakes = []\<rparr>"
  by (simp_all add: process_writes_def Let_def)

context ndl_storage begin

text \<open>Every outcome of \<open>process_writes\<close> when it gets to write.\<close>

lemma process_writes_wrote:
  assumes "externs_ok X" and "heap_ok C h (set (li_list li))" and "healthy (length buf) s"
    and "cache_ok kept (li_seq li)"
    and "process_writes S X buf h li s = Some out" and "9 \<le> length buf"
    and n: "next_seq (li_seq li) = Some n" "\<not> needs_gc (li_seq li)" "needs_writing h li = Ok True"
  shows "healthy (length buf) (o_storage out) \<and>
    (if is_ok (o_res out)
     then o_heap out = mark_written (li_list li) h \<and>
       elems_of (o_storage out) = elems_of s @ map Some (record_elems X n (list_data X C h (li_list li)))
     else o_heap out = h \<and> o_inner out = li \<and>
       (\<exists>t. elems_of (o_storage out) = elems_of s @ t \<and> torn X n (list_data X C h (li_list li)) t))"
proof -
  have nz: "n \<noteq> 0" using next_above_keys [OF assms(4) n(1)] by simp
  obtain wres s1 buf1 where w: "write_to_flash S X h (li_list li) buf s n = Some (wres, s1, buf1)"
    using assms(5) n by (auto simp: process_writes_def Let_def split: option.splits)
  note wo = write_to_flash_outcome [OF assms(1,2,3) nz w order_refl assms(6)]
  show ?thesis
  proof (cases wres)
    case (Err e)
    with assms(5) n w have "out = \<lparr>o_res = Err e, o_heap = h, o_inner = li, o_storage = s1, o_wakes = []\<rparr>"
      by (simp add: process_writes_def Let_def)
    with wo Err show ?thesis by simp
  next
    case (Ok rpt)
    then have s1: "healthy (length buf1) s1" "length buf1 = length buf"
      using wo by simp_all
    obtain vres s2 m where v: "verify_list_in_flash S X (length buf1) rpt s1 = Some (vres, s2, m)"
        "healthy (length buf1) s2" "view s2 = view s1"
      by (rule verify_returns [OF s1(1)])
    show ?thesis
    proof (cases vres)
      case (Err e)
      with assms(5) n w Ok v(1) have "out = \<lparr>o_res = Err e, o_heap = h, o_inner = li, o_storage = s2, o_wakes = []\<rparr>"
        by (simp add: process_writes_def Let_def)
      with wo Ok s1 v(2,3) show ?thesis by (auto simp: exI [of _ "map Some (record_elems X n ds)" for ds])
    next
      case (Ok rng)
      obtain a e where rng: "rng = (a, e)" by (cases rng)
      obtain q where "out = \<lparr>o_res = Ok \<lparr>pw_total_bytes_read = m, pw_current_bytes_written = wr_bytes_written rpt\<rparr>,
          o_heap = mark_written (li_list li) h, o_inner = li\<lparr>li_seq := q\<rparr>, o_storage = s2, o_wakes = []\<rparr>"
        using assms(5) n w \<open>wres = Ok rpt\<close> v(1) Ok rng
        by (auto simp: process_writes_def Let_def split: option.splits)
      with wo \<open>wres = Ok rpt\<close> s1 v(2,3) show ?thesis by simp
    qed
  qed
qed

text \<open>Every outcome of \<open>process_writes\<close>.\<close>

lemma process_writes_outcome:
  assumes "externs_ok X" and "heap_ok C h (set (li_list li))" and "healthy (length buf) s"
    and "cache_ok kept (li_seq li)"
    and "process_writes S X buf h li s = Some out" and "9 \<le> length buf"
  shows "healthy (length buf) (o_storage out)"
    and "\<not> is_ok (o_res out) \<Longrightarrow> o_heap out = h \<and> o_inner out = li"
    and "elems_of (o_storage out) = elems_of s \<or>
      (\<exists>n t. next_seq (li_seq li) = Some n \<and> elems_of (o_storage out) = elems_of s @ t \<and>
         torn X n (list_data X C h (li_list li)) t)"
    and "is_ok (o_res out) \<Longrightarrow> needs_writing h li = Ok True \<Longrightarrow>
      \<exists>n. next_seq (li_seq li) = Some n \<and> o_heap out = mark_written (li_list li) h \<and>
         elems_of (o_storage out) = elems_of s @ map Some (record_elems X n (list_data X C h (li_list li)))"
proof -
  consider "next_seq (li_seq li) = None"
    | n where "next_seq (li_seq li) = Some n" "needs_gc (li_seq li)"
    | n e where "next_seq (li_seq li) = Some n" "\<not> needs_gc (li_seq li)" "needs_writing h li = Err e"
    | n where "next_seq (li_seq li) = Some n" "\<not> needs_gc (li_seq li)" "needs_writing h li = Ok False"
    | n where "next_seq (li_seq li) = Some n" "\<not> needs_gc (li_seq li)" "needs_writing h li = Ok True"
    by (cases "next_seq (li_seq li)"; cases "needs_writing h li") auto
  note split = this
  show "healthy (length buf) (o_storage out)"
    and "\<not> is_ok (o_res out) \<Longrightarrow> o_heap out = h \<and> o_inner out = li"
    and "elems_of (o_storage out) = elems_of s \<or>
      (\<exists>n t. next_seq (li_seq li) = Some n \<and> elems_of (o_storage out) = elems_of s @ t \<and>
         torn X n (list_data X C h (li_list li)) t)"
    and "is_ok (o_res out) \<Longrightarrow> needs_writing h li = Ok True \<Longrightarrow>
      \<exists>n. next_seq (li_seq li) = Some n \<and> o_heap out = mark_written (li_list li) h \<and>
         elems_of (o_storage out) = elems_of s @ map Some (record_elems X n (list_data X C h (li_list li)))"
    using assms(3,5) process_writes_wrote [OF assms]
    by (cases rule: split; fastforce simp: process_writes_guards split: if_splits)+
qed

text \<open>
  A write that is due completes when there is room and no unfinished record has its number: the
  whole list is one new record at the end of storage, it is the highest one cached, every node
  is marked clean, and garbage collection is due.
\<close>

lemma process_writes_ok:
  assumes "externs_ok X" and "heap_ok C h (set (li_list li))" and "healthy (length buf) s"
    and "cache_ok kept (li_seq li)"
    and "next_seq (li_seq li) = Some n" and "\<not> needs_gc (li_seq li)" and "needs_writing h li = Ok True"
    and "fits X C h (li_list li) (length buf)" and "length (list_data X C h (li_list li)) + 2 \<le> room s"
    and "Some (Start n) \<notin> set (elems_of s)" and "9 \<le> length buf"
  obtains out where "process_writes S X buf h li s = Some out" "is_ok (o_res out)"
    "o_heap out = mark_written (li_list li) h"
    "li_list (o_inner out) = li_list li"
    "cache_ok kept (li_seq (o_inner out))"
    "insert_good \<lparr>gr_seq = n, gr_start = length (elems_of s),
       gr_end = length (elems_of s) + length (list_data X C h (li_list li)) + 2\<rparr> (li_seq li) =
     Some (li_seq (o_inner out))"
    "highest_seen (li_seq (o_inner out)) = Some \<lparr>gr_seq = n, gr_start = length (elems_of s),
       gr_end = length (elems_of s) + length (list_data X C h (li_list li)) + 2\<rparr>"
    "next_seq (li_seq (o_inner out)) = checked_add n 1" "needs_gc (li_seq (o_inner out))"
    "healthy (length buf) (o_storage out)"
    "elems_of (o_storage out) = elems_of s @ map Some (record_elems X n (list_data X C h (li_list li)))"
proof -
  let ?ds = "list_data X C h (li_list li)"
  note above = next_above_keys [OF assms(4,5)]
  obtain rpt s1 buf1 where w: "write_to_flash S X h (li_list li) buf s n = Some (Ok rpt, s1, buf1)"
    by (rule write_to_flash_room [OF assms(1,2,3) above(1) assms(8,9) order_refl assms(11)])
  from write_to_flash_outcome [OF assms(1,2,3) above(1) w order_refl assms(11)]
  have s1: "healthy (length buf1) s1" "length buf1 = length buf"
      "elems_of s1 = elems_of s @ map Some (record_elems X n ?ds)"
      "wr_seq rpt = n" "wr_crc rpt = record_crc X ?ds" "wr_ct rpt = length ?ds"
    by simp_all
  obtain s2 m where v: "verify_list_in_flash S X (length buf1) rpt s1 =
        Some (Ok (length (elems_of s), length (elems_of s) + length ?ds + 2), s2, m)"
      "healthy (length buf1) s2" "view s2 = view s1"
    by (rule verify_complete [OF s1(1,3) assms(10) s1(4-6)])
  let ?rec = "\<lparr>gr_seq = n, gr_start = length (elems_of s), gr_end = length (elems_of s) + length ?ds + 2\<rparr>"
  have wf: "seq_wf kept (li_seq li)" using assms(4) by (simp add: cache_ok_def)
  have "\<forall>k \<in> set (seq_keys (li_seq li)). k < Some (gr_seq ?rec)" using above(2) by simp
  then obtain q where q: "insert_good ?rec (li_seq li) = Some q" "highest_seen q = Some ?rec"
      "next_seq q = checked_add (gr_seq ?rec) 1" "needs_gc q"
    by (rule insert_good_newest [OF wf])
  have q_ok: "cache_ok kept q"
    using insert_good_ok [OF assms(4), of ?rec] above(1) q(1) by auto
  let ?out = "\<lparr>o_res = Ok \<lparr>pw_total_bytes_read = m, pw_current_bytes_written = wr_bytes_written rpt\<rparr>,
      o_heap = mark_written (li_list li) h, o_inner = li\<lparr>li_seq := q\<rparr>, o_storage = s2, o_wakes = []\<rparr>"
  have run: "process_writes S X buf h li s = Some ?out"
    using assms(5-7) w v(1) q(1) by (simp add: process_writes_def Let_def)
  show thesis
    by (rule that [OF run]) (use q q_ok v s1 in simp_all)
qed

text \<open>
  When storage holds an unfinished record with the next sequence number, a write fails its
  verification although it is written completely, and nothing else changes.
\<close>

lemma process_writes_stale:
  assumes "externs_ok X" and "heap_ok C h (set (li_list li))" and "healthy (length buf) s"
    and "cache_ok kept (li_seq li)"
    and "next_seq (li_seq li) = Some n" and "\<not> needs_gc (li_seq li)" and "needs_writing h li = Ok True"
    and "fits X C h (li_list li) (length buf)" and "length (list_data X C h (li_list li)) + 2 \<le> room s"
    and "elems_of s = es @ Some (Start n) # data_elems ds @ u" and "Some (Start n) \<notin> set es"
    and "u = [] \<or> (\<exists>x post. u = x # post \<and> separator x)"
    and "9 \<le> length buf"
  obtains s' where "process_writes S X buf h li s =
      Some \<lparr>o_res = Err WriteVerificationFailed, o_heap = h, o_inner = li, o_storage = s', o_wakes = []\<rparr>"
    "healthy (length buf) s'"
    "elems_of s' = elems_of s @ map Some (record_elems X n (list_data X C h (li_list li)))"
proof -
  let ?ds = "list_data X C h (li_list li)"
  note above = next_above_keys [OF assms(4,5)]
  obtain rpt s1 buf1 where w: "write_to_flash S X h (li_list li) buf s n = Some (Ok rpt, s1, buf1)"
    by (rule write_to_flash_room [OF assms(1,2,3) above(1) assms(8,9) order_refl assms(13)])
  from write_to_flash_outcome [OF assms(1,2,3) above(1) w order_refl assms(13)]
  have s1: "healthy (length buf1) s1" "length buf1 = length buf"
      "elems_of s1 = elems_of s @ map Some (record_elems X n ?ds)" "wr_seq rpt = n"
    by simp_all
  obtain x post where x: "u @ map Some (record_elems X n ?ds) = x # post" "separator x"
    using assms(12) by (auto simp: record_elems_def)
  then have es1: "elems_of s1 = es @ Some (Start n) # data_elems ds @ x # post"
    using s1(3) assms(10) by simp
  obtain s2 m where v: "verify_list_in_flash S X (length buf1) rpt s1 = Some (Err WriteVerificationFailed, s2, m)"
      "healthy (length buf1) s2" "view s2 = view s1"
    by (rule verify_stale [OF s1(1) es1 assms(11) x(2) s1(4)])
  show thesis
    by (rule that [of s2]) (use assms(5-7) w v s1 in \<open>simp_all add: process_writes_def Let_def\<close>)
qed

end

end
