(* ===== verification/List_Garbage.thy ===== *)
theory List_Garbage
  imports List_Write
begin

text \<open>
  \<open>StorageList::process_garbage\<close>: the cache is taken out of the list (so that nothing can write
  until the storage was scanned again), every entry that does not decode or lies outside the
  cached records is invalidated, and the storage is scanned again.

  The specification speaks of the contents of a storage: its complete records, as sequence number
  and data. Garbage collection leaves exactly the cached records and nothing else
  (\<open>process_garbage_ok\<close>); the newest record stays the newest.
\<close>

section \<open>The operation\<close>

record garbage_counters =
  pg_total_bytes_read :: nat
  pg_post_collection_bytes_read :: nat
  pg_total_bytes_popped :: nat

definition last_records_contain :: "seq_state \<Rightarrow> nat \<Rightarrow> bool" where
  "last_records_contain cur n \<longleftrightarrow> (\<exists>r \<in> set (present cur). range_contains r n)"

text \<open>The first use of the mutex: nothing to do, or the cache is taken.\<close>

definition gc_begin :: "nat \<Rightarrow> list_inner \<Rightarrow> (seq_state \<times> list_inner) option" where
  "gc_begin kept li =
     (if \<not> needs_gc (li_seq li) then None
      else Some (li_seq li, li\<lparr>li_seq := seq_new kept\<rparr>))"

text \<open>The loop over the storage, which runs without the mutex.\<close>

partial_function (option) gc_loop ::
  "('s, 'it, 'item, 'e) storage_ops \<Rightarrow> nat \<Rightarrow> seq_state \<Rightarrow> 'it \<Rightarrow> nat \<Rightarrow> nat \<Rightarrow> nat \<Rightarrow>
     ((unit, 'e load_store_error) result \<times> 'it \<times> nat \<times> nat) option" where
  "gc_loop S b cur it idx total_read popped =
     (case st_next S b it of
        NextErr e it' \<Rightarrow> Some (Err (FlashRead e), it', total_read, popped)
      | NextEnd it' \<Rightarrow> Some (Ok (), it', total_read, popped)
      | NextItem item it' \<Rightarrow>
          (let used = st_len S item in
           if st_data S item = None \<or> \<not> last_records_contain cur idx
           then (case st_invalidate S item it' of
                   InvalidateErr e it2 \<Rightarrow> Some (Err (FlashWrite e), it2, total_read + used, popped + used)
                 | InvalidateOk it2 \<Rightarrow>
                     gc_loop S b cur it2 (Suc idx) (total_read + used) (popped + used))
           else gc_loop S b cur it' (Suc idx) (total_read + used) popped))"

definition gc_sweep ::
  "('s, 'it, 'item, 'e) storage_ops \<Rightarrow> nat \<Rightarrow> seq_state \<Rightarrow> 's \<Rightarrow>
     ((unit, 'e load_store_error) result \<times> 's \<times> nat \<times> nat) option" where
  "gc_sweep S b cur s =
     (case st_iter S s of
        IterErr e s' \<Rightarrow> Some (Err (FlashRead e), s', 0, 0)
      | IterOk it \<Rightarrow>
          (case gc_loop S b cur it 0 0 0 of
             None \<Rightarrow> None
           | Some (res, it', total_read, popped) \<Rightarrow> Some (res, st_release S it', total_read, popped)))"

text \<open>The second use of the mutex: scan again. The list may have changed in between.\<close>

definition gc_finish ::
  "('s, 'it, 'item, 'e) storage_ops \<Rightarrow> externs \<Rightarrow> nat \<Rightarrow> list_inner \<Rightarrow> 's \<Rightarrow> nat \<Rightarrow> nat \<Rightarrow>
     ((garbage_counters, 'e load_store_error) result \<times> list_inner \<times> 's) option" where
  "gc_finish S X b li s total_read popped =
     (case get_or_populate_latest S X b (li_seq li) 0 s of
        None \<Rightarrow> None
      | Some (Err e, q, post, s') \<Rightarrow> Some (Err e, li\<lparr>li_seq := q\<rparr>, s')
      | Some (Ok _, q, post, s') \<Rightarrow>
          Some (Ok \<lparr>pg_total_bytes_read = total_read + post, pg_post_collection_bytes_read = post,
                    pg_total_bytes_popped = popped\<rparr>,
                li\<lparr>li_seq := q\<lparr>needs_gc := False\<rparr>\<rparr>, s'))"

definition process_garbage ::
  "('s, 'it, 'item, 'e) storage_ops \<Rightarrow> externs \<Rightarrow> nat \<Rightarrow> u8 list \<Rightarrow> list_inner \<Rightarrow> 's \<Rightarrow>
     ((garbage_counters, 'e load_store_error) result \<times> list_inner \<times> 's) option" where
  "process_garbage S X kept buf li s =
     (case gc_begin kept li of
        None \<Rightarrow>
          Some (Ok \<lparr>pg_total_bytes_read = 0, pg_post_collection_bytes_read = 0, pg_total_bytes_popped = 0\<rparr>,
                li, s)
      | Some (cur, li1) \<Rightarrow>
          (case gc_sweep S (length buf) cur s of
             None \<Rightarrow> None
           | Some (Err e, s1, total_read, popped) \<Rightarrow> Some (Err e, li1, s1)
           | Some (Ok _, s1, total_read, popped) \<Rightarrow>
               gc_finish S X (length buf) li1 s1 total_read popped))"

section \<open>The contents of a storage\<close>

fun seg_contents :: "segment list \<Rightarrow> (u32 \<times> ser_data list) list" where
  "seg_contents [] = []"
| "seg_contents (Junk d # sg) = seg_contents sg"
| "seg_contents (Rec seq ds # sg) = (seq, ds) # seg_contents sg"

definition contents :: "externs \<Rightarrow> elem option list \<Rightarrow> (u32 \<times> ser_data list) list" where
  "contents X es = seg_contents (segments X es)"

text \<open>A storage that holds these records, one after the other, and nothing else.\<close>

definition layout :: "externs \<Rightarrow> (u32 \<times> ser_data list) list \<Rightarrow> elem option list" where
  "layout X cs = concat (map (\<lambda>(seq, ds). map Some (record_elems X seq ds)) cs)"

lemma seg_contents_append [simp]: "seg_contents (a @ b) = seg_contents a @ seg_contents b"
  by (induction a rule: seg_contents.induct) simp_all

lemma contents_seqs: "map fst (contents X es) = map gr_seq (records_in X es)"
proof -
  have "map fst (seg_contents sg) = map gr_seq (locate i sg)" for sg i
    by (induction sg arbitrary: i rule: seg_contents.induct) simp_all
  then show ?thesis by (simp add: contents_def records_in_def)
qed

lemma contents_around_record:
  "contents X (pre @ map Some (record_elems X seq ds) @ post) = contents X pre @ (seq, ds) # contents X post"
  by (simp add: contents_def segments_around_record)

lemma contents_Nil [simp]: "contents X [] = []"
  by (simp add: contents_def)

lemma contents_snoc: "contents X (es @ map Some (record_elems X seq ds)) = contents X es @ [(seq, ds)]"
  using contents_around_record [of X es seq ds "[]"] by simp

lemma layout_simps [simp]:
  "layout X [] = []"
  "layout X ((seq, ds) # cs) = map Some (record_elems X seq ds) @ layout X cs"
  by (simp_all add: layout_def)

lemma contents_layout [simp]: "contents X (layout X cs) = cs"
proof (induction cs)
  case (Cons c cs)
  then show ?case
    using contents_around_record [of X "[]" "fst c" "snd c" "layout X cs"] by (cases c) simp
qed simp

lemma stands_at_contents: "stands_at X es r ds \<Longrightarrow> (gr_seq r, ds) \<in> set (contents X es)"
  by (auto simp: stands_at_def contents_around_record)

section \<open>What the sweep keeps\<close>

fun gc_keep :: "seq_state \<Rightarrow> nat \<Rightarrow> entry list \<Rightarrow> entry list" where
  "gc_keep cur i [] = []"
| "gc_keep cur i (x # xs) =
     (if fst x = None \<or> \<not> last_records_contain cur i then gc_keep cur (Suc i) xs
      else x # gc_keep cur (Suc i) xs)"

lemma gc_keep_append: "gc_keep cur i (xs @ ys) = gc_keep cur i xs @ gc_keep cur (i + length xs) ys"
  by (induction xs arbitrary: i) simp_all

text \<open>
  The cached ranges name records of the storage: each is the range of a record, except that the
  range cached by a write is one too long, past the end of the storage.
\<close>

definition same_place :: "nat \<Rightarrow> good_write_record \<Rightarrow> good_write_record \<Rightarrow> bool" where
  "same_place n r r' \<longleftrightarrow> gr_seq r = gr_seq r' \<and> gr_start r = gr_start r' \<and>
     (gr_end r = gr_end r' \<or> gr_end r = Suc (gr_end r') \<and> gr_end r = n)"

definition cache_exact :: "externs \<Rightarrow> elem option list \<Rightarrow> seq_state \<Rightarrow> bool" where
  "cache_exact X es cur \<longleftrightarrow>
     (\<forall>r \<in> set (present cur). \<exists>r' \<in> set (records_in X es). same_place (length es) r r')"

definition cached_at :: "seq_state \<Rightarrow> u32 \<Rightarrow> nat \<Rightarrow> bool" where
  "cached_at cur seq i \<longleftrightarrow> (\<exists>r \<in> set (present cur). gr_seq r = seq \<and> gr_start r = i)"

fun kept_contents :: "seq_state \<Rightarrow> nat \<Rightarrow> segment list \<Rightarrow> (u32 \<times> ser_data list) list" where
  "kept_contents cur i [] = []"
| "kept_contents cur i (Junk d # sg) = kept_contents cur (i + 1) sg"
| "kept_contents cur i (Rec seq ds # sg) =
     (if cached_at cur seq i then [(seq, ds)] else []) @ kept_contents cur (i + length ds + 2) sg"

lemma locate_starts: "r \<in> set (locate i sg) \<Longrightarrow> i \<le> gr_start r \<and> gr_end r < i + sum_list (map seg_length sg)"
proof (induction sg arbitrary: i rule: seg_contents.induct)
  case (3 seq ds sg)
  then show ?case by (auto dest!: "3.IH")
qed (fastforce+)

lemma gc_keep_all:
  "\<forall>j. i \<le> j \<and> j < i + length xs \<longrightarrow> last_records_contain cur j \<Longrightarrow> None \<notin> set (map fst xs) \<Longrightarrow>
     gc_keep cur i xs = xs"
  by (induction xs arbitrary: i) auto

lemma gc_keep_none:
  "\<forall>j. i \<le> j \<and> j < i + length xs \<longrightarrow> \<not> last_records_contain cur j \<Longrightarrow> gc_keep cur i xs = []"
  by (induction xs arbitrary: i) auto

text \<open>A scan of the front of a storage caches ranges of the whole.\<close>

lemma scanned_prefix_exact:
  assumes "0 < kept" and "entries_typed xs"
  shows "cache_exact X (map fst xs @ es) (scanned X kept (map fst xs))"
  unfolding cache_exact_def
proof
  fix r assume "r \<in> set (present (scanned X kept (map fst xs)))"
  then have "r \<in> set (records_in X (map fst xs))"
    using set_mset_mono [OF scanned_present [OF assms]] by auto
  then have "r \<in> set (records_in X (map fst xs @ es))"
    by (fastforce simp: located_iff)
  then show "\<exists>r' \<in> set (records_in X (map fst xs @ es)). same_place (length (map fst xs @ es)) r r'"
    by (auto simp: same_place_def)
qed

text \<open>The cached ranges, cut to the storage, are positions of cached records.\<close>

definition ranges_ahead :: "seq_state \<Rightarrow> nat \<Rightarrow> segment list \<Rightarrow> bool" where
  "ranges_ahead cur i sg \<longleftrightarrow>
     (\<forall>r \<in> set (present cur). sg = [] \<or> gr_start r < i \<and> gr_end r < i \<or>
        (\<exists>r' \<in> set (locate i sg). same_place (i + sum_list (map seg_length sg)) r r'))"

lemma seg_length_nonzero [simp]: "seg_length x \<noteq> 0"
  by (cases x) simp_all

text \<open>Where a range may lie, seen from a record at the front.\<close>

lemma ranges_ahead_record:
  assumes "ranges_ahead cur i (Rec seq ds # sg)" and "r \<in> set (present cur)"
  obtains (before) "gr_start r < i" "gr_end r < i"
  | (here) "gr_seq r = seq" "gr_start r = i" "i + length ds + 1 \<le> gr_end r"
      "sg = [] \<or> gr_end r < i + length ds + 2"
  | (after) r' where "r' \<in> set (locate (i + length ds + 2) sg)"
      "same_place (i + length ds + 2 + sum_list (map seg_length sg)) r r'"
      "i + length ds + 2 \<le> gr_start r"
proof -
  have "gr_start r < i \<and> gr_end r < i \<or>
    same_place (i + length ds + 2 + sum_list (map seg_length sg)) r
      \<lparr>gr_seq = seq, gr_start = i, gr_end = i + length ds + 1\<rparr> \<or>
    (\<exists>r' \<in> set (locate (i + length ds + 2) sg).
       same_place (i + length ds + 2 + sum_list (map seg_length sg)) r r')"
    using assms by (auto simp: ranges_ahead_def add.assoc)
  then show thesis
  proof (elim disjE bexE)
    assume "same_place (i + length ds + 2 + sum_list (map seg_length sg)) r
      \<lparr>gr_seq = seq, gr_start = i, gr_end = i + length ds + 1\<rparr>"
    then show thesis
      by (intro here) (auto simp: same_place_def)
  next
    fix r' assume r': "r' \<in> set (locate (i + length ds + 2) sg)"
      "same_place (i + length ds + 2 + sum_list (map seg_length sg)) r r'"
    then show thesis
      using locate_starts [OF r'(1)] by (intro after) (auto simp: same_place_def)
  qed (use before in simp)
qed

lemma ranges_ahead_tl:
  "ranges_ahead cur i (Junk d # sg) \<Longrightarrow> ranges_ahead cur (i + 1) sg"
  "ranges_ahead cur i (Rec seq ds # sg) \<Longrightarrow> ranges_ahead cur (i + length ds + 2) sg"
proof -
  show "ranges_ahead cur i (Junk d # sg) \<Longrightarrow> ranges_ahead cur (i + 1) sg"
    by (fastforce simp: ranges_ahead_def)
  assume ahead: "ranges_ahead cur i (Rec seq ds # sg)"
  show "ranges_ahead cur (i + length ds + 2) sg"
    unfolding ranges_ahead_def
  proof
    fix r assume "r \<in> set (present cur)"
    with ahead show "sg = [] \<or> gr_start r < i + length ds + 2 \<and> gr_end r < i + length ds + 2 \<or>
        (\<exists>r' \<in> set (locate (i + length ds + 2) sg).
           same_place (i + length ds + 2 + sum_list (map seg_length sg)) r r')"
      by (rule ranges_ahead_record) auto
  qed
qed

text \<open>Of a record, the sweep keeps all or nothing.\<close>

lemma gc_keep_record:
  assumes "ranges_ahead cur i (Rec seq ds # sg)" and "length ys \<le> length ds + 2" and "None \<notin> set (map fst ys)"
  shows "gc_keep cur i ys = (if cached_at cur seq i then ys else [])"
proof (cases "cached_at cur seq i")
  case True
  then obtain r where r: "r \<in> set (present cur)" "gr_start r = i"
    by (auto simp: cached_at_def)
  moreover have "i + length ds + 1 \<le> gr_end r"
    by (rule ranges_ahead_record [OF assms(1) r(1)]) (use r(2) in simp_all)
  ultimately have "\<forall>j. i \<le> j \<and> j < i + length ys \<longrightarrow> last_records_contain cur j"
    using assms(2) by (auto simp: last_records_contain_def range_contains_def intro!: bexI [of _ r])
  then show ?thesis using True assms(3) by (simp add: gc_keep_all)
next
  case False
  have "\<not> range_contains r j" if "r \<in> set (present cur)" "i \<le> j" "j < i + length ys" for r j
    by (rule ranges_ahead_record [OF assms(1) that(1)])
      (use that False assms(2) in \<open>auto simp: range_contains_def cached_at_def\<close>)
  then have "gc_keep cur i ys = []"
    by (intro gc_keep_none) (auto simp: last_records_contain_def)
  then show ?thesis using False by simp
qed

lemma gc_keep_junk: "ranges_ahead cur i (Junk d # sg) \<Longrightarrow> \<not> last_records_contain cur i"
  by (fastforce simp: last_records_contain_def ranges_ahead_def range_contains_def
        same_place_def dest: locate_starts)

lemma gc_keep_segments:
  assumes "ranges_ahead cur i sg" and "map fst xs = concat (map (seg_elems X) sg)"
  shows "map fst (gc_keep cur i xs) = layout X (kept_contents cur i sg)"
  using assms
proof (induction sg arbitrary: i xs rule: seg_contents.induct)
  case (2 d sg)
  then obtain x ys where xs: "xs = x # ys" "map fst ys = concat (map (seg_elems X) sg)" by auto
  then show ?case
    using "2.IH" [OF ranges_ahead_tl(1) [OF "2.prems"(1)]] gc_keep_junk [OF "2.prems"(1)] by simp
next
  case (3 seq ds sg)
  let ?n = "length ds + 2"
  define ys zs where "ys = take ?n xs" and "zs = drop ?n xs"
  have xs: "xs = ys @ zs" by (simp add: ys_def zs_def)
  have map_ys: "map fst ys = map Some (record_elems X seq ds)"
    and map_zs: "map fst zs = concat (map (seg_elems X) sg)"
    using "3.prems"(2) by (simp_all add: ys_def zs_def record_elems_def flip: take_map drop_map)
  have len: "length ys = ?n" using arg_cong [OF map_ys, of length] by (simp add: record_elems_def)
  have "None \<notin> set (map fst ys)" by (simp add: map_ys del: set_map) auto
  then have "map fst (gc_keep cur i ys) = layout X (if cached_at cur seq i then [(seq, ds)] else [])"
    using gc_keep_record [OF "3.prems"(1), of ys] map_ys len by simp
  moreover have "map fst (gc_keep cur (i + ?n) zs) = layout X (kept_contents cur (i + ?n) sg)"
    using "3.IH" [OF ranges_ahead_tl(2) [OF "3.prems"(1)] map_zs] by simp
  ultimately show ?case by (simp add: xs gc_keep_append len layout_def)
qed simp

section \<open>Contents and positions\<close>

lemma contents_records:
  "contents X es = map (\<lambda>r. (gr_seq r, data_at es r)) (records_in X es)"
proof -
  have "map (\<lambda>r. (gr_seq r, data_at (pre @ concat (map (seg_elems X) sg)) r)) (locate (length pre) sg) =
    seg_contents sg" for pre sg
  proof (induction sg arbitrary: pre rule: seg_contents.induct)
    case (2 d sg)
    then show ?case using "2.IH" [of "pre @ [d]"] by simp
  next
    case (3 seq ds sg)
    have "data_at (pre @ map Some (record_elems X seq ds) @ concat (map (seg_elems X) sg))
        \<lparr>gr_seq = seq, gr_start = length pre, gr_end = length pre + length ds + 1\<rparr> = ds"
      by (rule stands_at_data [of X]) (force simp: stands_at_def)
    then show ?case
      using "3.IH" [of "pre @ map Some (record_elems X seq ds)"] by (simp add: record_elems_def)
  qed simp
  from this [of "[]" "segments X es"] show ?thesis
    by (simp add: contents_def records_in_def segments_flat)
qed

lemma data_at_append:
  assumes "r \<in> set (records_in X es)"
  shows "data_at (es @ t) r = data_at es r"
proof -
  obtain ds where ds: "stands_at X es r ds" by (rule located_stands_at [OF assms])
  then have "stands_at X (es @ t) r ds" by (fastforce simp: stands_at_def)
  then show ?thesis using stands_at_data [OF ds] by (simp add: stands_at_data)
qed

text \<open>A write that was cut short adds nothing, or all of its record.\<close>

lemma contents_torn:
  assumes "torn X seq ds t"
  shows "contents X (es @ t) = contents X es \<or> contents X (es @ t) = contents X es @ [(seq, ds)]"
  using records_in_torn [OF assms, of es]
  by (auto simp: contents_records data_at_append contents_snoc [of X es seq ds, unfolded contents_records])

section \<open>The sweep\<close>

context ndl_storage begin

text \<open>
  The sweep of a healthy storage returns, reads everything, keeps what \<open>gc_keep\<close> says, and counts
  the bytes of the rest as popped.
\<close>

lemma gc_loop_returns:
  "it_ok b it \<Longrightarrow> \<exists>it' p. gc_loop S b cur it i n popped =
       Some (Ok (), it', n + sum_list (map snd (todo it)), p) \<and>
     it_ok b it' \<and> passed it' = passed it @ gc_keep cur i (todo it) \<and> todo it' = [] \<and>
     p + sum_list (map snd (gc_keep cur i (todo it))) = popped + sum_list (map snd (todo it))"
proof (induction "todo it" arbitrary: it i n popped)
  case Nil
  then obtain it' where "st_next S b it = NextEnd it'" "it_ok b it'" "passed it' = passed it" "todo it' = []"
    using next_end [of b it] by auto
  with Nil(1)[symmetric] show ?case by (subst gc_loop.simps) simp
next
  case (Cons x xs)
  then obtain item it1 where it1: "st_next S b it = NextItem item it1" "st_data S item = fst x"
      "st_len S item = snd x" "it_ok b it1" "passed it1 = passed it @ [x]" "todo it1 = xs"
    using next_item [of b it x xs] by auto
  have todo: "todo it = x # xs" using Cons.hyps(2) by simp
  show ?case
  proof (cases "fst x = None \<or> \<not> last_records_contain cur i")
    case True
    obtain it2 where it2: "st_invalidate S item it1 = InvalidateOk it2" "it_ok b it2"
        "passed it2 = passed it" "todo it2 = xs"
      using invalidate [OF Cons.prems it1(1)] it1(6) by auto
    have "gc_loop S b cur it i n popped = gc_loop S b cur it2 (Suc i) (n + snd x) (popped + snd x)"
      using True it1 it2(1) by (subst gc_loop.simps) (auto simp: Let_def)
    with Cons.hyps(1) [OF it2(4) [symmetric] it2(2), of "Suc i" "n + snd x" "popped + snd x"] it2 True
    show ?thesis by (auto simp: todo add.assoc)
  next
    case False
    have "gc_loop S b cur it i n popped = gc_loop S b cur it1 (Suc i) (n + snd x) popped"
      using False it1 by (subst gc_loop.simps) (auto simp: Let_def)
    with Cons.hyps(1) [OF it1(6) [symmetric] it1(4), of "Suc i" "n + snd x" popped] it1 False
    show ?thesis by (auto simp: todo add.assoc)
  qed
qed

lemma gc_sweep_ok:
  assumes "healthy b s" and "cache_exact X (elems_of s) cur"
  obtains s' p where "gc_sweep S b cur s = Some (Ok (), s', sum_list (map snd (view s)), p)"
    "healthy b s'" "elems_of s' = layout X (kept_contents cur 0 (segments X (elems_of s)))"
    "p + sum_list (map snd (view s')) = sum_list (map snd (view s))"
proof -
  obtain it where it: "st_iter S s = IterOk it" "it_ok b it" "passed it = []" "todo it = view s"
    using iter_start [OF assms(1)] by blast
  obtain it' p where it': "gc_loop S b cur it 0 0 0 = Some (Ok (), it', sum_list (map snd (view s)), p)"
      "it_ok b it'" "passed it' = gc_keep cur 0 (view s)" "todo it' = []"
      "p + sum_list (map snd (gc_keep cur 0 (view s))) = sum_list (map snd (view s))"
    using gc_loop_returns [OF it(2), of cur 0 0 0] it(3,4) by auto
  have "ranges_ahead cur 0 (segments X (elems_of s))"
    using assms(2) by (auto simp: ranges_ahead_def cache_exact_def records_in_def sum_seg_length)
  then have "map fst (gc_keep cur 0 (view s)) = layout X (kept_contents cur 0 (segments X (elems_of s)))"
    by (rule gc_keep_segments) (simp add: segments_flat)
  then show thesis
    by (intro that [of "st_release S it'" p]) (use it it' release [OF it'(2)] in \<open>simp_all add: gc_sweep_def\<close>)
qed

end

section \<open>A cache in step with the storage\<close>

text \<open>
  What the operations keep true between them: the cache is well formed, its ranges name records,
  no two records in storage share a sequence number, the highest cached one is the largest in
  storage, and no range reaches past the storage unless garbage collection is due.
\<close>

definition max_seq :: "(u32 \<times> ser_data list) list \<Rightarrow> u32 option" where
  "max_seq cs = (if cs = [] then None else Some (Max (fst ` set cs)))"

definition newest_data :: "(u32 \<times> ser_data list) list \<Rightarrow> ser_data list" where
  "newest_data cs = (case max_seq cs of None \<Rightarrow> [] | Some n \<Rightarrow> the (map_of cs n))"

definition synced :: "externs \<Rightarrow> nat \<Rightarrow> elem option list \<Rightarrow> seq_state \<Rightarrow> bool" where
  "synced X kept es q \<longleftrightarrow>
     cache_ok kept q \<and> cache_exact X es q \<and> distinct (map fst (contents X es)) \<and>
     map_option gr_seq (highest_seen q) = max_seq (contents X es) \<and>
     (needs_gc q \<or> (\<forall>r \<in> set (present q). gr_end r < length es))"

lemma highest_present: "highest_seen q = Some r \<Longrightarrow> r \<in> set (present q)"
  by (cases "last_records q") (auto simp: highest_seen_def set_present split: if_splits dest: last_in_set)

lemma highest_exact:
  assumes "cache_exact X es q" and "highest_seen q = Some r"
  obtains ds where "stands_at X es r ds" "(gr_seq r, ds) \<in> set (contents X es)"
proof -
  obtain r' where r': "r' \<in> set (records_in X es)" "gr_seq r = gr_seq r'" "gr_start r = gr_start r'"
    using assms highest_present [OF assms(2)] by (auto simp: cache_exact_def same_place_def)
  obtain ds where "stands_at X es r' ds" by (rule located_stands_at [OF r'(1)])
  then have "stands_at X es r ds" using r'(2,3) by (simp add: stands_at_def)
  then show thesis by (rule that) (rule stands_at_contents, fact)
qed

lemma exact_describes: "cache_exact X es q \<Longrightarrow> cache_describes X es q"
  by (auto simp: cache_describes_def elim: highest_exact)

lemma synced_latest:
  assumes "synced X kept es q"
  shows "latest_data es q = newest_data (contents X es)"
proof (cases "highest_seen q")
  case None
  then have "max_seq (contents X es) = None" using assms by (simp add: synced_def)
  with None show ?thesis by (simp add: latest_data_def newest_data_def)
next
  case (Some r)
  then obtain ds where ds: "stands_at X es r ds" "(gr_seq r, ds) \<in> set (contents X es)"
    using assms by (auto simp: synced_def elim: highest_exact)
  have "max_seq (contents X es) = Some (gr_seq r)" using assms Some by (simp add: synced_def)
  moreover have "map_of (contents X es) (gr_seq r) = Some ds"
    using assms ds(2) by (simp add: synced_def)
  ultimately show ?thesis
    using Some ds(1) by (simp add: latest_data_def newest_data_def stands_at_data)
qed

lemma contents_Nil_iff: "contents X es = [] \<longleftrightarrow> records_in X es = []"
  by (simp add: contents_records)

lemma max_seq_records: "max_seq (contents X es) =
    (if records_in X es = [] then None else Some (Max (gr_seq ` set (records_in X es))))"
  by (simp add: max_seq_def contents_records image_image)

lemma records_inside: "r \<in> set (records_in X es) \<Longrightarrow> gr_end r < length es"
  by (auto simp: located_iff record_elems_def)

lemma synced_scanned:
  assumes "0 < kept" and "entries_typed xs" and "distinct (map fst (contents X (map fst xs)))"
  shows "synced X kept (map fst xs) (scanned X kept (map fst xs))"
proof -
  have "set (present (scanned X kept (map fst xs))) \<subseteq> set (records_in X (map fst xs))"
    using set_mset_mono [OF scanned_present [OF assms(1,2)]] by simp
  then have exact: "cache_exact X (map fst xs) (scanned X kept (map fst xs))"
    and inside: "\<forall>r \<in> set (present (scanned X kept (map fst xs))). gr_end r < length (map fst xs)"
    using records_inside [of _ X "map fst xs"] by (auto simp: cache_exact_def same_place_def)
  show ?thesis
  proof (cases "records_in X (map fst xs) = []")
    case True
    then show ?thesis
      using exact inside scanned_cache_ok [OF assms(1,2)] scanned_none [OF assms(1,2)] assms(3)
      by (simp add: synced_def max_seq_records)
  next
    case False
    obtain r where "highest_seen (scanned X kept (map fst xs)) = Some r" "r \<in> set (records_in X (map fst xs))"
      "gr_seq r = Max (gr_seq ` set (records_in X (map fst xs)))"
      "next_seq (scanned X kept (map fst xs)) = checked_add (gr_seq r) 1"
      by (rule scanned_highest [OF assms(1,2) False])
    then show ?thesis
      using exact inside scanned_cache_ok [OF assms(1,2)] False assms(3)
      by (simp add: synced_def max_seq_records)
  qed
qed

text \<open>The next number is above every record in storage.\<close>

lemma synced_ahead:
  assumes "synced X kept es q" and "next_seq q = Some n"
  shows "seq_ahead X es n" and "\<forall>k \<in> fst ` set (contents X es). k < n" and "n \<noteq> 0"
proof -
  have ok: "cache_ok kept q" and high: "map_option gr_seq (highest_seen q) = max_seq (contents X es)"
    using assms(1) by (simp_all add: synced_def)
  show above: "\<forall>k \<in> fst ` set (contents X es). k < n"
  proof (cases "contents X es = []")
    case False
    then obtain r where r: "highest_seen q = Some r" "gr_seq r = Max (fst ` set (contents X es))"
      using high by (auto simp: max_seq_def)
    have "gr_seq r < n"
      by (rule checked_add_one_less) (use ok r(1) assms(2) in \<open>simp add: cache_ok_def next_ok_def\<close>)
    moreover have "k \<le> gr_seq r" if "k \<in> fst ` set (contents X es)" for k
      unfolding r(2) by (rule Max_ge) (use that in simp_all)
    ultimately show ?thesis by (blast intro: le_less_trans)
  qed simp
  then show "seq_ahead X es n"
    by (force simp: seq_ahead_def contents_records)
  show "n \<noteq> 0" by (rule next_above_keys [OF ok assms(2)])
qed

lemma max_seq_snoc:
  assumes "\<forall>k \<in> fst ` set cs. k < n"
  shows "max_seq (cs @ [(n, ds)]) = Some n"
proof -
  have "Max (insert n (fst ` set cs)) = n"
    by (rule Max_eqI) (use assms in auto)
  then show ?thesis by (simp add: max_seq_def)
qed

lemma newest_data_snoc:
  assumes "\<forall>k \<in> fst ` set cs. k < n"
  shows "newest_data (cs @ [(n, ds)]) = ds"
proof -
  have "map_of cs n = None" using assms by (force simp: map_of_eq_None_iff)
  then show ?thesis by (simp add: newest_data_def max_seq_snoc [OF assms] map_add_def)
qed

text \<open>Caching a record just written keeps the cache in step.\<close>

lemma present_insert_good: "insert_good rec q = Some q' \<Longrightarrow> r \<in> set (present q') \<Longrightarrow> r = rec \<or> r \<in> set (present q)"
  using set_mset_mono [OF mset_present_insert_good] by fastforce

lemma synced_write:
  assumes "synced X kept es q" and "next_seq q = Some n" and "\<not> needs_gc q"
    and "rec = \<lparr>gr_seq = n, gr_start = length es, gr_end = length es + length ds + 2\<rparr>"
    and "insert_good rec q = Some q'"
  shows "synced X kept (es @ map Some (record_elems X n ds)) q'"
    and "newest_data (contents X (es @ map Some (record_elems X n ds))) = ds"
proof -
  let ?es = "es @ map Some (record_elems X n ds)"
  note ahead = synced_ahead [OF assms(1,2)]
  have old: "cache_ok kept q" "cache_exact X es q" "distinct (map fst (contents X es))"
      "\<forall>r \<in> set (present q). gr_end r < length es"
    using assms(1,3) by (simp_all add: synced_def)
  have wf: "seq_wf kept q" using old(1) by (simp add: cache_ok_def)
  have "\<forall>k \<in> set (seq_keys q). k < Some (gr_seq rec)"
    using next_above_keys(2) [OF old(1) assms(2)] assms(4) by simp
  then have q': "highest_seen q' = Some rec" "needs_gc q'"
    using insert_good_newest [OF wf, of rec] assms(5) by auto
  have "cache_ok kept q'"
    using insert_good_ok [OF old(1), of rec] ahead(3) assms(4,5) by auto
  moreover have "cache_exact X ?es q'"
    unfolding cache_exact_def
  proof
    fix r assume "r \<in> set (present q')"
    then consider "r = rec" | "r \<in> set (present q)"
      using present_insert_good [OF assms(5)] by blast
    then show "\<exists>r' \<in> set (records_in X ?es). same_place (length ?es) r r'"
    proof cases
      case 1
      show ?thesis
        unfolding records_in_complete
        by (rule bexI [of _ "\<lparr>gr_seq = n, gr_start = length es, gr_end = length es + length ds + 1\<rparr>"])
          (use 1 assms(4) in \<open>simp_all add: same_place_def record_elems_def\<close>)
    next
      case 2
      then show ?thesis
        using old(2,4) by (fastforce simp: records_in_complete cache_exact_def same_place_def)
    qed
  qed
  moreover have "distinct (map fst (contents X ?es))"
    using old(3) ahead(2) by (auto simp: contents_snoc)
  moreover have "max_seq (contents X ?es) = Some n"
    using max_seq_snoc [OF ahead(2)] by (simp add: contents_snoc)
  ultimately show "synced X kept ?es q'"
    using q' assms(4) by (simp add: synced_def)
  show "newest_data (contents X ?es) = ds"
    using newest_data_snoc [OF ahead(2)] by (simp add: contents_snoc)
qed

section \<open>What garbage collection keeps\<close>

lemma kept_contents_subseq: "set (kept_contents cur i sg) \<subseteq> set (seg_contents sg)"
  by (induction cur i sg rule: kept_contents.induct) auto

lemma kept_contents_cached: "fst ` set (kept_contents cur i sg) \<subseteq> gr_seq ` set (present cur)"
  by (induction cur i sg rule: kept_contents.induct) (auto simp: cached_at_def)

text \<open>With distinct numbers, the records kept are those whose number is cached.\<close>

definition collected :: "seq_state \<Rightarrow> (u32 \<times> ser_data list) list \<Rightarrow> (u32 \<times> ser_data list) list" where
  "collected cur cs = filter (\<lambda>c. fst c \<in> gr_seq ` set (present cur)) cs"

lemma kept_contents_collected:
  assumes "\<forall>r \<in> set (present cur). \<forall>r' \<in> set (locate i sg). gr_seq r = gr_seq r' \<longrightarrow> gr_start r = gr_start r'"
  shows "kept_contents cur i sg = collected cur (seg_contents sg)"
  using assms
proof (induction cur i sg rule: kept_contents.induct)
  case (3 cur i seq ds sg)
  have "cached_at cur seq i \<longleftrightarrow> seq \<in> gr_seq ` set (present cur)"
    using "3.prems" by (auto simp: cached_at_def)
  moreover have "kept_contents cur (i + length ds + 2) sg = collected cur (seg_contents sg)"
    using "3.prems" by (intro "3.IH") simp
  ultimately show ?case by (simp add: collected_def)
qed (simp_all add: collected_def)

text \<open>The newest record survives, and the storage holds at most as many records as are cached.\<close>

lemma collected_newest:
  assumes "distinct (map fst cs)" and "map_option gr_seq (highest_seen cur) = max_seq cs"
  shows "max_seq (collected cur cs) = max_seq cs" and "newest_data (collected cur cs) = newest_data cs"
proof -
  have "max_seq (collected cur cs) = max_seq cs \<and> newest_data (collected cur cs) = newest_data cs"
  proof (cases "cs = []")
    case False
    define m where "m = Max (fst ` set cs)"
    obtain r where r: "highest_seen cur = Some r" "gr_seq r = m"
      using assms(2) False by (auto simp: max_seq_def m_def)
    have "m \<in> fst ` set cs" unfolding m_def by (rule Max_in) (use False in simp_all)
    then obtain ds where ds: "(m, ds) \<in> set cs" by auto
    have filtered: "(m, ds) \<in> set (collected cur cs)"
      "distinct (map fst (collected cur cs))"
      using assms(1) ds highest_present [OF r(1)] r(2)
      by (auto simp: collected_def distinct_map_filter)
    have bound: "k \<le> m" if "k \<in> fst ` set cs" for k
      unfolding m_def by (rule Max_ge) (use that in simp_all)
    have "Max (fst ` set (collected cur cs)) = m"
      by (rule Max_eqI) (use filtered(1) bound in \<open>force simp: collected_def\<close>)+
    then have max: "max_seq (collected cur cs) = Some m"
      using filtered(1) by (auto simp: max_seq_def)
    have "map_of cs m = Some ds" using assms(1) ds by simp
    moreover have "map_of (collected cur cs) m = Some ds" using filtered by simp
    ultimately show ?thesis
      using max False by (simp add: newest_data_def max_seq_def m_def)
  qed (simp add: collected_def)
  then show "max_seq (collected cur cs) = max_seq cs" "newest_data (collected cur cs) = newest_data cs"
    by simp_all
qed

lemma collected_length:
  assumes "distinct (map fst cs)" and "seq_wf kept cur"
  shows "length (collected cur cs) \<le> kept"
proof -
  have "distinct (map fst (collected cur cs))"
    using assms(1) by (simp add: collected_def distinct_map_filter)
  then have "length (collected cur cs) = card (fst ` set (collected cur cs))"
    using distinct_card [of "map fst (collected cur cs)"] by simp
  also have "\<dots> \<le> card (gr_seq ` set (present cur))"
    by (rule card_mono) (auto simp: collected_def)
  also have "\<dots> \<le> length (present cur)"
    using card_image_le [of "set (present cur)" gr_seq] card_length [of "present cur"] by simp
  also have "\<dots> \<le> kept"
    using assms(2) length_filter_le [of "\<lambda>r. r \<noteq> None" "last_records cur"]
    by (simp add: present_def seq_wf_def)
  finally show ?thesis .
qed

lemma exact_collected:
  assumes "cache_exact X es cur" and "distinct (map fst (contents X es))"
  shows "kept_contents cur 0 (segments X es) = collected cur (contents X es)"
  unfolding contents_def
proof (rule kept_contents_collected, intro ballI impI)
  fix r r' assume r: "r \<in> set (present cur)" "r' \<in> set (locate 0 (segments X es))" "gr_seq r = gr_seq r'"
  obtain r2 where r2: "r2 \<in> set (records_in X es)" "gr_seq r = gr_seq r2" "gr_start r = gr_start r2"
    using assms(1) r(1) by (auto simp: cache_exact_def same_place_def)
  have "inj_on gr_seq (set (records_in X es))"
    using assms(2) by (simp add: contents_seqs distinct_map)
  then have "r' = r2" using r r2 by (auto simp: records_in_def dest: inj_onD)
  then show "gr_start r = gr_start r'" using r2 by simp
qed

lemma synced_swept:
  assumes "0 < kept" and "entries_typed xs" and "distinct (map fst (contents X (map fst xs)))"
  shows "synced X kept (map fst xs) ((scanned X kept (map fst xs))\<lparr>needs_gc := False\<rparr>)"
proof -
  have "set (present (scanned X kept (map fst xs))) \<subseteq> set (records_in X (map fst xs))"
    using set_mset_mono [OF scanned_present [OF assms(1,2)]] by simp
  then have "\<forall>r \<in> set (present (scanned X kept (map fst xs))). gr_end r < length (map fst xs)"
    using records_inside [of _ X "map fst xs"] by auto
  then show ?thesis
    using synced_scanned [OF assms]
    by (simp add: synced_def cache_ok_def seq_wf_def next_ok_def cache_exact_def split: option.split_asm)
qed

context ndl_storage begin

text \<open>
  Garbage collection that is due: exactly the cached records are left, one after the other; the
  cache is in step with the new storage and no collection is due any more.
\<close>

lemma process_garbage_ok:
  assumes "healthy (length buf) s" and "synced X kept (elems_of s) (li_seq li)" and "needs_gc (li_seq li)"
  obtains c li' s' where "process_garbage S X kept buf li s = Some (Ok c, li', s')"
    "healthy (length buf) s'"
    "elems_of s' = layout X (collected (li_seq li) (contents X (elems_of s)))"
    "li' = li\<lparr>li_seq := (scanned X kept (elems_of s'))\<lparr>needs_gc := False\<rparr>\<rparr>"
    "synced X kept (elems_of s') (li_seq li')"
    "pg_total_bytes_popped c + sum_list (map snd (view s')) = sum_list (map snd (view s))"
    "pg_post_collection_bytes_read c = sum_list (map snd (view s'))"
    "pg_total_bytes_read c = sum_list (map snd (view s)) + sum_list (map snd (view s'))"
proof -
  have exact: "cache_exact X (elems_of s) (li_seq li)" and distinct: "distinct (map fst (contents X (elems_of s)))"
    and pos: "0 < kept"
    using assms(2) by (simp_all add: synced_def cache_ok_def seq_wf_def)
  obtain s1 p where sweep: "gc_sweep S (length buf) (li_seq li) s = Some (Ok (), s1, sum_list (map snd (view s)), p)"
      "healthy (length buf) s1"
      "elems_of s1 = layout X (kept_contents (li_seq li) 0 (segments X (elems_of s)))"
      "p + sum_list (map snd (view s1)) = sum_list (map snd (view s))"
    by (rule gc_sweep_ok [OF assms(1) exact])
  then have es1: "elems_of s1 = layout X (collected (li_seq li) (contents X (elems_of s)))"
    by (simp add: exact_collected [OF exact distinct])
  obtain s2 where scan: "get_or_populate_latest S X (length buf) (seq_new kept) 0 s1 =
        Some (Ok (highest_seen (scanned X kept (elems_of s1))), scanned X kept (elems_of s1),
          0 + sum_list (map snd (view s1)), s2)"
      "healthy (length buf) s2" "view s2 = view s1"
    by (rule populate_scans [OF sweep(2) pos])
  let ?c = "\<lparr>pg_total_bytes_read = sum_list (map snd (view s)) + sum_list (map snd (view s1)),
    pg_post_collection_bytes_read = sum_list (map snd (view s1)), pg_total_bytes_popped = p\<rparr>"
  let ?li = "li\<lparr>li_seq := (scanned X kept (elems_of s1))\<lparr>needs_gc := False\<rparr>\<rparr>"
  have run: "process_garbage S X kept buf li s = Some (Ok ?c, ?li, s2)"
    using assms(3) sweep(1) scan(1)
    by (simp add: process_garbage_def gc_begin_def gc_finish_def)
  have "distinct (map fst (contents X (elems_of s1)))"
    using distinct by (simp add: es1 collected_def distinct_map_filter)
  then have "synced X kept (elems_of s1) (li_seq ?li)"
    using synced_swept [OF pos view_typed [OF sweep(2)]] by simp
  then show thesis
    by (intro that [OF run scan(2)]) (use es1 scan(3) sweep(4) in simp_all)
qed

end

end
