(* ===== verification/Test_Storage.thy ===== *)
theory Test_Storage
  imports List_Garbage
begin

text \<open>
  \<open>TestStorage\<close> of \<open>test_utils.rs\<close>: the in-memory implementation of the storage traits that the
  crate's tests run on, and \<open>RecordWriter\<close>, the builder of write records.

  \<open>interpretation test_storage\<close> discharges the whole contract \<open>ndl_storage\<close> for it.
\<close>

section \<open>Data\<close>

datatype test_storage_error = FakeBadRead

datatype test_elem =
    TStart u32
  | TData "u8 list"
  | TEnd u32 u32

record test_item =
  ti_ctr :: u64
  ti_elem :: test_elem

record test_storage =
  ts_ctr :: u64
  ts_items :: "test_item list"
  ts_forced_error :: "test_storage_error option"

text \<open>An iterator holds the borrowed storage and a copy of the items still to come.\<close>

record test_iter =
  tit_sto :: test_storage
  tit_remain :: "test_item list"

section \<open>Operations\<close>

definition test_default :: test_storage where
  "test_default = \<lparr>ts_ctr = 0, ts_items = [], ts_forced_error = None\<rparr>"

text \<open>\<open>next_ctr\<close>; \<open>None\<close> is the panic of \<open>unwrap\<close> when the counters are used up.\<close>

definition next_ctr :: "test_storage \<Rightarrow> (u64 \<times> test_storage) option" where
  "next_ctr s =
     (case checked_add (ts_ctr s) 1 of
        None \<Rightarrow> None
      | Some n \<Rightarrow> Some (ts_ctr s, s\<lparr>ts_ctr := n\<rparr>))"

text \<open>\<open>From<&Elem> for TestElem\<close>; \<open>None\<close> is undefined behaviour of \<open>hdr\<close> on an empty slice.\<close>

fun test_elem_from :: "elem \<Rightarrow> test_elem option" where
  "test_elem_from (Start seq_no) = Some (TStart seq_no)"
| "test_elem_from (Data d) =
     (case ser_hdr d of None \<Rightarrow> None | Some hdr \<Rightarrow> Some (TData (hdr # key_val d)))"
| "test_elem_from (End seq_no calc_crc) = Some (TEnd seq_no calc_crc)"

fun test_elem_len :: "test_elem \<Rightarrow> nat" where
  "test_elem_len (TStart _) = 5"
| "test_elem_len (TData data) = 1 + length data"
| "test_elem_len (TEnd _ _) = 9"

definition test_iter_elems :: "test_storage \<Rightarrow> (test_iter, test_storage, test_storage_error) iter_result" where
  "test_iter_elems s =
     (case ts_forced_error s of
        Some err \<Rightarrow> IterErr err s
      | None \<Rightarrow> IterOk \<lparr>tit_sto = s, tit_remain = ts_items s\<rparr>)"

definition test_push :: "test_storage \<Rightarrow> elem \<Rightarrow> (test_storage, test_storage_error) push_result" where
  "test_push s data =
     (case ts_forced_error s of
        Some err \<Rightarrow> PushErr err s
      | None \<Rightarrow>
          (case next_ctr s of
             None \<Rightarrow> PushPanic
           | Some (ctr, s1) \<Rightarrow>
               (case test_elem_from data of
                  None \<Rightarrow> PushPanic
                | Some item \<Rightarrow>
                    PushOk (test_elem_len item)
                      (s1\<lparr>ts_items := ts_items s1 @ [\<lparr>ti_ctr = ctr, ti_elem = item\<rparr>]\<rparr>))))"

definition test_next :: "nat \<Rightarrow> test_iter \<Rightarrow> (test_iter, test_item, test_storage_error) next_result" where
  "test_next b it =
     (case ts_forced_error (tit_sto it) of
        Some err \<Rightarrow> NextErr err it
      | None \<Rightarrow>
          (case tit_remain it of
             [] \<Rightarrow> NextEnd it
           | item # rest \<Rightarrow> NextItem item (it\<lparr>tit_remain := rest\<rparr>)))"

text \<open>\<open>data\<close>; the outer \<open>None\<close> is the panic of \<open>from_existing(data).unwrap()\<close> on empty data.\<close>

definition test_data :: "test_item \<Rightarrow> elem option option" where
  "test_data item =
     (case ti_elem item of
        TStart seq_no \<Rightarrow> Some (Some (Start seq_no))
      | TData data \<Rightarrow>
          (case ser_data_from_existing data of None \<Rightarrow> None | Some d \<Rightarrow> Some (Some (Data d)))
      | TEnd seq_no calc_crc \<Rightarrow> Some (Some (End seq_no calc_crc)))"

definition test_len :: "test_item \<Rightarrow> nat" where
  "test_len item = test_elem_len (ti_elem item)"

definition test_invalidate :: "test_item \<Rightarrow> test_iter \<Rightarrow> (test_iter, test_storage_error) invalidate_result" where
  "test_invalidate item it =
     (case ts_forced_error (tit_sto it) of
        Some err \<Rightarrow> InvalidateErr err it
      | None \<Rightarrow>
          InvalidateOk (it\<lparr>tit_sto := (tit_sto it)
            \<lparr>ts_items := filter (\<lambda>i. ti_ctr i \<noteq> ti_ctr item) (ts_items (tit_sto it))\<rparr>\<rparr>))"

definition TEST_MAX_ELEM_SIZE :: nat where "TEST_MAX_ELEM_SIZE = 4080"

text \<open>
  The trait implementation. The interface has no place for a panic of \<open>data\<close>; \<open>test_data_total\<close>
  shows that it does not occur on a healthy storage.
\<close>

definition test_ops :: "(test_storage, test_iter, test_item, test_storage_error) storage_ops" where
  "test_ops =
     \<lparr>st_iter = test_iter_elems, st_next = test_next,
      st_data = (\<lambda>item. case test_data item of None \<Rightarrow> None | Some d \<Rightarrow> d),
      st_len = test_len, st_invalidate = test_invalidate, st_release = tit_sto,
      st_push = test_push, st_max_elem_size = TEST_MAX_ELEM_SIZE\<rparr>"

section \<open>Writing records by hand (\<open>RecordWriter\<close>)\<close>

text \<open>\<open>TestStorage::end_write_record\<close> and the common part of the other two: append an item.\<close>

definition test_append :: "test_elem \<Rightarrow> test_storage \<Rightarrow> test_storage option" where
  "test_append e s =
     (case next_ctr s of
        None \<Rightarrow> None
      | Some (ctr, s1) \<Rightarrow> Some (s1\<lparr>ts_items := ts_items s1 @ [\<lparr>ti_ctr = ctr, ti_elem = e\<rparr>]\<rparr>))"

record record_writer =
  rw_sto :: test_storage
  rw_seq :: u32
  rw_crc :: crc32

definition start_write_record :: "u32 \<Rightarrow> test_storage \<Rightarrow> record_writer option" where
  "start_write_record seq_no s =
     (case test_append (TStart seq_no) s of
        None \<Rightarrow> None
      | Some s1 \<Rightarrow> Some \<lparr>rw_sto = s1, rw_seq = seq_no, rw_crc = crc_new\<rparr>)"

text \<open>
  \<open>TestStorage::add_data_elem\<close>: key and value are encoded into a scratch buffer of 4096 bytes one
  after the other; \<open>None\<close> is the panic of \<open>unwrap\<close> when one does not fit.
\<close>

definition add_data_elem ::
  "externs \<Rightarrow> 'v codec \<Rightarrow> key \<Rightarrow> 'v \<Rightarrow> crc32 option \<Rightarrow> test_storage \<Rightarrow> (test_storage \<times> crc32 option) option" where
  "add_data_elem X c key data crc s =
     (case next_ctr s of
        None \<Rightarrow> None
      | Some (ctr, s1) \<Rightarrow>
          (let kb = str_encode X key; vb = cd_encode c data in
           if length kb > 4096 \<or> length vb > 4096 then None
           else Some (s1\<lparr>ts_items := ts_items s1 @ [\<lparr>ti_ctr = ctr, ti_elem = TData ([1] @ kb @ vb)\<rparr>]\<rparr>,
                      map_option (\<lambda>cr. crc_update (crc_update cr kb) vb) crc)))"

definition writer_add :: "externs \<Rightarrow> 'v codec \<Rightarrow> key \<Rightarrow> 'v \<Rightarrow> record_writer \<Rightarrow> record_writer option" where
  "writer_add X c key data w =
     (case add_data_elem X c key data (Some (rw_crc w)) (rw_sto w) of
        Some (s, Some crc) \<Rightarrow> Some (w\<lparr>rw_sto := s, rw_crc := crc\<rparr>)
      | _ \<Rightarrow> None)"

definition writer_end :: "externs \<Rightarrow> record_writer \<Rightarrow> test_storage option" where
  "writer_end X w = test_append (TEnd (rw_seq w) (crc_finalize X (rw_crc w))) (rw_sto w)"

section \<open>The contract holds\<close>

fun test_elem_ok :: "test_elem \<Rightarrow> bool" where
  "test_elem_ok (TStart seq) \<longleftrightarrow> seq \<noteq> 0"
| "test_elem_ok (TData data) \<longleftrightarrow> data \<noteq> []"
| "test_elem_ok (TEnd seq crc) \<longleftrightarrow> seq \<noteq> 0"

definition test_healthy :: "nat \<Rightarrow> test_storage \<Rightarrow> bool" where
  "test_healthy b s \<longleftrightarrow>
     ts_forced_error s = None \<and> distinct (map ti_ctr (ts_items s)) \<and>
     list_all (\<lambda>i. ti_ctr i < ts_ctr s \<and> test_elem_ok (ti_elem i)) (ts_items s)"

definition test_entry :: "test_item \<Rightarrow> entry" where
  "test_entry i = (case test_data i of None \<Rightarrow> None | Some d \<Rightarrow> d, test_len i)"

definition test_view :: "test_storage \<Rightarrow> entry list" where
  "test_view s = map test_entry (ts_items s)"

definition test_passed :: "test_iter \<Rightarrow> entry list" where
  "test_passed it =
     map test_entry (take (length (ts_items (tit_sto it)) - length (tit_remain it)) (ts_items (tit_sto it)))"

definition test_todo :: "test_iter \<Rightarrow> entry list" where
  "test_todo it = map test_entry (tit_remain it)"

definition test_it_ok :: "nat \<Rightarrow> test_iter \<Rightarrow> bool" where
  "test_it_ok b it \<longleftrightarrow> test_healthy b (tit_sto it) \<and>
     (\<exists>pre. ts_items (tit_sto it) = pre @ tit_remain it)"

definition test_room :: "test_storage \<Rightarrow> nat" where
  "test_room s = 2 ^ 64 - 1 - unat (ts_ctr s)"

text \<open>On a healthy storage, \<open>data\<close> never panics, and yields a well-typed element.\<close>

lemma test_data_total:
  "test_elem_ok (ti_elem i) \<Longrightarrow> \<exists>e. test_data i = Some (Some e) \<and> elem_typed e"
  by (cases "ti_elem i") (auto simp: test_data_def ser_data_from_existing_def)

lemma next_ctr_Some: "next_ctr s = Some (c, s1) \<Longrightarrow>
    c = ts_ctr s \<and> s1 = s\<lparr>ts_ctr := ts_ctr s1\<rparr> \<and> unat (ts_ctr s1) = Suc (unat (ts_ctr s))"
  by (auto simp: next_ctr_def split: option.splits dest: checked_add_Some_unat)

lemma next_ctr_room: "0 < test_room s \<Longrightarrow> \<exists>s1. next_ctr s = Some (ts_ctr s, s1)"
  by (cases "checked_add (ts_ctr s) 1")
    (auto simp: next_ctr_def test_room_def checked_add_None_iff)

text \<open>Appending an item with a fresh counter.\<close>

lemma append_healthy:
  assumes "test_healthy b s" and "next_ctr s = Some (c, s1)" and "test_elem_ok e"
  shows "test_healthy b (s1\<lparr>ts_items := ts_items s1 @ [\<lparr>ti_ctr = c, ti_elem = e\<rparr>]\<rparr>)"
    and "test_view (s1\<lparr>ts_items := ts_items s1 @ [\<lparr>ti_ctr = c, ti_elem = e\<rparr>]\<rparr>) =
      test_view s @ [test_entry \<lparr>ti_ctr = c, ti_elem = e\<rparr>]"
proof -
  note s1 = next_ctr_Some [OF assms(2)]
  have "ts_items s1 = ts_items s" "ts_forced_error s1 = ts_forced_error s"
    using arg_cong [OF conjunct1 [OF conjunct2 [OF s1]], of ts_items]
      arg_cong [OF conjunct1 [OF conjunct2 [OF s1]], of ts_forced_error] by simp_all
  moreover have "ts_ctr s < ts_ctr s1" using s1 by (simp add: word_less_nat_alt)
  ultimately show "test_healthy b (s1\<lparr>ts_items := ts_items s1 @ [\<lparr>ti_ctr = c, ti_elem = e\<rparr>]\<rparr>)"
    and "test_view (s1\<lparr>ts_items := ts_items s1 @ [\<lparr>ti_ctr = c, ti_elem = e\<rparr>]\<rparr>) =
      test_view s @ [test_entry \<lparr>ti_ctr = c, ti_elem = e\<rparr>]"
    using assms s1 by (auto simp: test_healthy_def test_view_def list_all_iff)
qed

lemma storable_test_elem: "storable e \<Longrightarrow> \<exists>t. test_elem_from e = Some t \<and> test_elem_ok t \<and>
    test_entry \<lparr>ti_ctr = c, ti_elem = t\<rparr> = (Some e, test_elem_len t)"
proof (cases e)
  case (Data d)
  assume "storable e"
  with Data obtain kv where "d = SerData (V0_DATA # kv)" by (cases d) auto
  with Data show ?thesis
    by (simp add: ser_hdr_def test_entry_def test_data_def test_len_def ser_data_from_existing_def)
qed (auto simp: test_entry_def test_data_def test_len_def)

lemma test_ops_simps [simp]:
  "st_iter test_ops = test_iter_elems" "st_next test_ops = test_next"
  "st_len test_ops = test_len" "st_invalidate test_ops = test_invalidate"
  "st_release test_ops = tit_sto" "st_push test_ops = test_push"
  "st_data test_ops i = fst (test_entry i)" "st_max_elem_size test_ops = TEST_MAX_ELEM_SIZE"
  by (simp_all add: test_ops_def test_entry_def)

lemma test_push_storable:
  assumes "test_healthy b s" and "storable e"
  shows "test_push s e = PushErr er s' \<Longrightarrow> False"
    and "test_push s e = PushOk n s' \<Longrightarrow> test_healthy b s' \<and> test_view s' = test_view s @ [(Some e, n)]"
    and "0 < test_room s \<Longrightarrow> \<exists>n s'. test_push s e = PushOk n s' \<and> test_room s - 1 \<le> test_room s'"
proof -
  obtain t where t: "test_elem_from e = Some t" "test_elem_ok t"
      "\<And>c. test_entry \<lparr>ti_ctr = c, ti_elem = t\<rparr> = (Some e, test_elem_len t)"
    using storable_test_elem [OF assms(2)] by (metis option.inject)
  have none: "ts_forced_error s = None" using assms(1) by (simp add: test_healthy_def)
  show "test_push s e = PushErr er s' \<Longrightarrow> False"
    using none t(1) by (auto simp: test_push_def split: option.splits)
  show "test_push s e = PushOk n s' \<Longrightarrow> test_healthy b s' \<and> test_view s' = test_view s @ [(Some e, n)]"
    using none t append_healthy [OF assms(1) _ t(2)] by (auto simp: test_push_def split: option.splits)
  assume "0 < test_room s"
  then obtain s1 where s1: "next_ctr s = Some (ts_ctr s, s1)" using next_ctr_room by blast
  then show "\<exists>n s'. test_push s e = PushOk n s' \<and> test_room s - 1 \<le> test_room s'"
    using none t(1) next_ctr_Some [OF s1] by (simp add: test_push_def test_room_def)
qed

interpretation test_storage: ndl_storage test_ops test_healthy test_view test_it_ok test_passed test_todo test_room
proof
  fix b s
  assume s: "test_healthy b s"
  then show "\<exists>it. st_iter test_ops s = IterOk it \<and> test_it_ok b it \<and> test_passed it = [] \<and> test_todo it = test_view s"
    by (simp add: test_iter_elems_def test_it_ok_def test_passed_def test_todo_def test_view_def test_healthy_def)
next
  fix b it
  assume "test_it_ok b it" "test_todo it = []"
  then show "\<exists>it'. st_next test_ops b it = NextEnd it' \<and> test_it_ok b it' \<and> test_passed it' = test_passed it \<and> test_todo it' = []"
    by (simp add: test_next_def test_todo_def test_it_ok_def test_healthy_def)
next
  fix b it x xs
  assume it: "test_it_ok b it" "test_todo it = x # xs"
  then obtain i rest pre where i: "tit_remain it = i # rest" "x = test_entry i" "xs = map test_entry rest"
      "ts_items (tit_sto it) = pre @ i # rest"
    by (auto simp: test_todo_def test_it_ok_def)
  then show "\<exists>item it'. st_next test_ops b it = NextItem item it' \<and> st_data test_ops item = fst x \<and>
      st_len test_ops item = snd x \<and> test_it_ok b it' \<and> test_passed it' = test_passed it @ [x] \<and> test_todo it' = xs"
    using it(1) by (auto simp: test_next_def test_it_ok_def test_passed_def test_todo_def test_entry_def
        test_healthy_def Suc_diff_le)
next
  fix b it
  assume "test_it_ok b it"
  then show "test_healthy b (st_release test_ops it) \<and> test_view (st_release test_ops it) = test_passed it @ test_todo it"
    by (auto simp: test_it_ok_def test_view_def test_passed_def test_todo_def)
next
  fix b s e n
  assume "test_healthy b s" "(Some e, n) \<in> set (test_view s)"
  then show "elem_typed e"
    using test_data_total by (fastforce simp: test_view_def test_entry_def test_healthy_def list_all_iff
        split: option.splits)
next
  fix b s e n s'
  assume "test_healthy b s" "writable b e" "st_push test_ops s e = PushOk n s'"
  then show "test_healthy b s' \<and> test_view s' = test_view s @ [(Some e, n)]"
    using test_push_storable(2) [OF _ writable_storable] by simp
next
  fix b s e er s'
  assume "test_healthy b s" "writable b e" "st_push test_ops s e = PushErr er s'"
  then show "test_healthy b s' \<and> (test_view s' = test_view s \<or>
      (\<exists>d n. test_view s' = test_view s @ [(d, n)] \<and> (d = None \<or> d = Some e)))"
    using test_push_storable(1) [OF _ writable_storable] by simp blast
next
  fix b s e
  assume "test_healthy b s" "writable b e" "0 < test_room s"
  then show "\<exists>n s'. st_push test_ops s e = PushOk n s' \<and> test_room s - 1 \<le> test_room s'"
    using test_push_storable(3) [OF _ writable_storable] by simp
next
  fix b it item it'
  assume it: "test_it_ok b it" "st_next test_ops b it = NextItem item it'"
  then obtain rest pre where i: "tit_remain it = item # rest" "it' = it\<lparr>tit_remain := rest\<rparr>"
      "ts_items (tit_sto it) = pre @ item # rest"
    by (auto simp: test_next_def test_it_ok_def split: option.splits list.splits)
  have "distinct (map ti_ctr (pre @ item # rest))"
    using it(1) i(3) by (simp add: test_it_ok_def test_healthy_def)
  then have "filter (\<lambda>i. ti_ctr i \<noteq> ti_ctr item) pre = pre" "filter (\<lambda>i. ti_ctr i \<noteq> ti_ctr item) rest = rest"
    by (simp_all add: filter_id_conv image_iff) (metis, metis)
  then have items: "filter (\<lambda>i. ti_ctr i \<noteq> ti_ctr item) (ts_items (tit_sto it)) = pre @ rest"
    using i(3) by simp
  have none: "ts_forced_error (tit_sto it) = None" using it(1) by (simp add: test_it_ok_def test_healthy_def)
  let ?it = "it'\<lparr>tit_sto := (tit_sto it')\<lparr>ts_items := pre @ rest\<rparr>\<rparr>"
  have "test_invalidate item it' = InvalidateOk ?it"
    using none items i(2) by (simp add: test_invalidate_def)
  moreover have "test_it_ok b ?it"
    using it(1) i by (auto simp: test_it_ok_def test_healthy_def)
  moreover have "test_passed ?it = test_passed it" "test_todo ?it = test_todo it'"
    using i by (simp_all add: test_passed_def test_todo_def)
  ultimately show "\<exists>it''. st_invalidate test_ops item it' = InvalidateOk it'' \<and> test_it_ok b it'' \<and>
      test_passed it'' = test_passed it \<and> test_todo it'' = test_todo it'"
    by auto
qed

lemma next_ctr_step:
  assumes "0 < test_room s"
  obtains s1 where "next_ctr s = Some (ts_ctr s, s1)" "test_room s1 = test_room s - 1"
proof -
  obtain s1 where s1: "next_ctr s = Some (ts_ctr s, s1)" using next_ctr_room [OF assms] by blast
  then show thesis using next_ctr_Some [OF s1] by (intro that [OF s1]) (simp add: test_room_def)
qed

lemma append_item:
  assumes "test_healthy b s" and "0 < test_room s" and "test_elem_ok e"
  obtains s1 where "next_ctr s = Some (ts_ctr s, s1)"
    "test_healthy b (s1\<lparr>ts_items := ts_items s1 @ [\<lparr>ti_ctr = ts_ctr s, ti_elem = e\<rparr>]\<rparr>)"
    "map fst (test_view (s1\<lparr>ts_items := ts_items s1 @ [\<lparr>ti_ctr = ts_ctr s, ti_elem = e\<rparr>]\<rparr>)) =
      map fst (test_view s) @ [fst (test_entry \<lparr>ti_ctr = ts_ctr s, ti_elem = e\<rparr>)]"
    "test_room (s1\<lparr>ts_items := ts_items s1 @ [\<lparr>ti_ctr = ts_ctr s, ti_elem = e\<rparr>]\<rparr>) = test_room s - 1"
proof -
  obtain s1 where s1: "next_ctr s = Some (ts_ctr s, s1)" "test_room s1 = test_room s - 1"
    by (rule next_ctr_step [OF assms(2)])
  note healthy = append_healthy [OF assms(1) s1(1) assms(3)]
  have "test_room (s1\<lparr>ts_items := xs\<rparr>) = test_room s1" for xs by (simp add: test_room_def)
  then show thesis using healthy s1 by (intro that [of s1]) simp_all
qed

end
