(* ===== verification/Node_Handle.thy ===== *)
theory Node_Handle
  imports Test_Storage
begin

text \<open>
  Attaching a node to a list, its handle, and detaching it (\<open>storage_node.rs\<close>), and the
  constructor and the cache reset of a list (\<open>storage_list.rs\<close>).

  A list is identified by its address. \<open>taken_for_list\<close> of a node is 0 when the node is in no
  list, the address of its list when no handle is live, and that address plus one when one is.
  Each definition below is one critical section of the list's mutex, or one atomic access outside
  it: \<open>attach_with_default\<close> is \<open>attach_lock\<close>, then \<open>attach_observe\<close> until it is ready, then
  \<open>attach_finish\<close>.
\<close>

section \<open>Lists\<close>

text \<open>\<open>try_new\<close>; \<open>new\<close> panics where it gives \<open>None\<close>.\<close>

definition list_try_new :: "nat \<Rightarrow> list_inner option" where
  "list_try_new kept = (if kept = 0 then None else Some \<lparr>li_list = [], li_seq = seq_new kept\<rparr>)"

definition reset_cache :: "nat \<Rightarrow> list_inner \<Rightarrow> list_inner" where
  "reset_cache kept li = li\<lparr>li_seq := seq_new kept\<rparr>"

section \<open>Attaching\<close>

definition set_taken :: "nid \<Rightarrow> addr \<Rightarrow> 'v heap \<Rightarrow> 'v heap" where
  "set_taken i p h = h(i := (h i)\<lparr>n_taken := p\<rparr>)"

text \<open>
  The first critical section: take the node, and link it unless it is linked already. The result
  is whether it was (\<open>already_attached\<close>).
\<close>

definition attach_lock ::
  "addr \<Rightarrow> nid \<Rightarrow> 'v heap \<Rightarrow> list_inner \<Rightarrow> (bool, error) result \<times> 'v heap \<times> list_inner \<times> wake list" where
  "attach_lock list_ptr i h li =
     (let old = n_taken (h i); list_ptr_taken = list_ptr + 1 in
      if old = 0 \<or> old = list_ptr then
        (let h1 = set_taken i list_ptr_taken h; already_attached = (old \<noteq> 0) in
         if \<not> already_attached then
           (case find_node h1 (li_list li) (n_key (h1 i)) of
              Some _ \<Rightarrow> (Err DuplicateKey, set_taken i 0 h1, li, [])
            | None \<Rightarrow> (Ok False, h1, li\<lparr>li_list := i # li_list li\<rparr>, [WakeNeedsRead]))
         else (Ok True, h1, li, [WakeNeedsRead]))
      else if old = list_ptr_taken then (Err AlreadyTaken, h, li, [])
      else (Err NodeInOtherList, h, li, []))"

text \<open>One poll of \<open>wait_for_value\<close>: ready as soon as the state is not \<open>Initial\<close>.\<close>

definition attach_observe :: "nid \<Rightarrow> 'v heap \<Rightarrow> state option" where
  "attach_observe i h = (if n_state (h i) \<noteq> Initial then Some (n_state (h i)) else None)"

text \<open>
  What follows, on the state that was observed: a node that is not in storage takes the default
  value, in a critical section. \<open>None\<close> is a panic (\<open>unreachable!\<close>).
\<close>

definition attach_finish :: "'v \<Rightarrow> bool \<Rightarrow> state \<Rightarrow> nid \<Rightarrow> 'v heap \<Rightarrow> 'v heap option" where
  "attach_finish dflt already_attached seen i h =
     (case seen of
        Initial \<Rightarrow> None
      | NonResident \<Rightarrow> Some (h(i := (h i)\<lparr>n_t := Some dflt, n_state := NeedsWrite\<rparr>))
      | NeedsWrite \<Rightarrow> if \<not> already_attached then None else Some h
      | ValidNoWriteNeeded \<Rightarrow> Some h)"

section \<open>Handles\<close>

definition handle_key :: "nid \<Rightarrow> 'v heap \<Rightarrow> key" where
  "handle_key i h = n_key (h i)"

definition handle_list :: "nid \<Rightarrow> 'v heap \<Rightarrow> addr" where
  "handle_list i h = n_taken (h i) - 1"

text \<open>\<open>None\<close> is a panic, or reading uninitialised memory.\<close>

definition handle_load :: "nid \<Rightarrow> 'v heap \<Rightarrow> 'v option" where
  "handle_load i h =
     (case n_state (h i) of
        Initial \<Rightarrow> None
      | NonResident \<Rightarrow> None
      | ValidNoWriteNeeded \<Rightarrow> n_t (h i)
      | NeedsWrite \<Rightarrow> n_t (h i))"

definition handle_write :: "'v \<Rightarrow> nid \<Rightarrow> 'v heap \<Rightarrow> ((unit, error) result \<times> 'v heap \<times> wake list) option" where
  "handle_write t i h =
     (let store = (case n_t (h i) of
                     None \<Rightarrow> None
                   | Some _ \<Rightarrow> Some (Ok (), h(i := (h i)\<lparr>n_t := Some t, n_state := NeedsWrite\<rparr>), [WakeNeedsWrite]))
      in case n_state (h i) of
           Initial \<Rightarrow> Some (Err (InvalidState (handle_key i h) Initial), h, [])
         | NonResident \<Rightarrow> Some (Err (InvalidState (handle_key i h) NonResident), h, [])
         | ValidNoWriteNeeded \<Rightarrow> store
         | NeedsWrite \<Rightarrow> store)"

definition handle_drop :: "nid \<Rightarrow> 'v heap \<Rightarrow> 'v heap" where
  "handle_drop i h = set_taken i (n_taken (h i) - 1) h"

section \<open>Detaching\<close>

text \<open>
  The whole call is one critical section. While the node is unlinked and reset its pointer is the
  sentinel 1, which no list has. \<open>None\<close> is dropping uninitialised data.
\<close>

definition detach_reset :: "nid \<Rightarrow> 'v heap \<Rightarrow> 'v heap option" where
  "detach_reset i h =
     (case n_state (h i) of
        Initial \<Rightarrow> Some (set_state i Initial h)
      | NonResident \<Rightarrow> Some (set_state i Initial h)
      | ValidNoWriteNeeded \<Rightarrow>
          if n_t (h i) = None then None else Some (h(i := (h i)\<lparr>n_t := None, n_state := Initial\<rparr>))
      | NeedsWrite \<Rightarrow>
          if n_t (h i) = None then None else Some (h(i := (h i)\<lparr>n_t := None, n_state := Initial\<rparr>)))"

definition detach ::
  "addr \<Rightarrow> nid \<Rightarrow> 'v heap \<Rightarrow> list_inner \<Rightarrow> ((unit, error) result \<times> 'v heap \<times> list_inner) option" where
  "detach list_ptr i h li =
     (let old = n_taken (h i) in
      if old = list_ptr then
        (case detach_reset i (set_taken i 1 h) of
           None \<Rightarrow> None
         | Some h1 \<Rightarrow> Some (Ok (), set_taken i 0 h1, li\<lparr>li_list := remove1 i (li_list li)\<rparr>))
      else if old = list_ptr + 1 then Some (Err AlreadyTaken, h, li)
      else if old = 0 then Some (Ok (), h, li)
      else Some (Err NodeInOtherList, h, li))"

section \<open>Every branch\<close>

lemma set_taken_simps [simp]:
  "n_taken (set_taken i p h j) = (if j = i then p else n_taken (h j))"
  "n_t (set_taken i p h j) = n_t (h j)"
  "n_key (set_taken i p h j) = n_key (h j)"
  "n_vtable (set_taken i p h j) = n_vtable (h j)"
  "n_state (set_taken i p h j) = n_state (h j)"
  by (simp_all add: set_taken_def)

lemma set_taken_same [simp]: "set_taken i (n_taken (h i)) h = h"
  by (simp add: set_taken_def fun_eq_iff)

lemma set_taken_twice [simp]: "set_taken i p (set_taken i q h) = set_taken i p h"
  by (simp add: set_taken_def fun_eq_iff)

lemma find_node_set_taken [simp]: "find_node (set_taken i p h) ns k = find_node h ns k"
  by (simp add: find_node_def)

lemma handle_load_Some: "handle_load i h = Some v \<longleftrightarrow> has_data (n_state (h i)) \<and> n_t (h i) = Some v"
  by (cases "n_state (h i)") (simp_all add: handle_load_def)

lemma handle_write_ok:
  "has_data (n_state (h i)) \<Longrightarrow> n_t (h i) \<noteq> None \<Longrightarrow>
     handle_write t i h =
       Some (Ok (), h(i := (h i)\<lparr>n_t := Some t, n_state := NeedsWrite\<rparr>), [WakeNeedsWrite])"
  by (cases "n_state (h i)") (auto simp: handle_write_def)

text \<open>\<open>detach\<close> of an attached node without a handle leaves a fresh node.\<close>

lemma detach_attached:
  assumes "n_taken (h i) = a" and "has_data (n_state (h i)) \<Longrightarrow> n_t (h i) \<noteq> None"
    and "\<not> has_data (n_state (h i)) \<Longrightarrow> n_t (h i) = None"
  shows "detach a i h li =
    Some (Ok (), h(i := (h i)\<lparr>n_t := None, n_state := Initial, n_taken := 0\<rparr>),
          li\<lparr>li_list := remove1 i (li_list li)\<rparr>)"
  using assms
  by (cases "n_state (h i)")
    (auto simp: detach_def detach_reset_def Let_def fun_eq_iff set_state_def set_taken_def)

end
