(* ===== verification/World.thy ===== *)
theory World
  imports Node_Handle
begin

text \<open>
  All that can happen to a set of static nodes: several lists, handles, attaches in flight, and
  the list operations of the workers, interleaved in any order and on any storage, healthy or not.
  One step is one critical section of a list's mutex or one atomic access outside it.

  The safety argument of \<open>safety_guide.rs\<close> is the invariant \<open>safe\<close>: it holds in every reachable
  world, and it excludes every panic and every access to uninitialised data
  (\<open>reachable_safe\<close> and its consequences).
\<close>

section \<open>What the list operations may do to nodes\<close>

text \<open>
  On any storage, a read changes a node only if it is \<open>Initial\<close>, and leaves it with data that was
  decoded or without data.
\<close>

definition read_step :: "'v node \<Rightarrow> 'v node \<Rightarrow> bool" where
  "read_step node node' \<longleftrightarrow>
     node' = node \<or>
     n_state node = Initial \<and> n_key node' = n_key node \<and> n_vtable node' = n_vtable node \<and>
     n_taken node' = n_taken node \<and>
     (n_state node' = ValidNoWriteNeeded \<and> n_t node' \<noteq> None \<or>
      n_state node' = NonResident \<and> n_t node' = n_t node)"

definition heap_read :: "nid list \<Rightarrow> 'v heap \<Rightarrow> 'v heap \<Rightarrow> bool" where
  "heap_read ns h h' \<longleftrightarrow> (\<forall>i. read_step (h i) (h' i) \<and> (i \<notin> set ns \<longrightarrow> h' i = h i))"

lemma read_step_trans: "read_step a b \<Longrightarrow> read_step b c \<Longrightarrow> read_step a c"
  by (auto simp: read_step_def)

lemma heap_read_refl [simp]: "heap_read ns h h"
  by (simp add: heap_read_def read_step_def)

lemma heap_read_trans: "heap_read ns h1 h2 \<Longrightarrow> heap_read ns h2 h3 \<Longrightarrow> heap_read ns h1 h3"
  unfolding heap_read_def by (metis read_step_trans)

lemma hydrate_read_step:
  assumes "n_vtable node = vtable_for_ty c" and "n_state node = Initial"
  shows "read_step node (hydrate_node body node)"
  using assms
  by (cases "cd_decode c body")
    (simp_all add: read_step_def hydrate_node_def vtable_for_ty_def deserialize_def)

lemma hydrate_heap_read:
  assumes "\<forall>i \<in> set ns. \<exists>c. n_vtable (h i) = vtable_for_ty c"
  shows "heap_read ns h (hydrate X ns d h)"
  using assms hydrate_read_step find_node_Some [of h ns]
  by (fastforce simp: hydrate_def heap_read_def read_step_def split: result.splits option.splits state.splits)

lemma heap_read_vtable: "heap_read ns h h' \<Longrightarrow> n_vtable (h' i) = n_vtable (h i)"
  by (auto simp: heap_read_def read_step_def) metis

lemma mark_heap_read: "heap_read ns h (mark_initial_nonresident ns h)"
  by (auto simp: heap_read_def read_step_def mark_initial_at)

lemma extract_loop_heap_read:
  assumes "extract_loop S X b ns seq it h total_read current = Some (res, it', h', n, m)"
    and "\<forall>i \<in> set ns. \<exists>c. n_vtable (h i) = vtable_for_ty c"
  shows "heap_read ns h h'"
proof -
  have "(\<forall>i \<in> set ns. \<exists>c. n_vtable (h i) = vtable_for_ty c) \<longrightarrow> heap_read ns h (fst (snd (snd out)))"
    if "extract_loop S X b ns seq it h total_read current = Some out" for out
    using that
  proof (induction rule: extract_loop.raw_induct [rotated, consumes 1, case_names step])
    case (step loop S X b ns seq it h total_read current out)
    show ?case
    proof
      assume vt: "\<forall>i \<in> set ns. \<exists>c. n_vtable (h i) = vtable_for_ty c"
      have vt': "\<forall>i \<in> set ns. \<exists>c. n_vtable (hydrate X ns d h i) = vtable_for_ty c" for d
        using vt heap_read_vtable [OF hydrate_heap_read [OF vt]] by simp
      show "heap_read ns h (fst (snd (snd out)))"
      proof (cases "\<exists>item it1 d. st_next S b it = NextItem item it1 \<and> st_data S item = Some (Data d)")
        case True
        then obtain item it1 d where "loop S X b ns seq it1 (hydrate X ns d h) (total_read + st_len S item)
            (current + st_len S item) = Some out"
          using step(2) by auto
        then have "heap_read ns (hydrate X ns d h) (fst (snd (snd out)))"
          using step(1) vt' by blast
        with hydrate_heap_read [OF vt] show ?thesis by (rule heap_read_trans)
      next
        case False
        then show ?thesis
          using step(2) by (auto split: next_result.splits option.splits elem.splits)
      qed
    qed
  qed
  from this [OF assms(1)] assms(2) show ?thesis by simp
qed

lemma process_reads_heap_read:
  assumes "process_reads S X buf h li s = Some out"
    and "\<forall>i \<in> set (li_list li). \<exists>c. n_vtable (h i) = vtable_for_ty c"
  shows "heap_read (li_list li) h (o_heap out)" and "li_list (o_inner out) = li_list li"
proof -
  have extracted: "heap_read (li_list li) h h'"
    if "extract_all S X b (li_list li) r s h n m = Some (res, s', h', n', m')" for b r s n m res s' h' n' m'
    using that assms(2)
    by (auto simp: extract_all_def Let_def dest: extract_loop_heap_read
        split: iter_result.splits result.splits prod.splits next_result.splits option.splits if_splits)
  have marked: "heap_read (li_list li) h (mark_initial_nonresident (li_list li) h')"
    if "heap_read (li_list li) h h'" for h'
    using that mark_heap_read by (rule heap_read_trans)
  show "li_list (o_inner out) = li_list li"
    using assms(1) by (auto simp: process_reads_def Let_def split: option.splits result.splits)
  show "heap_read (li_list li) h (o_heap out)"
    using assms(1)
    by (auto simp: process_reads_def Let_def split: option.splits result.splits)
      (blast intro: marked heap_read_refl extracted)+
qed

lemma process_writes_heap:
  assumes "process_writes S X buf h li s = Some out"
  shows "o_heap out = h \<or> o_heap out = mark_written (li_list li) h" and "li_list (o_inner out) = li_list li"
  using assms by (auto simp: process_writes_def Let_def split: option.splits result.splits if_splits)

section \<open>Worlds and steps\<close>

text \<open>
  Who may touch a node's data from outside: an attach in flight (whether the node was attached
  before, and the state it observed, if any), a handle, or a dropped attach future, which leaves
  the node taken.
\<close>

datatype token =
    Attaching bool "state option"
  | Handle
  | Abandoned

record 'v world =
  w_heap :: "'v heap"
  w_lists :: "addr \<Rightarrow> list_inner"
  w_tokens :: "(nid \<times> addr \<times> token) list"

text \<open>Lists are aligned to at least two bytes, which \<open>attach_with_default\<close> asserts.\<close>

definition valid_list :: "addr \<Rightarrow> bool" where
  "valid_list a \<longleftrightarrow> 0 < a \<and> even a"

definition world_init :: "(nid \<Rightarrow> key) \<Rightarrow> (nid \<Rightarrow> 'v codec) \<Rightarrow> nat \<Rightarrow> 'v world" where
  "world_init K C kept =
     \<lparr>w_heap = (\<lambda>i. node_new (K i) (C i)), w_lists = (\<lambda>_. \<lparr>li_list = [], li_seq = seq_new kept\<rparr>), w_tokens = []\<rparr>"

abbreviation set_list :: "addr \<Rightarrow> list_inner \<Rightarrow> 'v heap \<Rightarrow> 'v world \<Rightarrow> 'v world" where
  "set_list a li h w \<equiv> w\<lparr>w_heap := h, w_lists := (w_lists w)(a := li)\<rparr>"

inductive world_step ::
  "('s, 'it, 'item, 'e) storage_ops \<Rightarrow> externs \<Rightarrow> nat \<Rightarrow> 'v world \<Rightarrow> 'v world \<Rightarrow> bool"
  for S :: "('s, 'it, 'item, 'e) storage_ops" and X :: externs and kept :: nat where
  ws_attach: "valid_list a \<Longrightarrow> attach_lock a i (w_heap w) (w_lists w a) = (Ok already, h, li, wk) \<Longrightarrow>
    world_step S X kept w ((set_list a li h w)\<lparr>w_tokens := (i, a, Attaching already None) # w_tokens w\<rparr>)"
| ws_attach_refused: "valid_list a \<Longrightarrow> attach_lock a i (w_heap w) (w_lists w a) = (Err e, h, li, wk) \<Longrightarrow>
    world_step S X kept w (set_list a li h w)"
| ws_observe: "w_tokens w = ts @ (i, a, Attaching already None) # us \<Longrightarrow>
    attach_observe i (w_heap w) = Some st \<Longrightarrow>
    world_step S X kept w (w\<lparr>w_tokens := ts @ (i, a, Attaching already (Some st)) # us\<rparr>)"
| ws_finish: "w_tokens w = ts @ (i, a, Attaching already (Some st)) # us \<Longrightarrow>
    attach_finish dflt already st i (w_heap w) = Some h \<Longrightarrow>
    world_step S X kept w (w\<lparr>w_heap := h, w_tokens := ts @ (i, a, Handle) # us\<rparr>)"
| ws_cancel: "w_tokens w = ts @ (i, a, Attaching already st) # us \<Longrightarrow>
    world_step S X kept w (w\<lparr>w_tokens := ts @ (i, a, Abandoned) # us\<rparr>)"
| ws_handle_write: "(i, a, Handle) \<in> set (w_tokens w) \<Longrightarrow>
    handle_write t i (w_heap w) = Some (r, h, wk) \<Longrightarrow>
    world_step S X kept w (w\<lparr>w_heap := h\<rparr>)"
| ws_handle_drop: "w_tokens w = ts @ (i, a, Handle) # us \<Longrightarrow>
    world_step S X kept w (w\<lparr>w_heap := handle_drop i (w_heap w), w_tokens := ts @ us\<rparr>)"
| ws_detach: "valid_list a \<Longrightarrow> detach a i (w_heap w) (w_lists w a) = Some (r, h, li) \<Longrightarrow>
    world_step S X kept w (set_list a li h w)"
| ws_reads: "valid_list a \<Longrightarrow> process_reads S X buf (w_heap w) (w_lists w a) s = Some out \<Longrightarrow>
    world_step S X kept w (set_list a (o_inner out) (o_heap out) w)"
| ws_writes: "valid_list a \<Longrightarrow> process_writes S X buf (w_heap w) (w_lists w a) s = Some out \<Longrightarrow>
    world_step S X kept w (set_list a (o_inner out) (o_heap out) w)"
| ws_gc_begin: "valid_list a \<Longrightarrow> gc_begin kept (w_lists w a) = Some (cur, li) \<Longrightarrow>
    world_step S X kept w (set_list a li (w_heap w) w)"
| ws_gc_finish: "valid_list a \<Longrightarrow> gc_finish S X b (w_lists w a) s n m = Some (r, li, s') \<Longrightarrow>
    world_step S X kept w (set_list a li (w_heap w) w)"
| ws_reset: "valid_list a \<Longrightarrow>
    world_step S X kept w (set_list a (reset_cache kept (w_lists w a)) (w_heap w) w)"

definition reachable ::
  "('s, 'it, 'item, 'e) storage_ops \<Rightarrow> externs \<Rightarrow> nat \<Rightarrow> (nid \<Rightarrow> key) \<Rightarrow> (nid \<Rightarrow> 'v codec) \<Rightarrow> 'v world \<Rightarrow> bool" where
  "reachable S X kept K C w \<longleftrightarrow> (world_step S X kept)\<^sup>*\<^sup>* (world_init K C kept) w"

section \<open>The invariant\<close>

definition node_wf :: "'v codec \<Rightarrow> 'v node \<Rightarrow> bool" where
  "node_wf c node \<longleftrightarrow> n_vtable node = vtable_for_ty c \<and> (has_data (n_state node) \<longleftrightarrow> n_t node \<noteq> None)"

fun token_state_ok :: "token \<Rightarrow> state \<Rightarrow> bool" where
  "token_state_ok Handle st \<longleftrightarrow> has_data st"
| "token_state_ok Abandoned st \<longleftrightarrow> True"
| "token_state_ok (Attaching already None) st \<longleftrightarrow> (if already then has_data st else st \<noteq> NeedsWrite)"
| "token_state_ok (Attaching already (Some seen)) st \<longleftrightarrow>
     seen = NonResident \<and> st = NonResident \<and> \<not> already \<or>
     has_data seen \<and> has_data st \<and> (seen = NeedsWrite \<longrightarrow> already)"

text \<open>A node with a token is taken, by the list the token names; any other one is free or idle.\<close>

definition token_ok :: "addr \<Rightarrow> token \<Rightarrow> 'v node \<Rightarrow> bool" where
  "token_ok a tk node \<longleftrightarrow> valid_list a \<and> n_taken node = a + 1 \<and> token_state_ok tk (n_state node)"

definition idle_ok :: "'v node \<Rightarrow> bool" where
  "idle_ok node \<longleftrightarrow> n_taken node = 0 \<and> n_state node = Initial \<or>
     valid_list (n_taken node) \<and> has_data (n_state node)"

definition list_ok :: "'v heap \<Rightarrow> addr \<Rightarrow> list_inner \<Rightarrow> bool" where
  "list_ok h a li \<longleftrightarrow> distinct (li_list li) \<and> distinct_keys h (li_list li) \<and>
     (\<forall>i. i \<in> set (li_list li) \<longleftrightarrow> n_taken (h i) = a \<or> n_taken (h i) = a + 1)"

definition safe :: "(nid \<Rightarrow> 'v codec) \<Rightarrow> 'v world \<Rightarrow> bool" where
  "safe C w \<longleftrightarrow>
     (\<forall>i. node_wf (C i) (w_heap w i)) \<and>
     distinct (map fst (w_tokens w)) \<and>
     (\<forall>i a tk. (i, a, tk) \<in> set (w_tokens w) \<longrightarrow> token_ok a tk (w_heap w i)) \<and>
     (\<forall>i. i \<notin> fst ` set (w_tokens w) \<longrightarrow> idle_ok (w_heap w i)) \<and>
     (\<forall>a. valid_list a \<longrightarrow> list_ok (w_heap w) a (w_lists w a))"

lemma safe_init: "safe C (world_init K C kept)"
  by (simp add: safe_def world_init_def node_wf_def node_new_def idle_ok_def list_ok_def distinct_keys_def
      valid_list_def)

section \<open>Every step keeps the invariant\<close>

lemma safe_nodes:
  assumes "safe C w"
  shows "node_wf (C i) (w_heap w i)"
    and "(i, a, tk) \<in> set (w_tokens w) \<Longrightarrow> token_ok a tk (w_heap w i)"
    and "i \<notin> fst ` set (w_tokens w) \<Longrightarrow> idle_ok (w_heap w i)"
    and "valid_list a \<Longrightarrow> list_ok (w_heap w) a (w_lists w a)"
    and "distinct (map fst (w_tokens w))"
  using assms by (auto simp: safe_def)

text \<open>A change of one node, its tokens and the lists.\<close>

lemma safe_update:
  assumes "safe C w" and "node_wf (C i) node'"
    and "distinct (map fst ts)"
    and "\<And>j b tk. j \<noteq> i \<Longrightarrow> (j, b, tk) \<in> set ts \<longleftrightarrow> (j, b, tk) \<in> set (w_tokens w)"
    and "\<And>b tk. (i, b, tk) \<in> set ts \<Longrightarrow> token_ok b tk node'"
    and "i \<notin> fst ` set ts \<Longrightarrow> idle_ok node'"
    and "\<And>b. valid_list b \<Longrightarrow> list_ok ((w_heap w)(i := node')) b (ls b)"
  shows "safe C \<lparr>w_heap = (w_heap w)(i := node'), w_lists = ls, w_tokens = ts\<rparr>"
proof -
  have idle: "idle_ok (w_heap w j)" if "j \<notin> fst ` set ts" "j \<noteq> i" for j
  proof (rule safe_nodes(3) [OF assms(1)])
    show "j \<notin> fst ` set (w_tokens w)"
    proof
      assume "j \<in> fst ` set (w_tokens w)"
      then obtain b tk where "(j, b, tk) \<in> set (w_tokens w)" by auto
      then have "(j, b, tk) \<in> set ts" using assms(4) that(2) by simp
      then show False using that(1) by (force simp: image_iff)
    qed
  qed
  have token: "token_ok b tk (w_heap w j)" if "(j, b, tk) \<in> set ts" "j \<noteq> i" for j b tk
    using safe_nodes(2) [OF assms(1)] assms(4) that by blast
  show ?thesis
    unfolding safe_def
  proof (intro conjI allI impI)
    show "node_wf (C j) (w_heap \<lparr>w_heap = (w_heap w)(i := node'), w_lists = ls, w_tokens = ts\<rparr> j)" for j
      using assms(2) safe_nodes(1) [OF assms(1)] by simp
    show "token_ok b tk (w_heap \<lparr>w_heap = (w_heap w)(i := node'), w_lists = ls, w_tokens = ts\<rparr> j)"
      if "(j, b, tk) \<in> set (w_tokens \<lparr>w_heap = (w_heap w)(i := node'), w_lists = ls, w_tokens = ts\<rparr>)" for j b tk
      using that assms(5) token by (cases "j = i") simp_all
    show "idle_ok (w_heap \<lparr>w_heap = (w_heap w)(i := node'), w_lists = ls, w_tokens = ts\<rparr> j)"
      if "j \<notin> fst ` set (w_tokens \<lparr>w_heap = (w_heap w)(i := node'), w_lists = ls, w_tokens = ts\<rparr>)" for j
      using that assms(6) idle by (cases "j = i") simp_all
  qed (use assms(3,7) in simp_all)
qed

lemma list_ok_cong:
  assumes "\<And>j. n_key (h' j) = n_key (h j)"
    and "\<And>j. n_taken (h' j) = b \<or> n_taken (h' j) = Suc b \<longleftrightarrow> n_taken (h j) = b \<or> n_taken (h j) = Suc b"
  shows "list_ok h' b li \<longleftrightarrow> list_ok h b li"
  by (simp add: list_ok_def distinct_keys_def inj_on_def assms)

lemma list_ok_update:
  assumes "n_key node' = n_key (h i)"
    and "n_taken node' = b \<or> n_taken node' = b + 1 \<longleftrightarrow> n_taken (h i) = b \<or> n_taken (h i) = b + 1"
  shows "list_ok (h(i := node')) b li \<longleftrightarrow> list_ok h b li"
  by (rule list_ok_cong) (use assms in simp_all)

lemma list_ok_seq: "list_ok h a (li\<lparr>li_seq := q\<rparr>) = list_ok h a li"
  by (simp add: list_ok_def)

text \<open>A change of many nodes that keeps keys and pointers.\<close>

lemma safe_heap:
  assumes "safe C w"
    and "\<And>i. n_key (h i) = n_key (w_heap w i) \<and> n_taken (h i) = n_taken (w_heap w i)"
    and "\<And>i. node_wf (C i) (h i)"
    and "\<And>i a tk. token_ok a tk (w_heap w i) \<Longrightarrow> token_ok a tk (h i)"
    and "\<And>i. idle_ok (w_heap w i) \<Longrightarrow> idle_ok (h i)"
    and "li_list li = li_list (w_lists w a)"
  shows "safe C (set_list a li h w)"
proof -
  have "list_ok h b (w_lists w b)" if "valid_list b" for b
    using safe_nodes(4) [OF assms(1) that] list_ok_cong [of h "w_heap w" b "w_lists w b"] assms(2) by simp
  then have lists: "list_ok h b (((w_lists w)(a := li)) b)" if "valid_list b" for b
    using that [THEN \<open>\<And>b. valid_list b \<Longrightarrow> list_ok h b (w_lists w b)\<close>] assms(6) by (cases "b = a") (simp_all add: list_ok_def)
  show ?thesis
    unfolding safe_def
    by (intro conjI allI impI) (use assms(3-5) lists safe_nodes [OF assms(1)] in simp_all)
qed

lemma safe_seq: "safe C w \<Longrightarrow> li_list li = li_list (w_lists w a) \<Longrightarrow> safe C (set_list a li (w_heap w) w)"
  by (rule safe_heap) (auto simp: safe_nodes)

lemma safe_reads:
  assumes "safe C w" and "valid_list a" and "heap_read (li_list (w_lists w a)) (w_heap w) h"
    and "li_list li = li_list (w_lists w a)"
  shows "safe C (set_list a li h w)"
proof (rule safe_heap [OF assms(1)])
  have step: "read_step (w_heap w i) (h i)" for i
    using assms(3) by (simp add: heap_read_def)
  show "n_key (h i) = n_key (w_heap w i) \<and> n_taken (h i) = n_taken (w_heap w i)" for i
    using step [of i] by (auto simp: read_step_def)
  show "node_wf (C i) (h i)" for i
    using step [of i] safe_nodes(1) [OF assms(1), of i] by (auto simp: read_step_def node_wf_def)
  show "token_ok b tk (h i)" if "token_ok b tk (w_heap w i)" for i b tk
    using step [of i] that
    by (cases "(tk, n_state (w_heap w i))" rule: token_state_ok.cases) (auto simp: read_step_def token_ok_def)
  show "idle_ok (h i)" if "idle_ok (w_heap w i)" for i
  proof (cases "i \<in> set (li_list (w_lists w a))")
    case True
    then have "n_taken (w_heap w i) \<noteq> 0"
      using safe_nodes(4) [OF assms(1,2)] assms(2) by (auto simp: list_ok_def valid_list_def)
    then show ?thesis using step [of i] that by (auto simp: read_step_def idle_ok_def)
  next
    case False
    then show ?thesis using assms(3) that by (simp add: heap_read_def)
  qed
qed (fact assms(4))

lemma safe_writes:
  assumes "safe C w" and "li_list li = li_list (w_lists w a)"
  shows "safe C (set_list a li (mark_written ns (w_heap w)) w)"
proof (rule safe_heap [OF assms(1) _ _ _ _ assms(2)])
  show "node_wf (C i) (mark_written ns (w_heap w) i)" for i
    using safe_nodes(1) [OF assms(1), of i] by (auto simp: node_wf_def mark_written_state)
  show "token_ok b tk (mark_written ns (w_heap w) i)" if "token_ok b tk (w_heap w i)" for i b tk
    using that
    by (cases "(tk, n_state (w_heap w i))" rule: token_state_ok.cases) (auto simp: token_ok_def mark_written_state)
  show "idle_ok (mark_written ns (w_heap w) i)" if "idle_ok (w_heap w i)" for i
    using that by (auto simp: idle_ok_def mark_written_state)
qed simp

text \<open>A step of one token that leaves keys, pointers and lists alone.\<close>

lemma token_at:
  assumes "distinct (map fst (ts @ (i, a, tk) # us))" and "(i, b, tk') \<in> set (ts @ (i, a, tk) # us)"
  shows "b = a \<and> tk' = tk"
  using assms by (force simp: image_iff)

lemma safe_token:
  assumes "safe C w" and "w_tokens w = ts @ (i, a, tk) # us"
    and "node_wf (C i) node'" "n_key node' = n_key (w_heap w i)" "n_taken node' = n_taken (w_heap w i)"
    and "token_ok a tk' node'"
  shows "safe C (w\<lparr>w_heap := (w_heap w)(i := node'), w_tokens := ts @ (i, a, tk') # us\<rparr>)"
proof -
  have distinct: "distinct (map fst (ts @ (i, a, tk') # us))"
    using safe_nodes(5) [OF assms(1)] assms(2) by simp
  have "safe C \<lparr>w_heap = (w_heap w)(i := node'), w_lists = w_lists w, w_tokens = ts @ (i, a, tk') # us\<rparr>"
  proof (rule safe_update [OF assms(1,3) distinct])
    show "token_ok b t node'" if "(i, b, t) \<in> set (ts @ (i, a, tk') # us)" for b t
      using token_at [OF distinct that] assms(6) by simp
    show "list_ok ((w_heap w)(i := node')) b (w_lists w b)" if "valid_list b" for b
      using list_ok_update [of node' "w_heap w" i b] safe_nodes(4) [OF assms(1) that] assms(4,5) by simp
  qed (use assms(2) in auto)
  then show ?thesis by (cases w) simp
qed

lemma safe_token_only:
  assumes "safe C w" and "w_tokens w = ts @ (i, a, tk) # us" and "token_ok a tk' (w_heap w i)"
  shows "safe C (w\<lparr>w_tokens := ts @ (i, a, tk') # us\<rparr>)"
  using safe_token [OF assms(1,2) safe_nodes(1) [OF assms(1)] _ _ assms(3)] by simp

lemma token_in: "w_tokens w = ts @ (i, a, tk) # us \<Longrightarrow> safe C w \<Longrightarrow> token_ok a tk (w_heap w i)"
  by (rule safe_nodes(2)) auto

subsection \<open>Attaching\<close>

lemma attach_lock_cases:
  obtains (again) "n_taken (h i) = a" "0 < a"
      "attach_lock a i h li = (Ok True, set_taken i (a + 1) h, li, [WakeNeedsRead])"
  | (first) "n_taken (h i) = 0" "find_node h (li_list li) (n_key (h i)) = None"
      "attach_lock a i h li = (Ok False, set_taken i (a + 1) h, li\<lparr>li_list := i # li_list li\<rparr>, [WakeNeedsRead])"
  | (duplicate) "n_taken (h i) = 0" "find_node h (li_list li) (n_key (h i)) \<noteq> None"
      "attach_lock a i h li = (Err DuplicateKey, h, li, [])"
  | (taken) "n_taken (h i) = a + 1" "attach_lock a i h li = (Err AlreadyTaken, h, li, [])"
  | (other) "n_taken (h i) \<notin> {0, a, a + 1}" "attach_lock a i h li = (Err NodeInOtherList, h, li, [])"
proof -
  consider "n_taken (h i) = 0" | "n_taken (h i) = a" "0 < a" | "n_taken (h i) = a + 1"
    | "n_taken (h i) \<notin> {0, a, a + 1}" by auto
  then show thesis
  proof cases
    case 1
    have "set_taken i 0 h = h" using 1 set_taken_same [of i h] by simp
    with 1 first duplicate show thesis
      by (cases "find_node h (li_list li) (n_key (h i))") (auto simp: attach_lock_def Let_def)
  qed (use again taken other in \<open>auto simp: attach_lock_def Let_def\<close>)
qed

text \<open>A node whose mark is no list's \<open>Attaching\<close> mark has no token.\<close>

lemma safe_no_token:
  assumes "safe C w" and "n_taken (w_heap w i) = 0 \<or> valid_list (n_taken (w_heap w i))"
  shows "i \<notin> fst ` set (w_tokens w)"
proof
  assume "i \<in> fst ` set (w_tokens w)"
  then obtain b tk where "(i, b, tk) \<in> set (w_tokens w)" by auto
  then have "valid_list b" "n_taken (w_heap w i) = b + 1"
    using safe_nodes(2) [OF assms(1)] by (auto simp: token_ok_def)
  then show False using assms(2) by (auto simp: valid_list_def)
qed

text \<open>A list that gains a free node with a fresh key, and a list that loses a node.\<close>

lemma list_ok_gain:
  assumes "list_ok h a li" and "valid_list a" and "n_taken (h i) = 0"
    and "find_node h (li_list li) (n_key (h i)) = None"
    and node: "n_key node = n_key (h i)" "n_taken node = a + 1"
  shows "list_ok (h(i := node)) a (li\<lparr>li_list := i # li_list li\<rparr>)"
proof -
  have fresh: "i \<notin> set (li_list li)"
    using assms(1-3) by (simp add: list_ok_def valid_list_def)
  have key: "(\<lambda>j. n_key ((h(i := node)) j)) = (\<lambda>j. n_key (h j))" by (auto simp: node)
  have "n_key (h i) \<notin> (\<lambda>j. n_key (h j)) ` set (li_list li)"
    using assms(4) by (simp add: find_node_None)
  then have "distinct_keys (h(i := node)) (i # li_list li)"
    using assms(1) fresh by (simp add: distinct_keys_def list_ok_def key del: fun_upd_apply)
  then show ?thesis using assms(1) fresh node(2) by (simp add: list_ok_def)
qed

lemma list_ok_lose:
  assumes "list_ok h a li" and "valid_list a"
    and node: "n_key node = n_key (h i)" "n_taken node = 0"
  shows "list_ok (h(i := node)) a (li\<lparr>li_list := remove1 i (li_list li)\<rparr>)"
proof -
  have key: "(\<lambda>j. n_key ((h(i := node)) j)) = (\<lambda>j. n_key (h j))" by (auto simp: node)
  have "distinct_keys (h(i := node)) (remove1 i (li_list li))"
    using assms(1) by (auto simp: distinct_keys_def list_ok_def key simp del: fun_upd_apply intro: inj_on_subset)
  moreover have "j \<in> set (remove1 i (li_list li)) \<longleftrightarrow>
      n_taken ((h(i := node)) j) = a \<or> n_taken ((h(i := node)) j) = a + 1" for j
    using assms(1,2) node(2) by (auto simp: list_ok_def valid_list_def)
  ultimately show ?thesis using assms(1) by (simp add: list_ok_def)
qed

lemma safe_attach:
  assumes "safe C w" and "valid_list a"
    and "attach_lock a i (w_heap w) (w_lists w a) = (Ok already, h, li, wk)"
  shows "safe C ((set_list a li h w)\<lparr>w_tokens := (i, a, Attaching already None) # w_tokens w\<rparr>)"
proof -
  let ?node = "(w_heap w i)\<lparr>n_taken := a + 1\<rparr>"
  have "n_taken (w_heap w i) = (if already then a else 0) \<and> h = (w_heap w)(i := ?node) \<and>
      (if already then li = w_lists w a
       else li = (w_lists w a)\<lparr>li_list := i # li_list (w_lists w a)\<rparr> \<and>
         find_node (w_heap w) (li_list (w_lists w a)) (n_key (w_heap w i)) = None)"
    using assms(3) by (cases rule: attach_lock_cases [of "w_heap w" i a "w_lists w a"]) (auto simp: set_taken_def)
  then have taken: "n_taken (w_heap w i) = (if already then a else 0)" "h = (w_heap w)(i := ?node)"
    and li: "if already then li = w_lists w a
       else li = (w_lists w a)\<lparr>li_list := i # li_list (w_lists w a)\<rparr> \<and>
         find_node (w_heap w) (li_list (w_lists w a)) (n_key (w_heap w i)) = None"
    by simp_all
  have free: "i \<notin> fst ` set (w_tokens w)"
    using safe_no_token [OF assms(1), of i] taken(1) assms(2) by (simp split: if_splits)
  have state: "if already then has_data (n_state (w_heap w i)) else n_state (w_heap w i) = Initial"
    using safe_nodes(3) [OF assms(1) free] taken(1) assms(2) by (auto simp: idle_ok_def valid_list_def)
  have lists: "list_ok h b (((w_lists w)(a := li)) b)" if "valid_list b" for b
  proof (cases "already \<or> b \<noteq> a")
    case True
    then have "((w_lists w)(a := li)) b = w_lists w b" using li by auto
    moreover have "a + 1 = b \<or> a + 1 = b + 1 \<longleftrightarrow> n_taken (w_heap w i) = b \<or> n_taken (w_heap w i) = b + 1"
      using True taken(1) assms(2) that by (auto simp: valid_list_def)
    ultimately show ?thesis
      using list_ok_update [of ?node "w_heap w" i b] safe_nodes(4) [OF assms(1) that] taken(2) by simp
  next
    case False
    then have "list_ok (w_heap w) a (w_lists w a)" "n_taken (w_heap w i) = 0"
      "find_node (w_heap w) (li_list (w_lists w a)) (n_key (w_heap w i)) = None"
      using safe_nodes(4) [OF assms(1,2)] taken(1) li by simp_all
    from list_ok_gain [OF this(1) assms(2) this(2,3), of ?node] show ?thesis
      using False li taken(2) by simp
  qed
  have "safe C \<lparr>w_heap = (w_heap w)(i := ?node), w_lists = (w_lists w)(a := li),
      w_tokens = (i, a, Attaching already None) # w_tokens w\<rparr>"
  proof (rule safe_update [OF assms(1)])
    show "node_wf (C i) ?node" using safe_nodes(1) [OF assms(1), of i] by (simp add: node_wf_def)
    show "token_ok b tk ?node" if "(i, b, tk) \<in> set ((i, a, Attaching already None) # w_tokens w)" for b tk
      using that free state assms(2) by (force simp: token_ok_def)
  qed (use safe_nodes(5) [OF assms(1)] free lists taken(2) in auto)
  then show ?thesis using taken(2) by (cases w) simp
qed

lemma set_list_same [simp]: "set_list a (w_lists w a) (w_heap w) w = w"
  by (cases w) simp

lemma safe_attach_refused:
  assumes "safe C w" and "attach_lock a i (w_heap w) (w_lists w a) = (Err e, h, li, wk)"
  shows "safe C (set_list a li h w)"
proof -
  have "h = w_heap w \<and> li = w_lists w a"
    using assms(2) by (cases rule: attach_lock_cases [of "w_heap w" i a "w_lists w a"]) auto
  then show ?thesis using assms(1) by simp
qed

lemma safe_observe:
  assumes "safe C w" and "w_tokens w = ts @ (i, a, Attaching already None) # us"
    and "attach_observe i (w_heap w) = Some st"
  shows "safe C (w\<lparr>w_tokens := ts @ (i, a, Attaching already (Some st)) # us\<rparr>)"
proof (rule safe_token_only [OF assms(1,2)])
  have "st = n_state (w_heap w i)" "st \<noteq> Initial"
    using assms(3) by (auto simp: attach_observe_def split: if_splits)
  then show "token_ok a (Attaching already (Some st)) (w_heap w i)"
    using token_in [OF assms(2,1)] by (cases st) (auto simp: token_ok_def split: if_splits)
qed

lemma safe_finish:
  assumes "safe C w" and "w_tokens w = ts @ (i, a, Attaching already (Some st)) # us"
  shows "\<exists>h. attach_finish dflt already st i (w_heap w) = Some h"
    and "attach_finish dflt already st i (w_heap w) = Some h \<Longrightarrow>
      safe C (w\<lparr>w_heap := h, w_tokens := ts @ (i, a, Handle) # us\<rparr>)"
proof -
  note ok = token_in [OF assms(2,1)]
  then show "\<exists>h. attach_finish dflt already st i (w_heap w) = Some h"
    by (cases st) (auto simp: attach_finish_def token_ok_def)
  assume finish: "attach_finish dflt already st i (w_heap w) = Some h"
  let ?node = "if st = NonResident then (w_heap w i)\<lparr>n_t := Some dflt, n_state := NeedsWrite\<rparr> else w_heap w i"
  have h: "h = (w_heap w)(i := ?node)"
    using finish by (auto simp: attach_finish_def split: state.splits if_splits)
  show "safe C (w\<lparr>w_heap := h, w_tokens := ts @ (i, a, Handle) # us\<rparr>)"
    unfolding h
  proof (rule safe_token [OF assms])
    show "node_wf (C i) ?node" using safe_nodes(1) [OF assms(1), of i] by (auto simp: node_wf_def)
    show "token_ok a Handle ?node" using ok by (auto simp: token_ok_def)
  qed simp_all
qed

lemma safe_cancel:
  assumes "safe C w" and "w_tokens w = ts @ (i, a, tk) # us"
  shows "safe C (w\<lparr>w_tokens := ts @ (i, a, Abandoned) # us\<rparr>)"
  using safe_token_only [OF assms, of Abandoned] token_in [OF assms(2,1)] by (simp add: token_ok_def)

subsection \<open>Handles\<close>

lemma safe_handle:
  assumes "safe C w" and "(i, a, Handle) \<in> set (w_tokens w)"
  shows "has_data (n_state (w_heap w i))" and "n_t (w_heap w i) \<noteq> None" and "n_taken (w_heap w i) = a + 1"
  using safe_nodes(1) [OF assms(1), of i] safe_nodes(2) [OF assms] by (simp_all add: token_ok_def node_wf_def)

lemma safe_handle_write:
  assumes "safe C w" and "(i, a, Handle) \<in> set (w_tokens w)" and "handle_write t i (w_heap w) = Some (r, h, wk)"
  shows "safe C (w\<lparr>w_heap := h\<rparr>)"
proof -
  let ?node = "(w_heap w i)\<lparr>n_t := Some t, n_state := NeedsWrite\<rparr>"
  have h: "h = (w_heap w)(i := ?node)"
    using assms(3) handle_write_ok [where h = "w_heap w" and i = i] safe_handle [OF assms(1,2)] by simp
  obtain ts us where split: "w_tokens w = ts @ (i, a, Handle) # us"
    using assms(2) by (auto simp: in_set_conv_decomp)
  have "safe C (w\<lparr>w_heap := (w_heap w)(i := ?node), w_tokens := ts @ (i, a, Handle) # us\<rparr>)"
  proof (rule safe_token [OF assms(1) split])
    show "node_wf (C i) ?node" using safe_nodes(1) [OF assms(1), of i] by (simp add: node_wf_def)
    show "token_ok a Handle ?node" using safe_nodes(2) [OF assms(1,2)] by (simp add: token_ok_def)
  qed simp_all
  then show ?thesis using split h by (cases w) simp
qed

lemma safe_handle_drop:
  assumes "safe C w" and "w_tokens w = ts @ (i, a, Handle) # us"
  shows "safe C (w\<lparr>w_heap := handle_drop i (w_heap w), w_tokens := ts @ us\<rparr>)"
proof -
  let ?node = "(w_heap w i)\<lparr>n_taken := a\<rparr>"
  note ok = token_in [OF assms(2,1)]
  have h: "handle_drop i (w_heap w) = (w_heap w)(i := ?node)"
    using ok by (simp add: handle_drop_def set_taken_def token_ok_def)
  have gone: "i \<notin> fst ` set (ts @ us)" "distinct (map fst (ts @ us))"
    using safe_nodes(5) [OF assms(1)] assms(2) by auto
  have "safe C \<lparr>w_heap = (w_heap w)(i := ?node), w_lists = w_lists w, w_tokens = ts @ us\<rparr>"
  proof (rule safe_update [OF assms(1) _ gone(2)])
    show "node_wf (C i) ?node" using safe_nodes(1) [OF assms(1), of i] by (simp add: node_wf_def)
    show "idle_ok ?node" using ok by (simp add: idle_ok_def token_ok_def)
    show "token_ok b tk ?node" if "(i, b, tk) \<in> set (ts @ us)" for b tk
      using that gone(1) by (force simp: image_iff)
    show "list_ok ((w_heap w)(i := ?node)) b (w_lists w b)" if "valid_list b" for b
    proof -
      have "a = b \<or> a = b + 1 \<longleftrightarrow> n_taken (w_heap w i) = b \<or> n_taken (w_heap w i) = b + 1"
        using ok that by (auto simp: token_ok_def valid_list_def)
      then show ?thesis
        using list_ok_update [of ?node "w_heap w" i b] safe_nodes(4) [OF assms(1) that] by simp
    qed
  qed (use assms(2) in auto)
  then show ?thesis using h by (cases w) simp
qed

subsection \<open>Detaching\<close>

lemma safe_detach:
  assumes "safe C w" and "valid_list a"
  shows "\<exists>r h li. detach a i (w_heap w) (w_lists w a) = Some (r, h, li)"
    and "detach a i (w_heap w) (w_lists w a) = Some (r, h, li) \<Longrightarrow> safe C (set_list a li h w)"
proof -
  let ?node = "(w_heap w i)\<lparr>n_t := None, n_state := Initial, n_taken := 0\<rparr>"
  have attached: "detach a i (w_heap w) (w_lists w a) =
      Some (Ok (), (w_heap w)(i := ?node), (w_lists w a)\<lparr>li_list := remove1 i (li_list (w_lists w a))\<rparr>)"
    if "n_taken (w_heap w i) = a"
    by (rule detach_attached)
      (use that safe_nodes(1) [OF assms(1), of i] in \<open>simp_all add: node_wf_def\<close>)
  have refused: "\<exists>r. detach a i (w_heap w) (w_lists w a) = Some (r, w_heap w, w_lists w a)"
    if "n_taken (w_heap w i) \<noteq> a"
    using that by (simp add: detach_def Let_def)
  show "\<exists>r h li. detach a i (w_heap w) (w_lists w a) = Some (r, h, li)"
    using attached refused by blast
  assume run: "detach a i (w_heap w) (w_lists w a) = Some (r, h, li)"
  show "safe C (set_list a li h w)"
  proof (cases "n_taken (w_heap w i) = a")
    case False
    then show ?thesis using refused run assms(1) by auto
  next
    case True
    have new: "h = (w_heap w)(i := ?node)" "li = (w_lists w a)\<lparr>li_list := remove1 i (li_list (w_lists w a))\<rparr>"
      using run attached [OF True] by simp_all
    have free: "i \<notin> fst ` set (w_tokens w)"
      using safe_no_token [OF assms(1), of i] True assms(2) by simp
    have lists: "list_ok h b (((w_lists w)(a := li)) b)" if "valid_list b" for b
    proof (cases "b = a")
      case False
      then have "0 = b \<or> 0 = b + 1 \<longleftrightarrow> n_taken (w_heap w i) = b \<or> n_taken (w_heap w i) = b + 1"
        using True that assms(2) by (auto simp: valid_list_def)
      then show ?thesis
        using False new(1) list_ok_update [of ?node "w_heap w" i b] safe_nodes(4) [OF assms(1) that] by simp
    next
      case b: True
      from list_ok_lose [OF safe_nodes(4) [OF assms] assms(2), of ?node i] show ?thesis
        by (simp add: b new)
    qed
    have "safe C \<lparr>w_heap = (w_heap w)(i := ?node), w_lists = (w_lists w)(a := li), w_tokens = w_tokens w\<rparr>"
    proof (rule safe_update [OF assms(1)])
      show "node_wf (C i) ?node" using safe_nodes(1) [OF assms(1), of i] by (simp add: node_wf_def)
      show "token_ok b tk ?node" if "(i, b, tk) \<in> set (w_tokens w)" for b tk
        using that free by (force simp: image_iff)
    qed (use safe_nodes(5) [OF assms(1)] lists new(1) in \<open>simp_all add: idle_ok_def\<close>)
    then show ?thesis using new(1) by (cases w) simp
  qed
qed

section \<open>Reachable worlds are safe\<close>

lemma gc_begin_list: "gc_begin kept li = Some (cur, li') \<Longrightarrow> li_list li' = li_list li"
  by (auto simp: gc_begin_def split: if_splits)

lemma gc_finish_list: "gc_finish S X b li s n m = Some (r, li', s') \<Longrightarrow> li_list li' = li_list li"
  by (auto simp: gc_finish_def split: option.splits result.splits)

lemma step_safe: "world_step S X kept w w' \<Longrightarrow> safe C w \<Longrightarrow> safe C w'"
proof (induction rule: world_step.induct)
  case (ws_reads a buf w s out)
  have "\<forall>i \<in> set (li_list (w_lists w a)). \<exists>c. n_vtable (w_heap w i) = vtable_for_ty c"
    using safe_nodes(1) [OF ws_reads.prems] by (auto simp: node_wf_def)
  from process_reads_heap_read [OF ws_reads.hyps(2) this] show ?case
    using safe_reads [OF ws_reads.prems ws_reads.hyps(1)] by simp
next
  case (ws_writes a buf w s out)
  from process_writes_heap [OF ws_writes.hyps(2)] show ?case
    using safe_writes [OF ws_writes.prems] safe_seq [OF ws_writes.prems] by auto
next
  case (ws_gc_begin a w cur li)
  then show ?case by (intro safe_seq) (auto dest: gc_begin_list)
next
  case (ws_gc_finish a b w s n m r li s')
  then show ?case by (intro safe_seq) (auto dest: gc_finish_list)
next
  case (ws_reset a w)
  then show ?case by (intro safe_seq) (simp_all add: reset_cache_def)
qed (blast intro: safe_attach safe_attach_refused safe_observe safe_finish(2) safe_cancel
    safe_handle_write safe_handle_drop safe_detach(2))+

lemma reachable_safe: "reachable S X kept K C w \<Longrightarrow> safe C w"
  unfolding reachable_def
  by (induction rule: rtranclp_induct) (auto simp: safe_init intro: step_safe)

lemma safe_heap_ok: "safe C w \<Longrightarrow> heap_ok C (w_heap w) I"
  using safe_nodes(1) [of C w] by (simp add: heap_ok_def node_wf_def)

section \<open>States move along the diagram\<close>

lemma read_step_transition: "read_step a b \<Longrightarrow> n_state b = n_state a \<or> transition (n_state a) (n_state b)"
  by (auto simp: read_step_def intro: transition.intros)

lemma mark_written_transition: "n_state (mark_written ns h i) = n_state (h i) \<or>
    transition (n_state (h i)) (n_state (mark_written ns h i))"
  by (auto simp: mark_written_state intro: transition.intros)

lemma attach_lock_state: "attach_lock a i h li = (r, h', li', wk) \<Longrightarrow> n_state (h' j) = n_state (h j)"
  by (cases rule: attach_lock_cases [of h i a li]) auto

lemma detach_state: "detach a i h li = Some (r, h', li') \<Longrightarrow> n_state (h' j) = n_state (h j) \<or> n_state (h' j) = Initial"
  by (auto simp: detach_def detach_reset_def Let_def split: state.splits if_splits option.splits)

lemma step_transition:
  assumes "world_step S X kept w w'" and "safe C w"
  shows "n_state (w_heap w' j) = n_state (w_heap w j) \<or> transition (n_state (w_heap w j)) (n_state (w_heap w' j))"
  using assms
proof (induction rule: world_step.induct)
  case (ws_finish w ts i a already st us dflt h)
  have "token_ok a (Attaching already (Some st)) (w_heap w i)"
    by (rule token_in [OF ws_finish.hyps(1) ws_finish.prems])
  with ws_finish.hyps(2) show ?case
    by (cases st) (auto simp: attach_finish_def token_ok_def transition_to_NeedsWrite split: if_splits)
next
  case (ws_handle_write i a w t r h wk)
  have "has_data (n_state (w_heap w i))" "n_t (w_heap w i) \<noteq> None"
    using safe_handle [OF ws_handle_write.prems ws_handle_write.hyps(1)] by simp_all
  with ws_handle_write.hyps(2) show ?case
    by (auto simp: handle_write_ok has_data_def transition_to_NeedsWrite)
next
  case (ws_detach a i w r h li)
  then show ?case using detach_state [OF ws_detach.hyps(2), of j] by (auto intro: t6)
next
  case (ws_reads a buf w s out)
  have "\<forall>i \<in> set (li_list (w_lists w a)). \<exists>c. n_vtable (w_heap w i) = vtable_for_ty c"
    using safe_nodes(1) [OF ws_reads.prems] by (auto simp: node_wf_def)
  from process_reads_heap_read(1) [OF ws_reads.hyps(2) this] show ?case
    by (auto simp: heap_read_def dest: read_step_transition)
next
  case (ws_writes a buf w s out)
  then show ?case using process_writes_heap(1) [OF ws_writes.hyps(2)]
      mark_written_transition [of "li_list (w_lists w a)" "w_heap w" j] by auto
qed (auto simp: handle_drop_def attach_lock_state)

lemma reachable_step: "reachable S X kept K C w \<Longrightarrow> world_step S X kept w w' \<Longrightarrow> reachable S X kept K C w'"
  unfolding reachable_def by (rule rtranclp.rtrancl_into_rtrancl)

end
