(* ===== verification/Concrete_Codecs.thy ===== *)
theory Concrete_Codecs
  imports World
begin

text \<open>
  A concrete instance of the third-party parts, for the witnesses: CBOR text strings and unsigned
  integers as minicbor encodes them, and the checksum \<open>CRC_32_CKSUM\<close> of the \<open>crc\<close> crate that
  \<open>Crc32\<close> in \<open>lib.rs\<close> selects. \<open>crc_cksum_vectors\<close> checks the latter, and with it the bytes of a
  record, against the snapshot in \<open>tests/gc_handles_bad_contents.rs\<close>.

  Strings of 256 bytes and more are encoded in chunks of one byte here, which CBOR allows and
  minicbor does not do; no witness uses one.
\<close>

section \<open>CBOR\<close>

definition byte_of_char :: "char \<Rightarrow> u8" where
  "byte_of_char c = of_nat (of_char c)"

definition char_of_byte :: "u8 \<Rightarrow> char" where
  "char_of_byte b = char_of (unat b)"

lemma char_of_byte_of_char [simp]: "char_of_byte (byte_of_char c) = c"
  by (simp add: char_of_byte_def byte_of_char_def unat_of_nat)

definition cbor_text :: "key \<Rightarrow> u8 list" where
  "cbor_text k =
     (if length k < 24 then of_nat (0x60 + length k) # map byte_of_char k
      else if length k < 256 then 0x78 # of_nat (length k) # map byte_of_char k
      else 0x7F # concat (map (\<lambda>c. [0x61, byte_of_char c]) k) @ [0xFF])"

fun cbor_chunks :: "u8 list \<Rightarrow> key option" where
  "cbor_chunks (t # b # r) =
     (if t = 0xFF then Some []
      else if t = 0x61 then map_option (Cons (char_of_byte b)) (cbor_chunks r) else None)"
| "cbor_chunks [t] = (if t = 0xFF then Some [] else None)"
| "cbor_chunks [] = None"

definition cbor_take :: "nat \<Rightarrow> u8 list \<Rightarrow> key option" where
  "cbor_take n r = (if n \<le> length r then Some (map char_of_byte (take n r)) else None)"

definition cbor_text_decode :: "u8 list \<Rightarrow> key option" where
  "cbor_text_decode bs =
     (case bs of
        [] \<Rightarrow> None
      | b # r \<Rightarrow>
          if 0x60 \<le> unat b \<and> unat b < 0x78 then cbor_take (unat b - 0x60) r
          else if b = 0x78 then (case r of [] \<Rightarrow> None | n # r' \<Rightarrow> cbor_take (unat n) r')
          else if b = 0x7F then cbor_chunks r
          else None)"

lemma cbor_chunks_encoded: "cbor_chunks (concat (map (\<lambda>c. [0x61, byte_of_char c]) k) @ 0xFF # rest) = Some k"
  by (induction k) (cases rest, simp_all)

lemma cbor_take_encoded [simp]: "n = length k \<Longrightarrow> cbor_take n (map byte_of_char k @ rest) = Some k"
  by (simp add: cbor_take_def comp_def)

lemma cbor_text_roundtrip: "cbor_text_decode (cbor_text k @ rest) = Some k"
proof -
  have "unat (of_nat (0x60 + length k) :: u8) = 0x60 + length k" if "length k < 24"
    using that by (simp add: unat_of_nat del: of_nat_add)
  moreover have "unat (of_nat (length k) :: u8) = length k" if "length k < 256"
    using that by (simp add: unat_of_nat)
  ultimately show ?thesis
    using cbor_chunks_encoded [of k rest]
    by (simp add: cbor_text_def cbor_text_decode_def del: of_nat_add)
qed

section \<open>CRC-32/CKSUM\<close>

text \<open>The register is a number below \<open>2 ^ 32\<close>; one step shifts out the top bit.\<close>

definition crc_bit :: "int \<Rightarrow> int" where
  "crc_bit c = (if c < 0x80000000 then 2 * c else (2 * (c - 0x80000000)) XOR 0x04C11DB7)"

definition crc_byte :: "int \<Rightarrow> int \<Rightarrow> int" where
  "crc_byte c b =
     crc_bit (crc_bit (crc_bit (crc_bit (crc_bit (crc_bit (crc_bit (crc_bit (c XOR b * 0x1000000))))))))"

fun crc_fold :: "int \<Rightarrow> int list \<Rightarrow> int" where
  "crc_fold c [] = c"
| "crc_fold c (b # bs) = crc_fold (crc_byte c b) bs"

definition crc_cksum :: "u8 list \<Rightarrow> u32" where
  "crc_cksum bs = word_of_int (crc_fold 0 (map uint bs) XOR 0xFFFFFFFF)"

section \<open>The instance\<close>

definition cbor_externs :: externs where
  "cbor_externs =
     \<lparr>ext_crc = crc_cksum, str_encode = cbor_text, str_decode = cbor_text_decode,
      str_len = (\<lambda>k. length (cbor_text k))\<rparr>"

lemma cbor_externs_ok: "externs_ok cbor_externs"
  by (simp add: externs_ok_def cbor_externs_def cbor_text_roundtrip)
    (simp add: cbor_text_def)

text \<open>
  \<open>SimpleConfig\<close> of the integration tests: an array of one unsigned integer, here below 256.
\<close>

definition cfg_encode :: "u8 \<Rightarrow> u8 list" where
  "cfg_encode v = 0x81 # (if v < 24 then [v] else [0x18, v])"

definition cfg_decode :: "u8 list \<Rightarrow> u8 option" where
  "cfg_decode bs =
     (case bs of
        a # b # r \<Rightarrow>
          if a \<noteq> 0x81 then None
          else if b < 24 then Some b
          else if b = 0x18 then (case r of [] \<Rightarrow> None | v # _ \<Rightarrow> Some v)
          else None
      | _ \<Rightarrow> None)"

definition cfg_codec :: "u8 codec" where
  "cfg_codec = \<lparr>cd_encode = cfg_encode, cd_decode = cfg_decode, cd_len = (\<lambda>v. length (cfg_encode v))\<rparr>"

lemma cfg_roundtrips: "roundtrips cfg_codec v"
  by (simp add: roundtrips_def cfg_codec_def cfg_encode_def cfg_decode_def)

text \<open>The checksums of the two records in the snapshot.\<close>

definition snapshot_key :: "u8 \<Rightarrow> u8 list" where
  "snapshot_key n = [108, 116, 101, 115, 116, 47, 99, 111, 110, 102, 105, 103, 48 + n]"

lemma snapshot_keys:
  "cbor_text ''test/config1'' = snapshot_key 1"
  "cbor_text ''test/config2'' = snapshot_key 2"
  "cbor_text ''test/config3'' = snapshot_key 3"
  by (simp_all add: cbor_text_def byte_of_char_def snapshot_key_def)

lemma crc_cksum_vectors:
  "crc_cksum (snapshot_key 1 @ [129, 13] @ snapshot_key 2 @ [129, 14] @ snapshot_key 3 @ [129, 15]) = 2695063543"
  "crc_cksum (snapshot_key 1 @ [129, 24, 33] @ snapshot_key 2 @ [129, 24, 34] @ snapshot_key 3 @ [129, 24, 35]) =
     2808308182"
proof -
  have "crc_fold 0 ([108, 116, 101, 115, 116, 47, 99, 111, 110, 102, 105, 103, 49, 129, 13,
     108, 116, 101, 115, 116, 47, 99, 111, 110, 102, 105, 103, 50, 129, 14,
     108, 116, 101, 115, 116, 47, 99, 111, 110, 102, 105, 103, 51, 129, 15]) XOR 0xFFFFFFFF = 2695063543"
    by code_simp
  then show "crc_cksum (snapshot_key 1 @ [129, 13] @ snapshot_key 2 @ [129, 14] @ snapshot_key 3 @ [129, 15]) = 2695063543"
    by (simp add: crc_cksum_def snapshot_key_def del: crc_fold.simps)
  have "crc_fold 0 ([108, 116, 101, 115, 116, 47, 99, 111, 110, 102, 105, 103, 49, 129, 24, 33,
     108, 116, 101, 115, 116, 47, 99, 111, 110, 102, 105, 103, 50, 129, 24, 34,
     108, 116, 101, 115, 116, 47, 99, 111, 110, 102, 105, 103, 51, 129, 24, 35]) XOR 0xFFFFFFFF = 2808308182"
    by code_simp
  then show "crc_cksum (snapshot_key 1 @ [129, 24, 33] @ snapshot_key 2 @ [129, 24, 34] @ snapshot_key 3 @ [129, 24, 35]) =
     2808308182"
    by (simp add: crc_cksum_def snapshot_key_def del: crc_fold.simps)
qed

end
