(* ===== verification/Durability.thy ===== *)
theory Durability
  imports Concrete_Codecs
begin

text \<open>
  What the list operations promise together, on any storage that keeps the contract: a completed
  write is read back after a restart, a write that failed or was cut short anywhere leaves the old
  values or all of the new ones, garbage collection changes nothing a reader can see, and the
  cache stays in step.
\<close>

section \<open>A restarted list\<close>

text \<open>A list that was just created, on nodes that were just attached.\<close>

definition fresh_list :: "nat \<Rightarrow> 'v heap \<Rightarrow> list_inner \<Rightarrow> bool" where
  "fresh_list kept h li \<longleftrightarrow> li_seq li = seq_new kept \<and> distinct_keys h (li_list li)"

context ndl_reader begin

text \<open>The first read after a restart hydrates the nodes from the newest record in storage.\<close>

lemma restart_reads:
  assumes "healthy (length buf) s" and "0 < kept" and "fresh_list kept h li"
    and "distinct (map fst (contents X (elems_of s)))"
  obtains out where "process_reads S X buf h li s = Some out" "is_ok (o_res out)"
    "\<And>i. o_heap out i =
       (if i \<in> set (li_list li) then read_node X (newest_data (contents X (elems_of s))) (h i) else h i)"
    "synced X kept (elems_of s) (li_seq (o_inner out))" "li_list (o_inner out) = li_list li"
    "healthy (length buf) (o_storage out)" "view (o_storage out) = view s"
proof -
  have fresh: "li_seq li = seq_new kept" "distinct_keys h (li_list li)"
    using assms(3) by (simp_all add: fresh_list_def)
  note synced = synced_scanned [OF assms(2) view_typed [OF assms(1)] assms(4)]
  obtain out where out: "process_reads S X buf h li s = Some out" "is_ok (o_res out)"
    "\<And>i. o_heap out i =
       (if i \<in> set (li_list li)
        then read_node X (latest_data (elems_of s) (scanned X kept (elems_of s))) (h i) else h i)"
    "o_inner out = li\<lparr>li_seq := scanned X kept (elems_of s)\<rparr>"
    "healthy (length buf) (o_storage out)" "view (o_storage out) = view s"
    using process_reads_fresh [OF assms(1,2) fresh] by metis
  show thesis
    by (rule that [OF out(1,2)]) (use out(3-6) synced synced_latest [OF synced] in simp_all)
qed

end

section \<open>What was written is what is read\<close>

lemma kv_pair_node_data:
  "externs_ok X \<Longrightarrow> kv_pair X (node_data X C h i) = Ok (KvPair (n_key (h i)) (cd_encode (C i) (the (n_t (h i)))))"
  by (simp add: node_data_def node_bytes_def kv_pair_encoded)

lemma lookup_list_data:
  assumes "externs_ok X" and "distinct_keys h ns" and "i \<in> set ns"
  shows "lookup_body X (n_key (h i)) (list_data X C h ns) =
    (if has_data (n_state (h i)) then Some (cd_encode (C i) (the (n_t (h i)))) else None)"
  using assms(2,3)
proof (induction ns)
  case (Cons j ns)
  have "distinct_keys h ns" using Cons.prems(1) by (simp add: distinct_keys_def)
  note IH = Cons.IH [OF this]
  have other: "lookup_body X (n_key (h i)) (list_data X C h ns) = None"
    if "n_key (h i) \<notin> (\<lambda>k. n_key (h k)) ` set ns" for ns
    using that by (induction ns) (auto simp: kv_pair_node_data [OF assms(1)])
  show ?case
  proof (cases "i \<in> set ns")
    case True
    then have "i = j \<or> n_key (h j) \<noteq> n_key (h i)"
      using Cons.prems(1) by (auto simp: distinct_keys_def inj_on_def)
    then show ?thesis
      using True IH by (auto simp: kv_pair_node_data [OF assms(1)])
  next
    case False
    then have "i = j" using Cons.prems(2) by simp
    moreover have "n_key (h i) \<notin> (\<lambda>k. n_key (h k)) ` set ns"
      using Cons.prems(1) False \<open>i = j\<close> by (auto simp: distinct_keys_def inj_on_def)
    ultimately show ?thesis
      using other [of ns] by (simp add: kv_pair_node_data [OF assms(1)])
  qed
qed simp

text \<open>
  Reading the data of a written list into a fresh node with the same key and type gives the value
  and a clean node; keys that were not written leave the node without data.
\<close>

lemma read_written:
  assumes "externs_ok X" and "distinct_keys h ns" and "i \<in> set ns" and "has_data (n_state (h i))"
    and "n_t (h i) = Some v" and "roundtrips (C i) v"
    and "n_key node = n_key (h i)" "n_state node = Initial" "n_vtable node = vtable_for_ty (C i)"
  shows "read_node X (list_data X C h ns) node = node\<lparr>n_t := Some v, n_state := ValidNoWriteNeeded\<rparr>"
  using lookup_list_data [OF assms(1-3), of C] assms(4-9)
  by (simp add: read_node_def hydrate_node_def vtable_for_ty_def deserialize_def roundtrips_def)

lemma written_newest:
  assumes "synced X kept es q" and "next_seq q = Some n"
  shows "distinct (map fst (contents X (es @ map Some (record_elems X n ds))))"
    and "newest_data (contents X (es @ map Some (record_elems X n ds))) = ds"
proof -
  note ahead = synced_ahead [OF assms]
  show "distinct (map fst (contents X (es @ map Some (record_elems X n ds))))"
    using assms(1) ahead(2) by (auto simp: synced_def contents_snoc)
  show "newest_data (contents X (es @ map Some (record_elems X n ds))) = ds"
    using newest_data_snoc [OF ahead(2)] by (simp add: contents_snoc)
qed

lemma torn_newest:
  assumes "synced X kept es q" and "next_seq q = Some n" and "torn X n ds t"
  shows "distinct (map fst (contents X (es @ t)))"
    and "newest_data (contents X (es @ t)) \<in> {newest_data (contents X es), ds}"
proof -
  have old: "distinct (map fst (contents X es))" using assms(1) by (simp add: synced_def)
  have new: "contents X (es @ map Some (record_elems X n ds)) = contents X es @ [(n, ds)]"
    by (rule contents_snoc)
  note newest = written_newest [OF assms(1,2), of ds]
  from contents_torn [OF assms(3), of es]
  have "distinct (map fst (contents X (es @ t))) \<and>
    newest_data (contents X (es @ t)) \<in> {newest_data (contents X es), ds}"
    using old newest new by auto
  then show "distinct (map fst (contents X (es @ t)))"
    and "newest_data (contents X (es @ t)) \<in> {newest_data (contents X es), ds}"
    by simp_all
qed

section \<open>Collecting, writing, collecting\<close>

lemma layout_no_start: "n \<notin> fst ` set cs \<Longrightarrow> Some (Start n) \<notin> set (layout X cs)"
  by (induction cs) (auto simp: record_elems_def)

lemma scanned_next_seq:
  assumes "0 < kept" and "entries_typed xs"
    and "synced X kept es q" and "next_seq q = Some n"
    and "max_seq (contents X (map fst xs)) = max_seq (contents X es)"
  shows "next_seq (scanned X kept (map fst xs)) = Some n"
proof (cases "records_in X (map fst xs) = []")
  case True
  then have "max_seq (contents X es) = None" using assms(5) by (simp add: max_seq_records)
  then have "highest_seen q = None" using assms(3) by (simp add: synced_def)
  then have "n = 1" using assms(3,4) by (auto simp: synced_def cache_ok_def next_ok_def)
  then show ?thesis using True by (simp add: scanned_no_records)
next
  case False
  obtain r where r: "highest_seen (scanned X kept (map fst xs)) = Some r"
    "r \<in> set (records_in X (map fst xs))"
    "gr_seq r = Max (gr_seq ` set (records_in X (map fst xs)))"
    "next_seq (scanned X kept (map fst xs)) = checked_add (gr_seq r) 1"
    by (rule scanned_highest [OF assms(1,2) False])
  then have "map_option gr_seq (highest_seen q) = Some (gr_seq r)"
    using assms(3,5) False by (simp add: synced_def max_seq_records)
  then obtain r' where "highest_seen q = Some r'" "gr_seq r' = gr_seq r" by auto
  then have "next_seq q = checked_add (gr_seq r) 1"
    using assms(3) by (simp add: synced_def cache_ok_def next_ok_def)
  then show ?thesis using r(4) assms(4) by simp
qed

text \<open>Whether a write is due depends on the list and on whether storage holds a record.\<close>

lemma needs_writing_synced:
  assumes "synced X kept es (li_seq li)" and "synced X kept es' (li_seq li')"
    and "max_seq (contents X es') = max_seq (contents X es)" and "li_list li' = li_list li"
  shows "needs_writing h li' = needs_writing h li"
proof -
  have "map_option gr_seq (highest_seen (li_seq li')) = map_option gr_seq (highest_seen (li_seq li))"
    using assms(1-3) by (simp add: synced_def)
  then have none: "(highest_seen (li_seq li') = None) = (highest_seen (li_seq li) = None)"
    by (metis map_option_is_None)
  show ?thesis unfolding needs_writing_def assms(4) none ..
qed

context ndl_storage begin

text \<open>
  Collection, due or not, from a cache in step: the newest data, and the next number, stay; nothing
  that could be mistaken for the next record is left when it was due.
\<close>

text \<open>What a collection leaves, whether it is due or not.\<close>

lemma garbage_leaves:
  assumes "healthy (length buf) s" and "synced X kept (elems_of s) (li_seq li)"
    and "process_garbage S X kept buf li s = Some (r, li', s')"
  shows "elems_of s' =
    (if needs_gc (li_seq li) then layout X (collected (li_seq li) (contents X (elems_of s))) else elems_of s)"
proof (cases "needs_gc (li_seq li)")
  case True
  then obtain c li1 s1 where "process_garbage S X kept buf li s = Some (Ok c, li1, s1)"
      "elems_of s1 = layout X (collected (li_seq li) (contents X (elems_of s)))"
    using process_garbage_ok [OF assms(1,2)] by metis
  with assms(3) True show ?thesis by simp
next
  case False
  with assms(3) show ?thesis by (simp add: process_garbage_def gc_begin_def)
qed

lemma garbage_settles:
  assumes "healthy (length buf) s" and "synced X kept (elems_of s) (li_seq li)" and "next_seq (li_seq li) = Some n"
    and "needs_gc (li_seq li) \<or> Some (Start n) \<notin> set (elems_of s)"
  obtains c li' s' where "process_garbage S X kept buf li s = Some (Ok c, li', s')"
    "healthy (length buf) s'" "li_list li' = li_list li" "synced X kept (elems_of s') (li_seq li')"
    "\<not> needs_gc (li_seq li')" "next_seq (li_seq li') = Some n" "Some (Start n) \<notin> set (elems_of s')"
    "newest_data (contents X (elems_of s')) = newest_data (contents X (elems_of s))"
    "max_seq (contents X (elems_of s')) = max_seq (contents X (elems_of s))"
proof (cases "needs_gc (li_seq li)")
  case False
  then show thesis
    by (intro that [of _ li s])
      (use assms in \<open>simp_all add: process_garbage_def gc_begin_def\<close>)
next
  case True
  obtain c li' s' where gc: "process_garbage S X kept buf li s = Some (Ok c, li', s')"
    "healthy (length buf) s'"
    "elems_of s' = layout X (collected (li_seq li) (contents X (elems_of s)))"
    "li' = li\<lparr>li_seq := (scanned X kept (elems_of s'))\<lparr>needs_gc := False\<rparr>\<rparr>"
    "synced X kept (elems_of s') (li_seq li')"
    using process_garbage_ok [OF assms(1,2) True] by metis
  have pos: "0 < kept" using assms(2) by (simp add: synced_def cache_ok_def seq_wf_def)
  have newest: "max_seq (contents X (elems_of s')) = max_seq (contents X (elems_of s))"
    "newest_data (contents X (elems_of s')) = newest_data (contents X (elems_of s))"
    using assms(2) collected_newest [of "contents X (elems_of s)" "li_seq li"]
    by (simp_all add: gc(3) synced_def)
  have "n \<notin> fst ` set (collected (li_seq li) (contents X (elems_of s)))"
    using synced_ahead(2) [OF assms(2,3)] by (auto simp: collected_def)
  then have "Some (Start n) \<notin> set (elems_of s')" unfolding gc(3) by (rule layout_no_start)
  then show thesis
    using scanned_next_seq [OF pos view_typed [OF gc(2)] assms(2,3) newest(1)]
    by (intro that [OF gc(1,2) _ gc(5)]) (use gc(4) newest in simp_all)
qed

text \<open>A write on a cache in step: every node ends clean, and the newest record holds the list's data.\<close>

lemma write_settles:
  assumes "externs_ok X" and "heap_ok C h (set (li_list li))" and "healthy (length buf) s" and "9 \<le> length buf"
    and "synced X kept (elems_of s) (li_seq li)" and "\<not> needs_gc (li_seq li)" and "next_seq (li_seq li) = Some n"
    and "Some (Start n) \<notin> set (elems_of s)" and "needs_writing h li = Ok True"
    and "fits X C h (li_list li) (length buf)" and "length (list_data X C h (li_list li)) + 2 \<le> room s"
  obtains out where "process_writes S X buf h li s = Some out" "is_ok (o_res out)"
    "o_heap out = mark_written (li_list li) h" "li_list (o_inner out) = li_list li"
    "synced X kept (elems_of (o_storage out)) (li_seq (o_inner out))" "needs_gc (li_seq (o_inner out))"
    "healthy (length buf) (o_storage out)"
    "newest_data (contents X (elems_of (o_storage out))) = list_data X C h (li_list li)"
    "next_seq (li_seq (o_inner out)) = checked_add n 1"
    "contents X (elems_of (o_storage out)) = contents X (elems_of s) @ [(n, list_data X C h (li_list li))]"
proof -
  let ?ds = "list_data X C h (li_list li)"
  have cache: "cache_ok kept (li_seq li)" using assms(5) by (simp add: synced_def)
  obtain out where "process_writes S X buf h li s = Some out" "is_ok (o_res out)"
    "o_heap out = mark_written (li_list li) h" "li_list (o_inner out) = li_list li"
    "insert_good \<lparr>gr_seq = n, gr_start = length (elems_of s),
       gr_end = length (elems_of s) + length ?ds + 2\<rparr> (li_seq li) = Some (li_seq (o_inner out))"
    "next_seq (li_seq (o_inner out)) = checked_add n 1" "needs_gc (li_seq (o_inner out))"
    "healthy (length buf) (o_storage out)"
    "elems_of (o_storage out) = elems_of s @ map Some (record_elems X n ?ds)"
    using process_writes_ok [OF assms(1,2,3) cache assms(7,6,9,10,11,8,4)] by metis
  then show thesis
    using that synced_write(1) [OF assms(5,7,6) refl, of ?ds] written_newest(2) [OF assms(5,7), of ?ds]
    by (simp add: contents_snoc)
qed

text \<open>
  The worker's answer to a write signal: collect, write, collect. If the storage left by the first
  collection has room, every node ends clean and the newest record holds the data of the list.
\<close>

lemma flush_settles:
  assumes "externs_ok X" and "heap_ok C h (set (li_list li))" and "healthy (length buf) s" and "9 \<le> length buf"
    and "synced X kept (elems_of s) (li_seq li)" and "next_seq (li_seq li) = Some n"
    and "needs_gc (li_seq li) \<or> Some (Start n) \<notin> set (elems_of s)"
    and "needs_writing h li = Ok True" and "fits X C h (li_list li) (length buf)"
    and room: "\<And>r li1 s1. process_garbage S X kept buf li s = Some (r, li1, s1) \<Longrightarrow>
      length (list_data X C h (li_list li)) + 2 \<le> room s1"
  obtains c1 li1 s1 out c2 li2 s2 where
    "process_garbage S X kept buf li s = Some (Ok c1, li1, s1)"
    "process_writes S X buf h li1 s1 = Some out" "is_ok (o_res out)"
    "process_garbage S X kept buf (o_inner out) (o_storage out) = Some (Ok c2, li2, s2)"
    "o_heap out = mark_written (li_list li) h"
    "healthy (length buf) s2" "li_list li2 = li_list li" "synced X kept (elems_of s2) (li_seq li2)"
    "\<not> needs_gc (li_seq li2)"
    "newest_data (contents X (elems_of s2)) = list_data X C h (li_list li)"
proof -
  obtain c1 li1 s1 where gc1: "process_garbage S X kept buf li s = Some (Ok c1, li1, s1)"
    "healthy (length buf) s1" "li_list li1 = li_list li" "synced X kept (elems_of s1) (li_seq li1)"
    "\<not> needs_gc (li_seq li1)" "next_seq (li_seq li1) = Some n" "Some (Start n) \<notin> set (elems_of s1)"
    "newest_data (contents X (elems_of s1)) = newest_data (contents X (elems_of s))"
    "max_seq (contents X (elems_of s1)) = max_seq (contents X (elems_of s))"
    by (rule garbage_settles [OF assms(3,5-7)])
  have due: "needs_writing h li1 = Ok True"
    using assms(8) needs_writing_synced [where h = h, OF assms(5) gc1(4,9,3)] by simp
  have list: "heap_ok C h (set (li_list li1))" "fits X C h (li_list li1) (length buf)"
    "length (list_data X C h (li_list li1)) + 2 \<le> room s1"
    using assms(2,9) room [OF gc1(1)] by (simp_all add: gc1(3))
  obtain out where out: "process_writes S X buf h li1 s1 = Some out" "is_ok (o_res out)"
    "o_heap out = mark_written (li_list li1) h" "li_list (o_inner out) = li_list li1"
    "synced X kept (elems_of (o_storage out)) (li_seq (o_inner out))" "needs_gc (li_seq (o_inner out))"
    "healthy (length buf) (o_storage out)"
    "newest_data (contents X (elems_of (o_storage out))) = list_data X C h (li_list li1)"
    "next_seq (li_seq (o_inner out)) = checked_add n 1"
    "contents X (elems_of (o_storage out)) = contents X (elems_of s1) @ [(n, list_data X C h (li_list li1))]"
    by (rule write_settles [OF assms(1) list(1) gc1(2) assms(4) gc1(4-7) due list(2,3)])
  obtain c2 li2 s2 where gc2: "process_garbage S X kept buf (o_inner out) (o_storage out) = Some (Ok c2, li2, s2)"
    "healthy (length buf) s2"
    "elems_of s2 = layout X (collected (li_seq (o_inner out)) (contents X (elems_of (o_storage out))))"
    "li2 = (o_inner out)\<lparr>li_seq := (scanned X kept (elems_of s2))\<lparr>needs_gc := False\<rparr>\<rparr>"
    "synced X kept (elems_of s2) (li_seq li2)"
    using process_garbage_ok [OF out(7,5,6)] by metis
  have "newest_data (contents X (elems_of s2)) = list_data X C h (li_list li)"
    using collected_newest(2) [of "contents X (elems_of (o_storage out))" "li_seq (o_inner out)"] out(5,8)
    by (simp add: gc2(3) gc1(3) synced_def)
  then show thesis
    by (intro that [OF gc1(1) out(1,2) gc2(1) _ gc2(2)]) (use out(3,4) gc1(3) gc2(4,5) in simp_all)
qed

end

end
