(* ===== verification/Flash_Queue.thy ===== *)
theory Flash_Queue
  imports List_Garbage
begin

text \<open>
  \<open>Flash\<close> of \<open>flash.rs\<close>: the storage traits on top of a queue of byte strings, and
  \<open>AlwaysEmptyFlash\<close>.

  The queue is the \<open>sequential-storage\<close> crate, which is not part of the repository: a record of
  its operations is a parameter, and \<open>queue_laws\<close> states what \<open>Flash\<close> relies on (an iterator
  that yields the bytes pushed, in order; a push that appends or, when it fails, leaves the rest
  alone; a pop that removes the item just yielded). \<open>flash_storage\<close> shows that \<open>Flash\<close> then keeps
  the contract \<open>ndl_storage\<close>, which every lemma on the list operations rests on.
\<close>

section \<open>The queue\<close>

datatype ('q, 'e) queue_push = QueueOk 'q | QueueErr 'e 'q

record ('q, 'qit, 'entry, 'e) queue_ops =
  q_iter :: "'q \<Rightarrow> ('qit, 'q, 'e) iter_result"
  q_next :: "nat \<Rightarrow> 'qit \<Rightarrow> ('qit, 'entry, 'e) next_result"
  q_deref :: "'entry \<Rightarrow> u8 list"
  q_pop :: "'entry \<Rightarrow> 'qit \<Rightarrow> ('qit, 'e) invalidate_result"
  q_release :: "'qit \<Rightarrow> 'q"
  q_push :: "'q \<Rightarrow> u8 list \<Rightarrow> ('q, 'e) queue_push"
  q_item_overhead :: nat     \<comment> \<open>\<open>item_overhead_size()\<close>\<close>

text \<open>The constants of \<open>MultiwriteNorFlash\<close>.\<close>

record nor_flash =
  nf_erase_size :: nat
  nf_write_size :: nat
  nf_read_size :: nat

definition queue_laws ::
  "('q, 'qit, 'entry, 'e) queue_ops \<Rightarrow> (nat \<Rightarrow> 'q \<Rightarrow> bool) \<Rightarrow> ('q \<Rightarrow> u8 list list) \<Rightarrow> (nat \<Rightarrow> 'qit \<Rightarrow> bool) \<Rightarrow>
     ('qit \<Rightarrow> u8 list list) \<Rightarrow> ('qit \<Rightarrow> u8 list list) \<Rightarrow> ('q \<Rightarrow> nat) \<Rightarrow> bool" where
  "queue_laws Q ok items it_ok passed todo room \<longleftrightarrow>
     (\<forall>b q. ok b q \<longrightarrow>
        (\<exists>it. q_iter Q q = IterOk it \<and> it_ok b it \<and> passed it = [] \<and> todo it = items q)) \<and>
     (\<forall>b it. it_ok b it \<and> todo it = [] \<longrightarrow>
        (\<exists>it'. q_next Q b it = NextEnd it' \<and> it_ok b it' \<and> passed it' = passed it \<and> todo it' = [])) \<and>
     (\<forall>b it x xs. it_ok b it \<and> todo it = x # xs \<longrightarrow>
        (\<exists>e it'. q_next Q b it = NextItem e it' \<and> q_deref Q e = x \<and> it_ok b it' \<and>
           passed it' = passed it @ [x] \<and> todo it' = xs)) \<and>
     (\<forall>b it. it_ok b it \<longrightarrow> ok b (q_release Q it) \<and> items (q_release Q it) = passed it @ todo it) \<and>
     (\<forall>b q bs q'. ok b q \<and> length bs \<le> b \<and> q_push Q q bs = QueueOk q' \<longrightarrow>
        ok b q' \<and> items q' = items q @ [bs]) \<and>
     (\<forall>b q bs e q'. ok b q \<and> length bs \<le> b \<and> q_push Q q bs = QueueErr e q' \<longrightarrow>
        ok b q' \<and> (items q' = items q \<or> items q' = items q @ [bs])) \<and>
     (\<forall>b q bs. ok b q \<and> length bs \<le> b \<and> 0 < room q \<longrightarrow>
        (\<exists>q'. q_push Q q bs = QueueOk q' \<and> room q - 1 \<le> room q')) \<and>
     (\<forall>b it e it'. it_ok b it \<and> q_next Q b it = NextItem e it' \<longrightarrow>
        (\<exists>it''. q_pop Q e it' = InvalidateOk it'' \<and> it_ok b it'' \<and> passed it'' = passed it \<and> todo it'' = todo it'))"

section \<open>Encoding and decoding elements\<close>

datatype half_elem =
    HalfStart u32
  | HalfData
  | HalfEnd u32 u32

text \<open>\<open>HalfElem::from_bytes\<close>.\<close>

definition from_bytes :: "u8 list \<Rightarrow> half_elem option" where
  "from_bytes data =
     (case data of
        [] \<Rightarrow> None
      | first # rest \<Rightarrow>
          if first = V0_START then
            (if length rest \<noteq> 4 then None
             else (case nonzero (from_le_bytes rest) of
                     None \<Rightarrow> None
                   | Some seq_no \<Rightarrow> Some (HalfStart seq_no)))
          else if first = V0_DATA then (if rest = [] then None else Some HalfData)
          else if first = V0_END then
            (if length rest \<noteq> 8 then None
             else (case nonzero (from_le_bytes (take 4 rest)) of
                     None \<Rightarrow> None
                   | Some seq_no \<Rightarrow> Some (HalfEnd seq_no (from_le_bytes (take 4 (drop 4 rest))))))
          else None)"

text \<open>\<open>FlashNode::data\<close>, on the decoded half and the bytes of the entry.\<close>

definition node_data_of :: "half_elem option \<Rightarrow> u8 list \<Rightarrow> elem option" where
  "node_data_of half bytes =
     (case half of
        None \<Rightarrow> None
      | Some (HalfStart seq_no) \<Rightarrow> Some (Start seq_no)
      | Some HalfData \<Rightarrow>
          (case ser_data_from_existing bytes of None \<Rightarrow> None | Some d \<Rightarrow> Some (Data d))
      | Some (HalfEnd seq_no calc_crc) \<Rightarrow> Some (End seq_no calc_crc))"

text \<open>The bytes that \<open>Flash::push\<close> hands to the queue.\<close>

fun elem_bytes :: "elem \<Rightarrow> u8 list" where
  "elem_bytes (Start seq_no) = V0_START # to_le_bytes seq_no"
| "elem_bytes (Data d) = hdr_key_val d"
| "elem_bytes (End seq_no calc_crc) = V0_END # to_le_bytes seq_no @ to_le_bytes calc_crc"

text \<open>
  \<open>usize::next_multiple_of\<close>, which panics when \<open>m\<close> is 0, and \<open>size_with_overhead\<close>.
\<close>

definition next_multiple_of :: "nat \<Rightarrow> nat \<Rightarrow> nat" where
  "next_multiple_of n m = (if n mod m = 0 then n else n + (m - n mod m))"

definition size_with_overhead :: "nor_flash \<Rightarrow> nat \<Rightarrow> nat \<Rightarrow> nat" where
  "size_with_overhead F overhead len = overhead + next_multiple_of len (max (nf_write_size F) (nf_read_size F))"

text \<open>\<open>Flash::MAX_ELEM_SIZE\<close>; \<open>None\<close> is the overflow that stops the build.\<close>

definition flash_max_elem_size :: "nor_flash \<Rightarrow> nat \<Rightarrow> nat option" where
  "flash_max_elem_size F item_metadata =
     (let baseline = nf_erase_size F;
          sector_metadata = 2 * max (nf_write_size F) (nf_read_size F)
      in if sector_metadata + item_metadata \<le> baseline
         then Some (baseline - sector_metadata - item_metadata) else None)"

section \<open>The trait implementation\<close>

text \<open>An item is a \<open>FlashNode\<close>: what was decoded of it, and the entry of the queue.\<close>

definition flash_next ::
  "('q, 'qit, 'entry, 'e) queue_ops \<Rightarrow> nat \<Rightarrow> 'qit \<Rightarrow> ('qit, half_elem option \<times> 'entry, 'e) next_result" where
  "flash_next Q b it =
     (case q_next Q b it of
        NextErr e it' \<Rightarrow> NextErr e it'
      | NextEnd it' \<Rightarrow> NextEnd it'
      | NextItem nxt it' \<Rightarrow> NextItem (from_bytes (q_deref Q nxt), nxt) it')"

definition flash_push ::
  "('q, 'qit, 'entry, 'e) queue_ops \<Rightarrow> nor_flash \<Rightarrow> 'q \<Rightarrow> elem \<Rightarrow> ('q, 'e) push_result" where
  "flash_push Q F q data =
     (let used = elem_bytes data in
      case q_push Q q used of
        QueueErr e q' \<Rightarrow> PushErr e q'
      | QueueOk q' \<Rightarrow> PushOk (size_with_overhead F (q_item_overhead Q) (length used)) q')"

definition flash_ops ::
  "('q, 'qit, 'entry, 'e) queue_ops \<Rightarrow> nor_flash \<Rightarrow> ('q, 'qit, half_elem option \<times> 'entry, 'e) storage_ops" where
  "flash_ops Q F =
     \<lparr>st_iter = q_iter Q, st_next = flash_next Q,
      st_data = (\<lambda>(half, qit). node_data_of half (q_deref Q qit)),
      st_len = (\<lambda>(half, qit). size_with_overhead F (q_item_overhead Q) (length (q_deref Q qit))),
      st_invalidate = (\<lambda>(half, qit). q_pop Q qit),
      st_release = q_release Q,
      st_push = flash_push Q F,
      st_max_elem_size = (case flash_max_elem_size F (q_item_overhead Q) of None \<Rightarrow> 0 | Some n \<Rightarrow> n)\<rparr>"

section \<open>Decoding inverts encoding\<close>

definition decode_bytes :: "u8 list \<Rightarrow> elem option" where
  "decode_bytes bs = node_data_of (from_bytes bs) bs"

lemma decode_elem_bytes: "storable e \<Longrightarrow> decode_bytes (elem_bytes e) = Some e"
proof (cases e)
  case (Data d)
  assume "storable e"
  with Data obtain kv where "d = SerData (V0_DATA # kv)" "kv \<noteq> []" by (cases d) auto
  with Data show ?thesis
    by (simp add: decode_bytes_def from_bytes_def node_data_of_def ser_data_from_existing_def)
qed (simp_all add: decode_bytes_def from_bytes_def node_data_of_def nonzero_def)

lemma elem_bytes_decode: "decode_bytes bs = Some e \<Longrightarrow> elem_bytes e = bs \<and> storable e"
proof (cases bs)
  case (Cons first rest)
  assume dec: "decode_bytes bs = Some e"
  then consider (start) "first = V0_START" | (data) "first = V0_DATA" | (fin) "first = V0_END"
    using Cons by (auto simp: decode_bytes_def from_bytes_def node_data_of_def split: if_splits)
  then show ?thesis
  proof cases
    case start
    with dec Cons show ?thesis
      by (auto simp: decode_bytes_def from_bytes_def node_data_of_def split: if_splits option.splits)
  next
    case data
    with dec Cons show ?thesis
      by (auto simp: decode_bytes_def from_bytes_def node_data_of_def ser_data_from_existing_def split: if_splits)
  next
    case fin
    with dec Cons show ?thesis
      by (auto simp: decode_bytes_def from_bytes_def node_data_of_def split: if_splits option.splits)
  qed
qed (simp add: decode_bytes_def from_bytes_def node_data_of_def)

section \<open>The contract\<close>

definition flash_entry :: "nor_flash \<Rightarrow> nat \<Rightarrow> u8 list \<Rightarrow> entry" where
  "flash_entry F overhead bs = (decode_bytes bs, size_with_overhead F overhead (length bs))"

abbreviation flash_entries :: "('q, 'qit, 'entry, 'e) queue_ops \<Rightarrow> nor_flash \<Rightarrow> u8 list list \<Rightarrow> entry list" where
  "flash_entries Q F \<equiv> map (flash_entry F (q_item_overhead Q))"

lemma length_elem_bytes: "length (elem_bytes e) = elem_size e"
  by (cases e) simp_all

lemma flash_ops_simps [simp]:
  "st_iter (flash_ops Q F) = q_iter Q" "st_next (flash_ops Q F) = flash_next Q"
  "st_release (flash_ops Q F) = q_release Q" "st_push (flash_ops Q F) = flash_push Q F"
  "st_data (flash_ops Q F) (half, qit) = node_data_of half (q_deref Q qit)"
  "st_len (flash_ops Q F) (half, qit) = size_with_overhead F (q_item_overhead Q) (length (q_deref Q qit))"
  "st_invalidate (flash_ops Q F) (half, qit) = q_pop Q qit"
  by (simp_all add: flash_ops_def)

lemma queue_lawsD:
  assumes "queue_laws Q ok items it_ok passed todo room"
  shows "ok b q \<Longrightarrow> \<exists>it. q_iter Q q = IterOk it \<and> it_ok b it \<and> passed it = [] \<and> todo it = items q"
    and "it_ok b it \<Longrightarrow> todo it = [] \<Longrightarrow>
      \<exists>it'. q_next Q b it = NextEnd it' \<and> it_ok b it' \<and> passed it' = passed it \<and> todo it' = []"
    and "it_ok b it \<Longrightarrow> todo it = x # xs \<Longrightarrow>
      \<exists>e it'. q_next Q b it = NextItem e it' \<and> q_deref Q e = x \<and> it_ok b it' \<and>
        passed it' = passed it @ [x] \<and> todo it' = xs"
    and "it_ok b it \<Longrightarrow> ok b (q_release Q it) \<and> items (q_release Q it) = passed it @ todo it"
    and "ok b q \<Longrightarrow> length bs \<le> b \<Longrightarrow> q_push Q q bs = QueueOk q' \<Longrightarrow> ok b q' \<and> items q' = items q @ [bs]"
    and "ok b q \<Longrightarrow> length bs \<le> b \<Longrightarrow> q_push Q q bs = QueueErr er q' \<Longrightarrow>
      ok b q' \<and> (items q' = items q \<or> items q' = items q @ [bs])"
    and "ok b q \<Longrightarrow> length bs \<le> b \<Longrightarrow> 0 < room q \<Longrightarrow> \<exists>q'. q_push Q q bs = QueueOk q' \<and> room q - 1 \<le> room q'"
    and "it_ok b it \<Longrightarrow> q_next Q b it = NextItem e it' \<Longrightarrow>
      \<exists>it''. q_pop Q e it' = InvalidateOk it'' \<and> it_ok b it'' \<and> passed it'' = passed it \<and> todo it'' = todo it'"
proof -
  note laws = assms [unfolded queue_laws_def]
  show "ok b q \<Longrightarrow> \<exists>it. q_iter Q q = IterOk it \<and> it_ok b it \<and> passed it = [] \<and> todo it = items q"
    using laws [THEN conjunct1] by blast
  show "it_ok b it \<Longrightarrow> todo it = [] \<Longrightarrow>
      \<exists>it'. q_next Q b it = NextEnd it' \<and> it_ok b it' \<and> passed it' = passed it \<and> todo it' = []"
    using laws [THEN conjunct2, THEN conjunct1] by blast
  show "it_ok b it \<Longrightarrow> todo it = x # xs \<Longrightarrow>
      \<exists>e it'. q_next Q b it = NextItem e it' \<and> q_deref Q e = x \<and> it_ok b it' \<and>
        passed it' = passed it @ [x] \<and> todo it' = xs"
    using laws [THEN conjunct2, THEN conjunct2, THEN conjunct1] by blast
  show "it_ok b it \<Longrightarrow> ok b (q_release Q it) \<and> items (q_release Q it) = passed it @ todo it"
    using laws [THEN conjunct2, THEN conjunct2, THEN conjunct2, THEN conjunct1] by blast
  show "ok b q \<Longrightarrow> length bs \<le> b \<Longrightarrow> q_push Q q bs = QueueOk q' \<Longrightarrow> ok b q' \<and> items q' = items q @ [bs]"
    using laws [THEN conjunct2, THEN conjunct2, THEN conjunct2, THEN conjunct2, THEN conjunct1] by blast
  show "ok b q \<Longrightarrow> length bs \<le> b \<Longrightarrow> q_push Q q bs = QueueErr er q' \<Longrightarrow>
      ok b q' \<and> (items q' = items q \<or> items q' = items q @ [bs])"
    using laws [THEN conjunct2, THEN conjunct2, THEN conjunct2, THEN conjunct2, THEN conjunct2, THEN conjunct1] by blast
  show "ok b q \<Longrightarrow> length bs \<le> b \<Longrightarrow> 0 < room q \<Longrightarrow> \<exists>q'. q_push Q q bs = QueueOk q' \<and> room q - 1 \<le> room q'"
    using laws [THEN conjunct2, THEN conjunct2, THEN conjunct2, THEN conjunct2, THEN conjunct2, THEN conjunct2, THEN conjunct1] by blast
  show "it_ok b it \<Longrightarrow> q_next Q b it = NextItem e it' \<Longrightarrow>
      \<exists>it''. q_pop Q e it' = InvalidateOk it'' \<and> it_ok b it'' \<and> passed it'' = passed it \<and> todo it'' = todo it'"
    using laws [THEN conjunct2, THEN conjunct2, THEN conjunct2, THEN conjunct2, THEN conjunct2, THEN conjunct2, THEN conjunct2] by blast
qed

text \<open>Reading through \<open>Flash\<close>: the contract of the reader, from the laws of the queue.\<close>

lemma flash_ndl_reader:
  assumes "queue_laws Q ok items it_ok passed todo room"
  shows "ndl_reader (flash_ops Q F) ok (\<lambda>q. flash_entries Q F (items q)) it_ok
    (\<lambda>it. flash_entries Q F (passed it)) (\<lambda>it. flash_entries Q F (todo it))"
proof
  note laws = queue_lawsD [OF assms]
  fix b q assume "ok b q"
  then obtain it where "q_iter Q q = IterOk it" "it_ok b it" "passed it = []" "todo it = items q"
    using laws(1) by blast
  then show "\<exists>it. st_iter (flash_ops Q F) q = IterOk it \<and> it_ok b it \<and> flash_entries Q F (passed it) = [] \<and>
      flash_entries Q F (todo it) = flash_entries Q F (items q)"
    by simp
next
  note laws = queue_lawsD [OF assms]
  fix b it assume "it_ok b it" "flash_entries Q F (todo it) = []"
  then obtain it' where "q_next Q b it = NextEnd it'" "it_ok b it'" "passed it' = passed it" "todo it' = []"
    using laws(2) by auto
  then show "\<exists>it'. st_next (flash_ops Q F) b it = NextEnd it' \<and> it_ok b it' \<and>
      flash_entries Q F (passed it') = flash_entries Q F (passed it) \<and> flash_entries Q F (todo it') = []"
    by (simp add: flash_next_def)
next
  note laws = queue_lawsD [OF assms]
  fix b it x xs assume it: "it_ok b it" "flash_entries Q F (todo it) = x # xs"
  then obtain bs bss where todo: "todo it = bs # bss" "x = flash_entry F (q_item_overhead Q) bs" "xs = flash_entries Q F bss"
    by auto
  have "\<exists>e it'. q_next Q b it = NextItem e it' \<and> q_deref Q e = bs \<and> it_ok b it' \<and>
      passed it' = passed it @ [bs] \<and> todo it' = bss"
    using laws(3) it(1) todo(1) by blast
  then obtain e it' where "q_next Q b it = NextItem e it'" "q_deref Q e = bs" "it_ok b it'"
      "passed it' = passed it @ [bs]" "todo it' = bss"
    by blast
  then show "\<exists>item it'. st_next (flash_ops Q F) b it = NextItem item it' \<and> st_data (flash_ops Q F) item = fst x \<and>
      st_len (flash_ops Q F) item = snd x \<and> it_ok b it' \<and>
      flash_entries Q F (passed it') = flash_entries Q F (passed it) @ [x] \<and> flash_entries Q F (todo it') = xs"
    using todo by (simp add: flash_next_def flash_entry_def decode_bytes_def)
next
  note laws = queue_lawsD [OF assms]
  fix b it assume "it_ok b it"
  then have "ok b (q_release Q it) \<and> items (q_release Q it) = passed it @ todo it"
    using laws(4) by blast
  then show "ok b (st_release (flash_ops Q F) it) \<and>
      flash_entries Q F (items (st_release (flash_ops Q F) it)) = flash_entries Q F (passed it) @ flash_entries Q F (todo it)"
    by simp
next
  fix b q e n assume "(Some e, n) \<in> set (flash_entries Q F (items q))"
  then obtain bs where "decode_bytes bs = Some e" by (auto simp: flash_entry_def)
  then show "elem_typed e" using elem_bytes_decode storable_typed by blast
qed

text \<open>Writing through \<open>Flash\<close>: the whole contract.\<close>

lemma flash_ndl_storage:
  assumes "queue_laws Q ok items it_ok passed todo room"
  shows "ndl_storage (flash_ops Q F) ok (\<lambda>q. flash_entries Q F (items q)) it_ok
    (\<lambda>it. flash_entries Q F (passed it)) (\<lambda>it. flash_entries Q F (todo it)) room"
proof (intro ndl_storage.intro flash_ndl_reader [OF assms] ndl_storage_axioms.intro)
  note laws = queue_lawsD [OF assms]
  fix b q e n q' assume e: "ok b q" "writable b e" "st_push (flash_ops Q F) q e = PushOk n q'"
  then have push: "q_push Q q (elem_bytes e) = QueueOk q'" "n = size_with_overhead F (q_item_overhead Q) (elem_size e)"
    by (auto simp: flash_push_def Let_def length_elem_bytes split: queue_push.splits)
  have "length (elem_bytes e) \<le> b" using e(2) by (simp add: writable_def length_elem_bytes)
  then have "ok b q' \<and> items q' = items q @ [elem_bytes e]" using laws(5) e(1) push(1) by blast
  then show "ok b q' \<and> flash_entries Q F (items q') = flash_entries Q F (items q) @ [(Some e, n)]"
    using push(2) decode_elem_bytes [OF writable_storable [OF e(2)]]
    by (simp add: flash_entry_def length_elem_bytes)
next
  note laws = queue_lawsD [OF assms]
  fix b q e er q' assume e: "ok b q" "writable b e" "st_push (flash_ops Q F) q e = PushErr er q'"
  then have push: "q_push Q q (elem_bytes e) = QueueErr er q'"
    by (auto simp: flash_push_def Let_def split: queue_push.splits)
  have "length (elem_bytes e) \<le> b" using e(2) by (simp add: writable_def length_elem_bytes)
  then have "ok b q' \<and> (items q' = items q \<or> items q' = items q @ [elem_bytes e])" using laws(6) e(1) push by blast
  then show "ok b q' \<and> (flash_entries Q F (items q') = flash_entries Q F (items q) \<or>
      (\<exists>d n. flash_entries Q F (items q') = flash_entries Q F (items q) @ [(d, n)] \<and> (d = None \<or> d = Some e)))"
    using decode_elem_bytes [OF writable_storable [OF e(2)]] by (auto simp: flash_entry_def)
next
  note laws = queue_lawsD [OF assms]
  fix b q e assume e: "ok b q" "writable b e" "0 < room q"
  have "length (elem_bytes e) \<le> b" using e(2) by (simp add: writable_def length_elem_bytes)
  then obtain q' where "q_push Q q (elem_bytes e) = QueueOk q'" "room q - 1 \<le> room q'"
    using laws(7) e(1,3) by blast
  then show "\<exists>n q'. st_push (flash_ops Q F) q e = PushOk n q' \<and> room q - 1 \<le> room q'"
    by (simp add: flash_push_def Let_def)
next
  note laws = queue_lawsD [OF assms]
  fix b it item it' assume it: "it_ok b it" "st_next (flash_ops Q F) b it = NextItem item it'"
  then obtain e where e: "q_next Q b it = NextItem e it'" "item = (from_bytes (q_deref Q e), e)"
    by (auto simp: flash_next_def split: next_result.splits)
  then obtain it'' where "q_pop Q e it' = InvalidateOk it''" "it_ok b it''" "passed it'' = passed it" "todo it'' = todo it'"
    using laws(8) it(1) by blast
  then show "\<exists>it''. st_invalidate (flash_ops Q F) item it' = InvalidateOk it'' \<and> it_ok b it'' \<and>
      flash_entries Q F (passed it'') = flash_entries Q F (passed it) \<and>
      flash_entries Q F (todo it'') = flash_entries Q F (todo it')"
    using e(2) by simp
qed

section \<open>Sizes\<close>

lemma next_multiple_of_bounds:
  assumes "0 < m"
  shows "n \<le> next_multiple_of n m" and "next_multiple_of n m < n + m" and "next_multiple_of n m mod m = 0"
proof -
  have "(n + (m - n mod m)) mod m = 0"
  proof -
    have "n + (m - n mod m) = m * (n div m) + m"
      using mod_less_divisor [OF assms, of n] by (simp add: algebra_simps flip: minus_mod_eq_mult_div)
    then show ?thesis by simp
  qed
  then show "n \<le> next_multiple_of n m" "next_multiple_of n m < n + m" "next_multiple_of n m mod m = 0"
    using mod_less_divisor [OF assms, of n] by (auto simp: next_multiple_of_def)
qed

section \<open>\<open>AlwaysEmptyFlash\<close>\<close>

text \<open>
  Its iterator never yields an item; the item type of the code has no value, and the operations on
  items are never called.
\<close>

datatype always_empty = AlwaysEmptyFlash

definition empty_ops :: "(always_empty, always_empty, unit, unit) storage_ops" where
  "empty_ops =
     \<lparr>st_iter = (\<lambda>s. IterOk s), st_next = (\<lambda>_ it. NextEnd it), st_data = (\<lambda>_. None), st_len = (\<lambda>_. 0),
      st_invalidate = (\<lambda>_ it. InvalidateOk it), st_release = (\<lambda>it. it), st_push = (\<lambda>s _. PushOk 0 s),
      st_max_elem_size = 0\<rparr>"

interpretation always_empty: ndl_reader empty_ops "\<lambda>_ _. True" "\<lambda>_. []" "\<lambda>_ _. True" "\<lambda>_. []" "\<lambda>_. []"
  by unfold_locales (simp_all add: empty_ops_def)

end
