(* ===== verification/Worker_Task.thy ===== *)
theory Worker_Task
  imports Durability Flash_Queue
begin

text \<open>
  \<open>default_worker_task\<close> and \<open>no_op_worker_task\<close> of \<open>worker_task.rs\<close>.

  The default worker waits in a \<open>select3\<close> of three futures. Each future is a phase here: waiting
  for its signal, or debouncing (delaying) until a deadline in milliseconds. \<open>worker_poll\<close> polls
  them in order; when one is ready, \<open>select3\<close> drops the other two, whatever they had consumed, and
  the next turn of the loop starts with three new ones.

  A \<open>WaitQueue\<close> is a flag here: \<open>wake\<close> sets it, and a completed wait clears it.
\<close>

section \<open>The three futures\<close>

datatype phase =
    Waiting
  | Debouncing nat

record worker =
  wk_now :: nat
  wk_read_wake :: bool
  wk_write_wake :: bool
  wk_read :: phase
  wk_write :: phase
  wk_gc :: phase
  wk_needs_gc :: "nat option"
  wk_first_gc_done :: bool

definition READ_DEBOUNCE :: nat where "READ_DEBOUNCE = 100"
definition WRITE_DEBOUNCE :: nat where "WRITE_DEBOUNCE = 10000"
definition FIRST_GC_DELAY :: nat where "FIRST_GC_DELAY = 120000"

definition worker_new :: worker where
  "worker_new =
     \<lparr>wk_now = 0, wk_read_wake = False, wk_write_wake = False, wk_read = Waiting, wk_write = Waiting,
      wk_gc = Waiting, wk_needs_gc = None, wk_first_gc_done = False\<rparr>"

text \<open>
  A debounced wait: take the signal, then go on until no signal has come for \<open>timeout\<close>. The result
  is whether the future is ready, its phase, and the flag of the queue.
\<close>

fun poll_debounced :: "nat \<Rightarrow> nat \<Rightarrow> bool \<Rightarrow> phase \<Rightarrow> bool \<times> phase \<times> bool" where
  "poll_debounced timeout now wake Waiting =
     (if wake then (False, Debouncing (now + timeout), False) else (False, Waiting, False))"
| "poll_debounced timeout now wake (Debouncing deadline) =
     (if wake then (False, Debouncing (now + timeout), False)
      else if deadline \<le> now then (True, Debouncing deadline, False)
      else (False, Debouncing deadline, False))"

text \<open>\<open>gc_fut\<close>: take the delay from the signal, then wait that long.\<close>

fun poll_gc :: "nat \<Rightarrow> nat option \<Rightarrow> phase \<Rightarrow> bool \<times> phase \<times> nat option" where
  "poll_gc now sig Waiting =
     (case sig of
        None \<Rightarrow> (False, Waiting, None)
      | Some delay \<Rightarrow> (delay = 0, Debouncing (now + delay), None))"
| "poll_gc now sig (Debouncing deadline) = (deadline \<le> now, Debouncing deadline, sig)"

datatype action = DoReads | DoWrites | DoGc

definition drop_futures :: "worker \<Rightarrow> worker" where
  "drop_futures w = w\<lparr>wk_read := Waiting, wk_write := Waiting, wk_gc := Waiting\<rparr>"

text \<open>One poll of \<open>select3\<close>.\<close>

definition worker_poll :: "worker \<Rightarrow> action option \<times> worker" where
  "worker_poll w0 =
     (let (ready1, p1, f1) = poll_debounced READ_DEBOUNCE (wk_now w0) (wk_read_wake w0) (wk_read w0);
          w1 = w0\<lparr>wk_read := p1, wk_read_wake := f1\<rparr>
      in if ready1 then (Some DoReads, drop_futures w1)
      else
        let (ready2, p2, f2) = poll_debounced WRITE_DEBOUNCE (wk_now w1) (wk_write_wake w1) (wk_write w1);
            w2 = w1\<lparr>wk_write := p2, wk_write_wake := f2\<rparr>
        in if ready2 then (Some DoWrites, drop_futures w2)
        else
          let (ready3, p3, s3) = poll_gc (wk_now w2) (wk_needs_gc w2) (wk_gc w2);
              w3 = w2\<lparr>wk_gc := p3, wk_needs_gc := s3\<rparr>
          in if ready3 then (Some DoGc, drop_futures w3) else (None, w3))"

section \<open>The actions\<close>

text \<open>
  What the worker works on. Results are only logged, so an action is a change of this state;
  \<open>None\<close> is an operation that does not return.
\<close>

record ('v, 's) site =
  si_heap :: "'v heap"
  si_inner :: list_inner
  si_storage :: 's

definition run_reads ::
  "('s, 'it, 'item, 'e) storage_ops \<Rightarrow> externs \<Rightarrow> u8 list \<Rightarrow> ('v, 's) site \<Rightarrow>
     ((read_counters, 'e load_store_error) result \<times> ('v, 's) site) option" where
  "run_reads S X buf st =
     (case process_reads S X buf (si_heap st) (si_inner st) (si_storage st) of
        None \<Rightarrow> None
      | Some out \<Rightarrow> Some (o_res out, \<lparr>si_heap = o_heap out, si_inner = o_inner out, si_storage = o_storage out\<rparr>))"

definition run_writes ::
  "('s, 'it, 'item, 'e) storage_ops \<Rightarrow> externs \<Rightarrow> u8 list \<Rightarrow> ('v, 's) site \<Rightarrow>
     ((write_counters, 'e load_store_error) result \<times> ('v, 's) site) option" where
  "run_writes S X buf st =
     (case process_writes S X buf (si_heap st) (si_inner st) (si_storage st) of
        None \<Rightarrow> None
      | Some out \<Rightarrow> Some (o_res out, \<lparr>si_heap = o_heap out, si_inner = o_inner out, si_storage = o_storage out\<rparr>))"

definition run_garbage ::
  "('s, 'it, 'item, 'e) storage_ops \<Rightarrow> externs \<Rightarrow> nat \<Rightarrow> u8 list \<Rightarrow> ('v, 's) site \<Rightarrow>
     ((garbage_counters, 'e load_store_error) result \<times> ('v, 's) site) option" where
  "run_garbage S X kept buf st =
     (case process_garbage S X kept buf (si_inner st) (si_storage st) of
        None \<Rightarrow> None
      | Some (res, li, s) \<Rightarrow> Some (res, st\<lparr>si_inner := li, si_storage := s\<rparr>))"

text \<open>The three arms of the \<open>match\<close> on \<open>select3\<close>.\<close>

definition worker_act ::
  "('s, 'it, 'item, 'e) storage_ops \<Rightarrow> externs \<Rightarrow> nat \<Rightarrow> u8 list \<Rightarrow> action \<Rightarrow> worker \<times> ('v, 's) site \<Rightarrow>
     (worker \<times> ('v, 's) site) option" where
  "worker_act S X kept buf a = (\<lambda>(w, st).
     case a of
       DoReads \<Rightarrow>
         (case run_reads S X buf st of
            None \<Rightarrow> None
          | Some (_, st1) \<Rightarrow>
              Some (if \<not> wk_first_gc_done w then w\<lparr>wk_needs_gc := Some FIRST_GC_DELAY\<rparr> else w, st1))
     | DoWrites \<Rightarrow>
         (case run_garbage S X kept buf st of
            None \<Rightarrow> None
          | Some (_, st1) \<Rightarrow>
              (case run_writes S X buf st1 of
                 None \<Rightarrow> None
               | Some (_, st2) \<Rightarrow>
                   (case run_garbage S X kept buf st2 of
                      None \<Rightarrow> None
                    | Some (_, st3) \<Rightarrow> Some (w, st3))))
     | DoGc \<Rightarrow>
         (case run_garbage S X kept buf st of
            None \<Rightarrow> None
          | Some (Ok _, st1) \<Rightarrow> Some (w\<lparr>wk_first_gc_done := True\<rparr>, st1)
          | Some (Err _, st1) \<Rightarrow> Some (w, st1)))"

text \<open>Shutting down, after the stopper future completed.\<close>

definition worker_stop ::
  "('s, 'it, 'item, 'e) storage_ops \<Rightarrow> externs \<Rightarrow> nat \<Rightarrow> u8 list \<Rightarrow> ('v, 's) site \<Rightarrow> ('v, 's) site option" where
  "worker_stop S X kept buf st =
     (case run_writes S X buf st of
        None \<Rightarrow> None
      | Some (Ok _, st1) \<Rightarrow> Some st1
      | Some (Err e, st1) \<Rightarrow>
          if e = AppError NeedsGarbageCollect then
            (case run_garbage S X kept buf st1 of
               None \<Rightarrow> None
             | Some (_, st2) \<Rightarrow>
                 (case run_writes S X buf st2 of None \<Rightarrow> None | Some (_, st3) \<Rightarrow> Some st3))
          else Some st1)"

section \<open>What happens to a worker\<close>

datatype event =
    Tick nat          \<comment> \<open>time passes\<close>
  | SignalRead        \<comment> \<open>\<open>needs_read.wake()\<close>\<close>
  | SignalWrite       \<comment> \<open>\<open>needs_write.wake()\<close>\<close>
  | Poll              \<comment> \<open>one poll of the select, and the arm it selects\<close>

definition worker_event ::
  "('s, 'it, 'item, 'e) storage_ops \<Rightarrow> externs \<Rightarrow> nat \<Rightarrow> u8 list \<Rightarrow> event \<Rightarrow> worker \<times> ('v, 's) site \<Rightarrow>
     (worker \<times> ('v, 's) site) option" where
  "worker_event S X kept buf ev = (\<lambda>(w, st).
     case ev of
       Tick n \<Rightarrow> Some (w\<lparr>wk_now := wk_now w + n\<rparr>, st)
     | SignalRead \<Rightarrow> Some (w\<lparr>wk_read_wake := True\<rparr>, st)
     | SignalWrite \<Rightarrow> Some (w\<lparr>wk_write_wake := True\<rparr>, st)
     | Poll \<Rightarrow>
         (case worker_poll w of
            (None, w') \<Rightarrow> Some (w', st)
          | (Some a, w') \<Rightarrow> worker_act S X kept buf a (w', st)))"

fun worker_run ::
  "('s, 'it, 'item, 'e) storage_ops \<Rightarrow> externs \<Rightarrow> nat \<Rightarrow> u8 list \<Rightarrow> event list \<Rightarrow> worker \<times> ('v, 's) site \<Rightarrow>
     (worker \<times> ('v, 's) site) option" where
  "worker_run S X kept buf [] ws = Some ws"
| "worker_run S X kept buf (ev # evs) ws =
     (case worker_event S X kept buf ev ws of None \<Rightarrow> None | Some ws' \<Rightarrow> worker_run S X kept buf evs ws')"

section \<open>\<open>no_op_worker_task\<close>\<close>

text \<open>One turn of its loop; the inner \<open>None\<close> is the panic of \<open>expect\<close>.\<close>

definition no_op_turn :: "externs \<Rightarrow> 'v heap \<Rightarrow> list_inner \<Rightarrow> ('v heap \<times> list_inner) option option" where
  "no_op_turn X h li =
     (case process_reads empty_ops X [] h li AlwaysEmptyFlash of
        None \<Rightarrow> None
      | Some out \<Rightarrow>
          Some (case o_res out of Err _ \<Rightarrow> None | Ok _ \<Rightarrow> Some (o_heap out, o_inner out)))"

end
