(* ===== verification/Samples.thy ===== *)
theory Samples
  imports Worker_Task World
begin

text \<open>
  Concrete lists, nodes and storages on which the properties are shown to apply: three nodes of the
  type of the integration tests, a fresh list of the same keys, a storage with complete records,
  an unfinished one and a stray element, all on \<open>TestStorage\<close>.
\<close>

section \<open>A sample list\<close>

text \<open>Three nodes of the integration tests' type, two of them written, on an empty storage.\<close>

definition sample_key :: "nid \<Rightarrow> key" where
  "sample_key i = (if i = 0 then ''test/config1'' else if i = 1 then ''test/config2'' else ''test/config3'')"

definition sample_heap :: "u8 heap" where
  "sample_heap i =
     \<lparr>n_key = sample_key i, n_state = (if i = 2 then NonResident else NeedsWrite),
      n_vtable = vtable_for_ty cfg_codec,
      n_t = (if i = 2 then None else Some (if i = 0 then 13 else 240)), n_taken = 2\<rparr>"

definition sample_nodes :: "nid list" where
  "sample_nodes = [0, 1, 2]"

definition sample_list :: list_inner where
  "sample_list = \<lparr>li_list = sample_nodes, li_seq = (seq_new 3)\<lparr>next_seq := Some 1\<rparr>\<rparr>"

definition sample_buf :: "u8 list" where
  "sample_buf = replicate TEST_MAX_ELEM_SIZE 0"

definition sample_fresh_heap :: "u8 heap" where
  "sample_fresh_heap i = node_new (sample_key i) cfg_codec"

definition sample_fresh_list :: list_inner where
  "sample_fresh_list = \<lparr>li_list = sample_nodes, li_seq = seq_new 3\<rparr>"

lemma sample_keys: "distinct_keys sample_heap sample_nodes" "distinct_keys sample_fresh_heap sample_nodes"
  by (simp_all add: sample_nodes_def distinct_keys_def sample_heap_def sample_fresh_heap_def sample_key_def node_new_def)

lemma sample_fresh: "fresh_list 3 sample_fresh_heap sample_fresh_list"
  by (simp add: fresh_list_def sample_fresh_list_def sample_keys)

lemma sample_healthy: "test_healthy b test_default" "map fst (test_view test_default) = []"
  by (simp_all add: test_healthy_def test_default_def test_view_def)

lemma sample_synced: "synced cbor_externs 3 [] (li_seq sample_list)"
  by (simp add: synced_def sample_list_def cache_ok_def seq_wf_def seq_keys_def next_ok_def seq_new_def
      numeral_3_eq_3 highest_seen_def cache_exact_def max_seq_def present_def)

lemma sample_heap_ok: "heap_ok (\<lambda>_. cfg_codec) sample_heap I"
  by (simp add: heap_ok_def sample_heap_def)

lemma sample_fits: "fits cbor_externs (\<lambda>_. cfg_codec) sample_heap sample_nodes TEST_MAX_ELEM_SIZE"
  by (simp add: sample_nodes_def fits_def sample_heap_def node_bytes_def cbor_externs_def cbor_text_def sample_key_def
      cfg_codec_def cfg_encode_def TEST_MAX_ELEM_SIZE_def)

lemma sample_data_length: "length (list_data X C sample_heap sample_nodes) = 2"
  by (simp add: sample_heap_def sample_nodes_def)

lemma sample_writing:
  "next_seq (li_seq sample_list) = Some 1" "\<not> needs_gc (li_seq sample_list)"
  "needs_writing sample_heap sample_list = Ok True"
  "li_list sample_list = sample_nodes" "length sample_buf = TEST_MAX_ELEM_SIZE"
  by (simp_all add: sample_nodes_def sample_list_def seq_new_def needs_writing_def sample_heap_def sample_buf_def)

text \<open>A storage holding given elements, as \<open>push\<close> would have left it.\<close>

fun items_from :: "u64 \<Rightarrow> elem list \<Rightarrow> test_item list" where
  "items_from c [] = []"
| "items_from c (e # es) = \<lparr>ti_ctr = c, ti_elem = the (test_elem_from e)\<rparr> # items_from (c + 1) es"

definition storage_of :: "elem list \<Rightarrow> test_storage" where
  "storage_of es = \<lparr>ts_ctr = of_nat (length es), ts_items = items_from 0 es, ts_forced_error = None\<rparr>"

text \<open>
  An unfinished record, four complete ones, and a data element that belongs to none.
\<close>

definition sample_records :: "(u32 \<times> ser_data list) list" where
  "sample_records =
     [(1, [SerData [1, 0x61, 0x61, 0x81, 1]]), (2, [SerData [1, 0x61, 0x61, 0x81, 2], SerData [1, 0x61, 0x62, 0x81, 7]]),
      (3, [SerData [1, 0x61, 0x61, 0x81, 3]]), (4, [SerData [1, 0x61, 0x61, 0x81, 4]])]"

definition sample_elems :: "elem list" where
  "sample_elems =
     [Start 9, Data (SerData [1, 0x61, 0x63])] @
     concat (map (\<lambda>(seq, ds). record_elems cbor_externs seq ds) sample_records) @
     [Data (SerData [1, 0x61, 0x64])]"

lemma sample_storage:
  "test_healthy b (storage_of sample_elems)" "map fst (test_view (storage_of sample_elems)) = map Some sample_elems"
  by (simp_all add: storage_of_def sample_elems_def sample_records_def record_elems_def test_healthy_def
      ser_hdr_def test_view_def test_entry_def test_data_def ser_data_from_existing_def)

lemma sample_contents: "contents cbor_externs (map Some sample_elems) = sample_records"
  by (simp add: contents_def sample_elems_def sample_records_def record_elems_def closes_def)

definition sample_scanned :: list_inner where
  "sample_scanned = \<lparr>li_list = sample_nodes, li_seq = scanned cbor_externs 3 (map Some sample_elems)\<rparr>"

lemma sample_scanned_synced:
  "synced cbor_externs 3 (map Some sample_elems) (li_seq sample_scanned)" "needs_gc (li_seq sample_scanned)"
proof -
  have typed: "entries_typed (test_view (storage_of sample_elems))"
    by (rule test_storage.view_typed [OF sample_storage(1)])
  have distinct: "distinct (map fst (contents cbor_externs (map Some sample_elems)))"
    unfolding sample_contents by (simp add: sample_records_def)
  show "synced cbor_externs 3 (map Some sample_elems) (li_seq sample_scanned)"
    using synced_scanned [OF _ typed, of 3 cbor_externs] distinct
    by (simp add: sample_storage sample_scanned_def)
  have "records_in cbor_externs (map Some sample_elems) \<noteq> []"
    using sample_contents by (auto simp: contents_records sample_records_def)
  then show "needs_gc (li_seq sample_scanned)"
    using scanned_needs_gc [OF _ typed, of 3 cbor_externs] by (simp add: sample_storage sample_scanned_def)
qed

definition short_heap :: "u8 heap" where
  "short_heap i = node_new (if i = 0 then ''a'' else ''b'') cfg_codec"

definition short_list :: list_inner where
  "short_list = \<lparr>li_list = [0, 1], li_seq = seq_new 3\<rparr>"

definition late_heap :: "u8 heap" where
  "late_heap = short_heap(1 := (short_heap 1)\<lparr>n_t := Some 9, n_state := NeedsWrite\<rparr>)"

lemma short_fresh: "fresh_list 3 short_heap short_list" "distinct_keys late_heap [0, 1]"
  "n_vtable (short_heap i) = vtable_for_ty cfg_codec" "n_vtable (late_heap i) = vtable_for_ty cfg_codec"
  by (simp_all add: fresh_list_def short_list_def short_heap_def late_heap_def distinct_keys_def node_new_def)

lemma sample_distinct: "distinct (map fst (contents cbor_externs (map Some sample_elems)))"
  unfolding sample_contents by (simp add: sample_records_def)

lemma sample_newest: "newest_data (contents cbor_externs (map Some sample_elems)) = [SerData [1, 0x61, 0x61, 0x81, 4]]"
proof -
  have "max_seq sample_records = Some 4" by (simp add: max_seq_def sample_records_def)
  then show ?thesis by (simp add: sample_contents newest_data_def) (simp add: sample_records_def)
qed

lemma short_kv_pair: "kv_pair cbor_externs (SerData [1, 0x61, 0x61, 0x81, 4]) = Ok (KvPair ''a'' [0x81, 4])"
  by (simp add: kv_pair_def cbor_externs_def cbor_text_decode_def cbor_take_def char_of_byte_def cbor_text_def
      get_from_def char_of_def bit_iff_odd)

lemma sample_next_seq: "next_seq (li_seq sample_scanned) = Some 5"
proof -
  have "map_option gr_seq (highest_seen (li_seq sample_scanned)) = Some 4" "next_ok (li_seq sample_scanned)"
    using sample_scanned_synced(1) unfolding synced_def sample_contents
    by (simp_all add: cache_ok_def max_seq_def sample_records_def)
  then show ?thesis by (auto simp: next_ok_def checked_add_def)
qed

lemma sample_small_buf_at:
  assumes "ts_forced_error s = None" and "checked_add (ts_ctr s) 1 = Some k"
  shows "\<exists>e. process_writes test_ops cbor_externs (replicate 14 0) sample_heap sample_list s =
    Some \<lparr>o_res = Err e, o_heap = sample_heap, o_inner = sample_list,
      o_storage = s\<lparr>ts_ctr := k, ts_items := ts_items s @ [\<lparr>ti_ctr = ts_ctr s, ti_elem = TStart 1\<rparr>]\<rparr>, o_wakes = []\<rparr>"
proof -
  have start: "test_push s (Start 1) =
      PushOk 5 (s\<lparr>ts_ctr := k, ts_items := ts_items s @ [\<lparr>ti_ctr = ts_ctr s, ti_elem = TStart 1\<rparr>]\<rparr>)"
    using assms by (simp add: test_push_def next_ctr_def)
  show ?thesis
    by (simp add: process_writes_def sample_writing write_to_flash_def start sample_nodes_def write_nodes.simps
        numeral_eq_Suc serialize_node_eq [where c = cfg_codec] sample_heap_def sample_key_def node_bytes_def
        cbor_externs_def cbor_text_def cfg_codec_def cfg_encode_def Let_def)
qed

lemma sample_small_buf:
  "\<exists>out. process_writes test_ops cbor_externs (replicate 14 0) sample_heap sample_list test_default = Some out \<and>
     \<not> is_ok (o_res out)"
  using sample_small_buf_at [of test_default 1] by (auto simp: test_default_def checked_add_def)

lemma sample_cache: "cache_ok 3 (li_seq sample_list)"
  using sample_synced by (simp add: synced_def)

lemma sample_room: "test_room test_default = 2 ^ 64 - 1"
  by (simp add: test_room_def test_default_def)

text \<open>A storage in which the very first write was cut off after its first data element.\<close>

definition torn_elems :: "elem list" where
  "torn_elems = [Start 1, Data (SerData [1, 0x61, 0x61, 0x81, 4])]"

lemma torn_storage: "test_healthy b (storage_of torn_elems)"
  "map fst (test_view (storage_of torn_elems)) = map Some torn_elems" "test_room (storage_of torn_elems) = 2 ^ 64 - 3"
  by (simp_all add: storage_of_def torn_elems_def test_healthy_def test_room_def
      ser_hdr_def test_view_def test_entry_def test_data_def ser_data_from_existing_def)

definition last_elems :: "elem list" where
  "last_elems = record_elems cbor_externs (- 1) [SerData [1, 0x61, 0x61, 0x81, 4]]"

lemma last_storage: "test_healthy b (storage_of last_elems)"
  "map fst (test_view (storage_of last_elems)) = map Some last_elems"
  by (simp_all add: storage_of_def last_elems_def record_elems_def test_healthy_def
      ser_hdr_def test_view_def test_entry_def test_data_def ser_data_from_existing_def)

text \<open>A storage that cannot be read past the second record of the sample.\<close>

definition flaky_ops :: "(test_storage, test_iter, test_item, test_storage_error) storage_ops" where
  "flaky_ops = test_ops\<lparr>st_next := \<lambda>b it. if length (tit_remain it) \<le> 7 then NextErr FakeBadRead it else test_next b it\<rparr>"

lemma flaky_reads:
  assumes "length (drop n xs) = 7"
  shows "reads flaky_ops b \<lparr>tit_sto = storage_of es, tit_remain = xs\<rparr> (map test_entry (take n xs))
    \<lparr>tit_sto = storage_of es, tit_remain = drop n xs\<rparr>"
  using assms
proof (induction n arbitrary: xs)
  case (Suc n)
  then obtain x ys where xs: "xs = x # ys" by (cases xs) auto
  have ys: "length (drop n ys) = 7" "6 < length ys" using Suc.prems xs by simp_all
  have "st_next flaky_ops b \<lparr>tit_sto = storage_of es, tit_remain = xs\<rparr> =
      NextItem x \<lparr>tit_sto = storage_of es, tit_remain = ys\<rparr>"
    using ys(2) by (simp add: xs flaky_ops_def test_next_def) (simp add: storage_of_def)
  from reads_Cons [OF this Suc.IH [OF ys(1)]] show ?case
    by (simp add: xs flaky_ops_def test_entry_def)
qed (simp add: reads_Nil)

section \<open>Sample worlds\<close>

text \<open>Three lists of three nodes, and the world after the first attach.\<close>

definition world_of :: "'v codec \<Rightarrow> 'v world" where
  "world_of c = world_init sample_key (\<lambda>_. c) 3"

definition attached_of :: "'v codec \<Rightarrow> 'v world" where
  "attached_of c =
     \<lparr>w_heap = set_taken 0 3 (w_heap (world_of c)),
      w_lists = (w_lists (world_of c))(2 := \<lparr>li_list = [0], li_seq = seq_new 3\<rparr>),
      w_tokens = [(0, 2, Attaching False None)]\<rparr>"

abbreviation reachable_of :: "'v codec \<Rightarrow> 'v world \<Rightarrow> bool" where
  "reachable_of c \<equiv> reachable test_ops cbor_externs 3 sample_key (\<lambda>_. c)"

abbreviation sample_step :: "'v world \<Rightarrow> 'v world \<Rightarrow> bool" where
  "sample_step \<equiv> world_step test_ops cbor_externs 3"

lemma sample_attach_step: "sample_step (world_of c) (attached_of c)"
proof -
  have "attach_lock 2 0 (w_heap (world_of c)) (w_lists (world_of c) 2) =
      (Ok False, w_heap (attached_of c), w_lists (attached_of c) 2, [WakeNeedsRead])"
    by (simp add: world_of_def attached_of_def world_init_def attach_lock_def node_new_def find_node_def Let_def)
  from ws_attach [OF _ this] show ?thesis
    by (simp add: world_of_def attached_of_def world_init_def valid_list_def)
qed

lemma sample_reachable_attached: "reachable_of c (world_of c)" "reachable_of c (attached_of c)"
proof -
  show init: "reachable_of c (world_of c)" by (simp add: reachable_def world_of_def)
  show "reachable_of c (attached_of c)" by (rule reachable_step [OF init sample_attach_step])
qed

lemma sample_attached_read:
  obtains out where "process_reads test_ops cbor_externs sample_buf (w_heap (attached_of c)) (w_lists (attached_of c) 2) test_default = Some out"
    "is_ok (o_res out)" "o_heap out 0 = (w_heap (attached_of c) 0)\<lparr>n_state := NonResident\<rparr>"
proof -
  have fresh: "fresh_list 3 (w_heap (attached_of c)) (w_lists (attached_of c) 2)"
    by (simp add: fresh_list_def attached_of_def distinct_keys_def)
  obtain out where out: "process_reads test_ops cbor_externs sample_buf (w_heap (attached_of c)) (w_lists (attached_of c) 2) test_default = Some out"
    "is_ok (o_res out)"
    "\<And>i. o_heap out i = (if i \<in> set (li_list (w_lists (attached_of c) 2))
       then read_node cbor_externs (newest_data (contents cbor_externs (map fst (test_view test_default)))) (w_heap (attached_of c) i)
       else w_heap (attached_of c) i)"
    using test_storage.restart_reads [where buf = sample_buf and X = cbor_externs, OF sample_healthy(1) _ fresh]
    by (metis sample_healthy(2) contents_Nil distinct.simps(1) list.map(1) zero_less_numeral)
  have "li_list (w_lists (attached_of c) 2) = [0]" "n_state (w_heap (attached_of c) 0) = Initial"
    by (simp_all add: attached_of_def world_of_def world_init_def node_new_def)
  then have "o_heap out 0 = (w_heap (attached_of c) 0)\<lparr>n_state := NonResident\<rparr>"
    using out(3) [of 0] by (simp add: sample_healthy newest_data_def max_seq_def read_node_def)
  with out(1,2) show thesis by (rule that)
qed

text \<open>A world with a handle: attached, read from an empty storage, observed, and given a default value.\<close>

lemma sample_handle_world:
  obtains w where "reachable_of c w" "w_tokens w = [(0, 2, Handle)]"
proof -
  obtain out where out: "process_reads test_ops cbor_externs sample_buf (w_heap (attached_of c)) (w_lists (attached_of c) 2) test_default = Some out"
    "is_ok (o_res out)" "o_heap out 0 = (w_heap (attached_of c) 0)\<lparr>n_state := NonResident\<rparr>"
    by (rule sample_attached_read)
  define w1 where "w1 = set_list 2 (o_inner out) (o_heap out) (attached_of c)"
  have "sample_step (attached_of c) w1"
    unfolding w1_def by (rule ws_reads [OF _ out(1)]) (simp add: valid_list_def)
  note r1 = reachable_step [OF sample_reachable_attached(2) this]
  have "w_tokens w1 = [] @ (0, 2, Attaching False None) # []" "attach_observe 0 (w_heap w1) = Some NonResident"
    by (simp_all add: w1_def attached_of_def attach_observe_def out(3))
  note r2 = reachable_step [OF r1 ws_observe [OF this]]
  let ?w2 = "w1\<lparr>w_tokens := [] @ (0, 2, Attaching False (Some NonResident)) # []\<rparr>"
  have "w_tokens ?w2 = [] @ (0, 2, Attaching False (Some NonResident)) # []"
    "attach_finish dflt False NonResident 0 (w_heap ?w2) =
      Some ((w_heap ?w2)(0 := (w_heap ?w2 0)\<lparr>n_t := Some dflt, n_state := NeedsWrite\<rparr>))"
    by (simp_all add: attach_finish_def)
  note r3 = reachable_step [OF r2 ws_finish [OF this]]
  show thesis by (rule that [OF r3]) simp
qed

abbreviation sample_world :: "u8 world" where
  "sample_world \<equiv> world_of cfg_codec"

abbreviation sample_attached :: "u8 world" where
  "sample_attached \<equiv> attached_of cfg_codec"

abbreviation sample_reachable :: "u8 world \<Rightarrow> bool" where
  "sample_reachable \<equiv> reachable_of cfg_codec"

lemmas sample_reachables = sample_reachable_attached [where c = cfg_codec]

section \<open>A sample worker\<close>

definition sample_site :: "(u8, test_storage) site" where
  "sample_site = \<lparr>si_heap = sample_heap, si_inner = sample_list, si_storage = test_default\<rparr>"

text \<open>
  A node is written and signals; a second node is attached 9.95 seconds later, and its read is served
  0.1 seconds after that, just before the pause of the write signal ends.
\<close>

definition sample_waiting :: worker where
  "sample_waiting = worker_new\<lparr>wk_now := 10050, wk_read := Debouncing 10050, wk_write := Debouncing 10000\<rparr>"

lemma sample_waiting_run:
  "worker_run test_ops cbor_externs 3 sample_buf
     [SignalWrite, Poll, Tick 9950, SignalRead, Poll, Tick 100] (worker_new, sample_site) = Some (sample_waiting, sample_site)"
  by (simp add: worker_event_def worker_poll_def worker_new_def sample_waiting_def READ_DEBOUNCE_def WRITE_DEBOUNCE_def Let_def)

lemma sample_reads:
  "\<exists>st. run_reads test_ops cbor_externs sample_buf sample_site = Some (Ok \<lparr>pr_total_bytes_read = 0, pr_current_bytes_read = 0\<rparr>, st) \<and>
     si_inner st = sample_list"
  by (simp add: run_reads_def process_reads_def get_or_populate_latest_def sample_site_def sample_list_def seq_new_def
      initial_scan_completed_def highest_seen_def numeral_3_eq_3 Let_def)

text \<open>The sample list, written to the empty storage.\<close>

lemma sample_write:
  obtains out where "process_writes test_ops cbor_externs sample_buf sample_heap sample_list test_default = Some out"
    "is_ok (o_res out)"
proof -
  have "\<exists>out. process_writes test_ops cbor_externs sample_buf sample_heap sample_list test_default = Some out \<and> is_ok (o_res out)"
    by (rule test_storage.process_writes_ok [where buf = sample_buf and s = test_default and n = 1 and
          li = sample_list, OF cbor_externs_ok sample_heap_ok _ sample_cache])
      (auto simp: sample_healthy sample_writing sample_fits sample_data_length sample_room, simp_all add: TEST_MAX_ELEM_SIZE_def)
  with that show thesis by blast
qed

end
