(* ===== verification/List_Properties.thy ===== *)
theory List_Properties
  imports Samples
begin

text \<open>
  What \<open>process_reads\<close>, \<open>process_writes\<close>, \<open>process_garbage\<close> and \<open>reset_cache\<close> promise, one operation at a
  time, on any storage that keeps the contract; and the situations in which the code does not do
  what its documentation says. Each property is followed by a concrete run on which it applies.
\<close>

section \<open>Reading\<close>

text \<open>What a read leaves in a node, given the data of the newest record.\<close>

definition filled :: "externs \<Rightarrow> 'v codec \<Rightarrow> ser_data list \<Rightarrow> 'v node \<Rightarrow> 'v node" where
  "filled X c ds node =
     (if n_state node \<noteq> Initial then node
      else case lookup_body X (n_key node) ds of
             None \<Rightarrow> node\<lparr>n_state := NonResident\<rparr>
           | Some body \<Rightarrow>
               (case cd_decode c body of
                  None \<Rightarrow> node\<lparr>n_state := NonResident\<rparr>
                | Some v \<Rightarrow> node\<lparr>n_t := Some v, n_state := ValidNoWriteNeeded\<rparr>))"

lemma filled_read_node: "n_vtable node = vtable_for_ty c \<Longrightarrow> read_node X ds node = filled X c ds node"
  by (auto simp: filled_def read_node_def hydrate_node_def vtable_for_ty_def deserialize_def split: option.splits)

text \<open>
  C14: The first read of a list. On a storage that keeps the contract, and holds no two records with
  the same number, it succeeds and hydrates every attached node that is still \<open>Initial\<close> from the
  newest complete record: with the decoded value if the record has its key and the value decodes,
  and to \<open>NonResident\<close> otherwise. Every other node, and the storage, is as it was; the cache is in
  step with the storage, and those who wait are woken.
\<close>

theorem first_read_hydrates:
  assumes "ndl_reader S healthy view it_ok passed todo" and "healthy (length buf) s" and "0 < kept"
    and "fresh_list kept h li" and "\<forall>i \<in> set (li_list li). n_vtable (h i) = vtable_for_ty (C i)"
    and "distinct (map fst (contents X (map fst (view s))))"
  shows "\<exists>out. process_reads S X buf h li s = Some out \<and> is_ok (o_res out) \<and>
    (\<forall>i. o_heap out i =
       (if i \<in> set (li_list li) then filled X (C i) (newest_data (contents X (map fst (view s)))) (h i) else h i)) \<and>
    synced X kept (map fst (view s)) (li_seq (o_inner out)) \<and> view (o_storage out) = view s \<and>
    o_wakes out = [WakeReadingDone]"
proof -
  obtain out where out: "process_reads S X buf h li s = Some out" "is_ok (o_res out)"
    "\<And>i. o_heap out i =
       (if i \<in> set (li_list li)
        then read_node X (latest_data (map fst (view s)) (scanned X kept (map fst (view s)))) (h i) else h i)"
    "o_inner out = li\<lparr>li_seq := scanned X kept (map fst (view s))\<rparr>" "view (o_storage out) = view s"
    "o_wakes out = [WakeReadingDone]"
    using ndl_reader.process_reads_fresh [OF assms(1-3)] assms(4) by (metis fresh_list_def)
  have "synced X kept (map fst (view s)) (scanned X kept (map fst (view s)))"
    using synced_scanned [OF assms(3) ndl_reader.view_typed [OF assms(1,2)] assms(6)] .
  moreover note synced_latest [OF this]
  ultimately show ?thesis
    using out assms(5) by (auto simp: filled_read_node)
qed

theorem first_read_hydrates_witness:
  "\<exists>out. process_reads test_ops cbor_externs sample_buf short_heap short_list (storage_of sample_elems) = Some out \<and>
     n_t (o_heap out 0) = Some 4 \<and> n_state (o_heap out 0) = ValidNoWriteNeeded \<and> n_state (o_heap out 1) = NonResident"
proof -
  have "\<exists>out. process_reads test_ops cbor_externs sample_buf short_heap short_list (storage_of sample_elems) = Some out \<and>
    is_ok (o_res out) \<and>
    (\<forall>i. o_heap out i = (if i \<in> set (li_list short_list)
       then filled cbor_externs cfg_codec (newest_data (contents cbor_externs (map fst (test_view (storage_of sample_elems)))))
         (short_heap i) else short_heap i)) \<and>
    synced cbor_externs 3 (map fst (test_view (storage_of sample_elems))) (li_seq (o_inner out)) \<and>
    test_view (o_storage out) = test_view (storage_of sample_elems) \<and> o_wakes out = [WakeReadingDone]"
    by (rule first_read_hydrates [OF test_storage.ndl_reader_axioms])
      (simp_all add: sample_storage short_fresh sample_distinct)
  then obtain out where out: "process_reads test_ops cbor_externs sample_buf short_heap short_list (storage_of sample_elems) = Some out"
    "\<And>i. o_heap out i = (if i \<in> set (li_list short_list)
       then filled cbor_externs cfg_codec (newest_data (contents cbor_externs (map Some sample_elems)))
         (short_heap i) else short_heap i)"
    using sample_storage(2) by auto
  have "n_t (o_heap out 0) = Some 4 \<and> n_state (o_heap out 0) = ValidNoWriteNeeded \<and> n_state (o_heap out 1) = NonResident"
    by (simp add: out(2) sample_newest filled_def short_heap_def short_list_def node_new_def short_kv_pair cfg_codec_def cfg_decode_def)
  with out(1) show ?thesis by blast
qed

text \<open>
  A node that is attached late is served from the cache: with the cache in step, a later read
  succeeds without another scan, hydrates exactly the nodes that are still \<open>Initial\<close> from the newest
  record, and leaves nodes with data, changed ones included, and the cache as they are.
\<close>

theorem late_attach_hydrates:
  assumes "ndl_reader S healthy view it_ok passed todo" and "healthy (length buf) s"
    and "synced X kept (map fst (view s)) (li_seq li)" and "initial_scan_completed (li_seq li)"
    and "distinct_keys h (li_list li)" and "\<forall>i \<in> set (li_list li). n_vtable (h i) = vtable_for_ty (C i)"
  shows "\<exists>out. process_reads S X buf h li s = Some out \<and> is_ok (o_res out) \<and>
    (\<forall>i. o_heap out i =
       (if i \<in> set (li_list li) then filled X (C i) (newest_data (contents X (map fst (view s)))) (h i) else h i)) \<and>
    o_inner out = li \<and> view (o_storage out) = view s \<and> o_wakes out = [WakeReadingDone]"
proof -
  have "cache_describes X (map fst (view s)) (li_seq li)"
    using assms(3) by (auto simp: synced_def intro: exact_describes)
  then obtain out where out: "process_reads S X buf h li s = Some out" "is_ok (o_res out)"
    "\<And>i. o_heap out i =
       (if i \<in> set (li_list li) then read_node X (latest_data (map fst (view s)) (li_seq li)) (h i) else h i)"
    "o_inner out = li" "view (o_storage out) = view s" "o_wakes out = [WakeReadingDone]"
    using ndl_reader.process_reads_cached [OF assms(1,2,4) _ assms(5)] by metis
  with assms(6) show ?thesis
    using synced_latest [OF assms(3)] by (auto simp: filled_read_node)
qed

theorem late_attach_hydrates_witness:
  "\<exists>out. process_reads test_ops cbor_externs sample_buf late_heap (sample_scanned\<lparr>li_list := [0, 1]\<rparr>) (storage_of sample_elems) = Some out \<and>
     n_t (o_heap out 0) = Some 4 \<and> n_t (o_heap out 1) = Some 9 \<and> n_state (o_heap out 1) = NeedsWrite"
proof -
  let ?li = "sample_scanned\<lparr>li_list := [0, 1]\<rparr>"
  have scan_done: "initial_scan_completed (li_seq ?li)"
    by (simp add: initial_scan_completed_def sample_next_seq)
  have "\<exists>out. process_reads test_ops cbor_externs sample_buf late_heap ?li (storage_of sample_elems) = Some out \<and>
    is_ok (o_res out) \<and>
    (\<forall>i. o_heap out i = (if i \<in> set (li_list ?li)
       then filled cbor_externs cfg_codec (newest_data (contents cbor_externs (map fst (test_view (storage_of sample_elems)))))
         (late_heap i) else late_heap i)) \<and>
    o_inner out = ?li \<and> test_view (o_storage out) = test_view (storage_of sample_elems) \<and> o_wakes out = [WakeReadingDone]"
    by (rule late_attach_hydrates [OF test_storage.ndl_reader_axioms _ _ scan_done])
      (use sample_scanned_synced(1) in \<open>simp_all add: sample_storage short_fresh del: One_nat_def\<close>)
  then obtain out where out: "process_reads test_ops cbor_externs sample_buf late_heap ?li (storage_of sample_elems) = Some out"
    "\<And>i. o_heap out i = (if i \<in> set (li_list ?li)
       then filled cbor_externs cfg_codec (newest_data (contents cbor_externs (map Some sample_elems)))
         (late_heap i) else late_heap i)"
    using sample_storage(2) by auto
  have "n_t (o_heap out 0) = Some 4 \<and> n_t (o_heap out 1) = Some 9 \<and> n_state (o_heap out 1) = NeedsWrite"
    by (simp add: out(2) sample_newest filled_def late_heap_def short_heap_def node_new_def short_kv_pair cfg_codec_def cfg_decode_def)
  with out(1) show ?thesis by blast
qed

text \<open>
  C18: The scan caches exactly the newest complete records. A record is a start element, data
  elements and an end element with the same number and the checksum of the data, next to each other;
  the scan of any healthy storage returns, reads every byte once, changes nothing, and keeps of the
  records it finds the \<open>KEPT_RECORDS\<close> with the largest numbers, in order, each with its range.
\<close>

theorem scan_finds_complete_records:
  assumes "ndl_reader S healthy view it_ok passed todo" and "healthy b s" and "0 < kept"
  shows "\<exists>q s'. get_or_populate_latest S X b (seq_new kept) 0 s =
      Some (Ok (highest_seen q), q, sum_list (map snd (view s)), s') \<and> view s' = view s \<and>
    seq_keys q = top_keys kept (map gr_seq (records_in X (map fst (view s)))) \<and>
    set (present q) \<subseteq> set (records_in X (map fst (view s))) \<and>
    (\<forall>r. r \<in> set (records_in X (map fst (view s))) \<longleftrightarrow>
       (\<exists>pre ds post. map fst (view s) = pre @ map Some (record_elems X (gr_seq r) ds) @ post \<and>
          gr_start r = length pre \<and> gr_end r = length pre + length ds + 1))"
proof -
  note typed = ndl_reader.view_typed [OF assms(1,2)]
  obtain s' where s': "get_or_populate_latest S X b (seq_new kept) 0 s =
      Some (Ok (highest_seen (scanned X kept (map fst (view s)))), scanned X kept (map fst (view s)),
        0 + sum_list (map snd (view s)), s')" "view s' = view s"
    using ndl_reader.populate_scans [OF assms] by metis
  have "set (present (scanned X kept (map fst (view s)))) \<subseteq> set (records_in X (map fst (view s)))"
    using scanned_present [OF assms(3) typed] by (metis set_mset_mono set_mset_mset)
  then show ?thesis
    using s' scanned_keys [OF assms(3) typed] located_iff by (intro exI) auto
qed

theorem scan_finds_complete_records_witness:
  "\<exists>q s'. get_or_populate_latest test_ops cbor_externs 4080 (seq_new 3) 0 (storage_of sample_elems) =
      Some (Ok (highest_seen q), q, 99, s') \<and> seq_keys q = [Some 2, Some 3, Some 4]"
proof -
  have "\<exists>q s'. get_or_populate_latest test_ops cbor_externs 4080 (seq_new 3) 0 (storage_of sample_elems) =
      Some (Ok (highest_seen q), q, sum_list (map snd (test_view (storage_of sample_elems))), s') \<and>
      test_view s' = test_view (storage_of sample_elems) \<and>
    seq_keys q = top_keys 3 (map gr_seq (records_in cbor_externs (map fst (test_view (storage_of sample_elems))))) \<and>
    set (present q) \<subseteq> set (records_in cbor_externs (map fst (test_view (storage_of sample_elems)))) \<and>
    (\<forall>r. r \<in> set (records_in cbor_externs (map fst (test_view (storage_of sample_elems)))) \<longleftrightarrow>
       (\<exists>pre ds post. map fst (test_view (storage_of sample_elems)) = pre @ map Some (record_elems cbor_externs (gr_seq r) ds) @ post \<and>
          gr_start r = length pre \<and> gr_end r = length pre + length ds + 1))"
    by (rule scan_finds_complete_records [OF test_storage.ndl_reader_axioms]) (simp_all add: sample_storage)
  moreover have "top_keys 3 (map gr_seq (records_in cbor_externs (map fst (test_view (storage_of sample_elems))))) = [Some 2, Some 3, Some 4]"
    by (simp add: sample_storage sample_contents flip: contents_seqs) (simp add: sample_records_def top_keys_def numeral_3_eq_3)
  moreover have "sum_list (map snd (test_view (storage_of sample_elems))) = 99"
    by (simp add: storage_of_def sample_elems_def sample_records_def record_elems_def ser_hdr_def test_view_def test_entry_def test_len_def)
  ultimately show ?thesis by auto
qed

section \<open>Writing\<close>

text \<open>
  C17: A write that fails changes nothing in memory, whatever the reason and however the storage
  behaved: all nodes keep their values and their need to be written, the cache is kept, so the write
  can be tried again. If moreover the storage keeps the contract, and nodes and cache are well formed, it
  holds afterwards what it held before, followed by nothing, or by a torn record with the next number.
\<close>

theorem failed_write_keeps_memory:
  assumes "process_writes S X buf h li s = Some out" and "\<not> is_ok (o_res out)"
  shows "o_heap out = h \<and> o_inner out = li \<and> o_wakes out = [] \<and>
    (\<forall>healthy view it_ok passed todo room C kept.
       ndl_storage S healthy view it_ok passed todo room \<and> externs_ok X \<and> 9 \<le> length buf \<and>
       heap_ok C h (set (li_list li)) \<and> cache_ok kept (li_seq li) \<and> healthy (length buf) s \<longrightarrow>
       healthy (length buf) (o_storage out) \<and>
       (map fst (view (o_storage out)) = map fst (view s) \<or>
        (\<exists>n t. next_seq (li_seq li) = Some n \<and> map fst (view (o_storage out)) = map fst (view s) @ t \<and>
           torn X n (list_data X C h (li_list li)) t)))"
proof (intro conjI allI impI; (elim conjE)?)
  show "o_heap out = h" "o_inner out = li" "o_wakes out = []"
    using assms by (auto simp: process_writes_def Let_def split: option.splits if_splits result.splits)
next
  fix healthy view it_ok passed todo room C kept
  assume ok: "ndl_storage S healthy view it_ok passed todo room" "externs_ok X" "9 \<le> length buf"
    "heap_ok C h (set (li_list li))" "cache_ok kept (li_seq li)" "healthy (length buf) s"
  note outcome = ndl_storage.process_writes_outcome [OF ok(1,2,4,6,5) assms(1) ok(3)]
  show "healthy (length buf) (o_storage out)" by (rule outcome(1))
  show "map fst (view (o_storage out)) = map fst (view s) \<or>
      (\<exists>n t. next_seq (li_seq li) = Some n \<and> map fst (view (o_storage out)) = map fst (view s) @ t \<and>
         torn X n (list_data X C h (li_list li)) t)"
    by (rule outcome(3))
qed

theorem failed_write_keeps_memory_witness:
  "\<exists>out. process_writes test_ops cbor_externs (replicate 14 0) sample_heap sample_list test_default = Some out \<and>
     \<not> is_ok (o_res out) \<and> o_heap out = sample_heap \<and> o_inner out = sample_list \<and>
     (map fst (test_view (o_storage out)) = [] \<or>
      (\<exists>t. map fst (test_view (o_storage out)) = t \<and>
         torn cbor_externs 1 (list_data cbor_externs (\<lambda>_. cfg_codec) sample_heap sample_nodes) t))"
proof -
  obtain out where out: "process_writes test_ops cbor_externs (replicate 14 0) sample_heap sample_list test_default = Some out"
    "\<not> is_ok (o_res out)"
    using sample_small_buf by blast
  note kept = failed_write_keeps_memory [OF out]
  have "ndl_storage test_ops test_healthy test_view test_it_ok test_passed test_todo test_room \<and> externs_ok cbor_externs \<and>
      9 \<le> length (replicate 14 (0 :: u8)) \<and> heap_ok (\<lambda>_. cfg_codec) sample_heap (set (li_list sample_list)) \<and>
      cache_ok 3 (li_seq sample_list) \<and> test_healthy (length (replicate 14 (0 :: u8))) test_default"
    using test_storage.ndl_storage_axioms cbor_externs_ok sample_heap_ok sample_cache by (simp add: sample_healthy)
  with kept have "map fst (test_view (o_storage out)) = map fst (test_view test_default) \<or>
      (\<exists>n t. next_seq (li_seq sample_list) = Some n \<and>
         map fst (test_view (o_storage out)) = map fst (test_view test_default) @ t \<and>
         torn cbor_externs n (list_data cbor_externs (\<lambda>_. cfg_codec) sample_heap (li_list sample_list)) t)"
    by blast
  with out kept show ?thesis by (simp add: sample_healthy sample_writing)
qed

text \<open>
  C12: A successful write refines one step of an abstract log. The log is the list of complete
  records in storage; the write appends one entry, the next sequence number with the data of every
  node that has data, caches it as the newest, moves on to the following number, marks the nodes
  clean and makes garbage collection due.
\<close>

theorem write_appends_to_log:
  assumes "ndl_storage S healthy view it_ok passed todo room" and "externs_ok X"
    and "heap_ok C h (set (li_list li))" and "healthy (length buf) s"
    and "synced X kept (map fst (view s)) (li_seq li)"
    and "next_seq (li_seq li) = Some n" and "\<not> needs_gc (li_seq li)" and "needs_writing h li = Ok True"
    and "fits X C h (li_list li) (length buf)" and "length (list_data X C h (li_list li)) + 2 \<le> room s"
    and "Some (Start n) \<notin> set (map fst (view s))" and "9 \<le> length buf"
  shows "\<exists>out. process_writes S X buf h li s = Some out \<and> is_ok (o_res out) \<and>
    contents X (map fst (view (o_storage out))) =
      contents X (map fst (view s)) @ [(n, list_data X C h (li_list li))] \<and>
    synced X kept (map fst (view (o_storage out))) (li_seq (o_inner out)) \<and>
    next_seq (li_seq (o_inner out)) = checked_add n 1 \<and> needs_gc (li_seq (o_inner out)) \<and>
    li_list (o_inner out) = li_list li \<and>
    (\<forall>i. o_heap out i = (if i \<in> set (li_list li) \<and> n_state (h i) = NeedsWrite
       then (h i)\<lparr>n_state := ValidNoWriteNeeded\<rparr> else h i))"
proof -
  have cache: "cache_ok kept (li_seq li)" using assms(5) by (simp add: synced_def)
  obtain out where out: "process_writes S X buf h li s = Some out" "is_ok (o_res out)"
    "o_heap out = mark_written (li_list li) h" "li_list (o_inner out) = li_list li"
    "insert_good \<lparr>gr_seq = n, gr_start = length (map fst (view s)),
       gr_end = length (map fst (view s)) + length (list_data X C h (li_list li)) + 2\<rparr> (li_seq li) =
     Some (li_seq (o_inner out))"
    "next_seq (li_seq (o_inner out)) = checked_add n 1" "needs_gc (li_seq (o_inner out))"
    "map fst (view (o_storage out)) = map fst (view s) @ map Some (record_elems X n (list_data X C h (li_list li)))"
    using ndl_storage.process_writes_ok [OF assms(1-4) cache assms(6-12)] by metis
  have "mark_written (li_list li) h i = (if i \<in> set (li_list li) \<and> n_state (h i) = NeedsWrite
       then (h i)\<lparr>n_state := ValidNoWriteNeeded\<rparr> else h i)" for i
    by (rule node.equality) (simp_all add: mark_written_state)
  then show ?thesis
    using out synced_write(1) [OF assms(5-7) refl out(5)] contents_snoc by (intro exI [of _ out]) simp
qed

theorem write_appends_to_log_witness:
  "\<exists>out. process_writes test_ops cbor_externs sample_buf sample_heap sample_list test_default = Some out \<and> is_ok (o_res out) \<and>
     contents cbor_externs (map fst (test_view (o_storage out))) =
       [(1, list_data cbor_externs (\<lambda>_. cfg_codec) sample_heap sample_nodes)] \<and>
     next_seq (li_seq (o_inner out)) = Some 2"
proof -
  have "\<exists>out. process_writes test_ops cbor_externs sample_buf sample_heap sample_list test_default = Some out \<and> is_ok (o_res out) \<and>
    contents cbor_externs (map fst (test_view (o_storage out))) =
      contents cbor_externs (map fst (test_view test_default)) @
      [(1, list_data cbor_externs (\<lambda>_. cfg_codec) sample_heap (li_list sample_list))] \<and>
    synced cbor_externs 3 (map fst (test_view (o_storage out))) (li_seq (o_inner out)) \<and>
    next_seq (li_seq (o_inner out)) = checked_add 1 1 \<and> needs_gc (li_seq (o_inner out)) \<and>
    li_list (o_inner out) = li_list sample_list \<and>
    (\<forall>i. o_heap out i = (if i \<in> set (li_list sample_list) \<and> n_state (sample_heap i) = NeedsWrite
       then (sample_heap i)\<lparr>n_state := ValidNoWriteNeeded\<rparr> else sample_heap i))"
    by (rule write_appends_to_log [OF test_storage.ndl_storage_axioms cbor_externs_ok sample_heap_ok])
      (simp_all add: sample_writing sample_healthy sample_synced sample_fits sample_data_length sample_room,
       simp_all add: TEST_MAX_ELEM_SIZE_def)
  then show ?thesis by (auto simp: sample_healthy sample_writing checked_add_def)
qed

text \<open>
  An unfinished record makes a write fail. If storage holds a start element with the next
  sequence number whose record is unfinished, and no collection is due, a write puts its whole record
  into storage and then fails verification, with memory and cache unchanged; garbage collection does
  nothing, as none is due; and the next write fails in the same way.
\<close>

theorem unfinished_record_rejects_writes:
  assumes "ndl_storage S healthy view it_ok passed todo room" and "externs_ok X"
    and "heap_ok C h (set (li_list li))" and "healthy (length buf) s" and "9 \<le> length buf"
    and "cache_ok kept (li_seq li)" and "next_seq (li_seq li) = Some n" and "\<not> needs_gc (li_seq li)"
    and "needs_writing h li = Ok True" and "fits X C h (li_list li) (length buf)"
    and "length (list_data X C h (li_list li)) + 2 \<le> room s"
    and "map fst (view s) = es @ Some (Start n) # data_elems ds @ u" and "Some (Start n) \<notin> set es"
    and "u = [] \<or> (\<exists>x post. u = x # post \<and> separator x)"
  shows "\<exists>s1. process_writes S X buf h li s =
      Some \<lparr>o_res = Err WriteVerificationFailed, o_heap = h, o_inner = li, o_storage = s1, o_wakes = []\<rparr> \<and>
    contents X (map fst (view s1)) = contents X (map fst (view s)) @ [(n, list_data X C h (li_list li))] \<and>
    process_garbage S X kept buf li s1 =
      Some (Ok \<lparr>pg_total_bytes_read = 0, pg_post_collection_bytes_read = 0, pg_total_bytes_popped = 0\<rparr>, li, s1) \<and>
    (length (list_data X C h (li_list li)) + 2 \<le> room s1 \<longrightarrow>
      (\<exists>s2. process_writes S X buf h li s1 =
        Some \<lparr>o_res = Err WriteVerificationFailed, o_heap = h, o_inner = li, o_storage = s2, o_wakes = []\<rparr>))"
proof -
  note stale = ndl_storage.process_writes_stale [OF assms(1-3) _ assms(6-10) _ _ assms(13) _ assms(5)]
  obtain s1 where s1: "process_writes S X buf h li s =
      Some \<lparr>o_res = Err WriteVerificationFailed, o_heap = h, o_inner = li, o_storage = s1, o_wakes = []\<rparr>"
    "healthy (length buf) s1"
    "map fst (view s1) = map fst (view s) @ map Some (record_elems X n (list_data X C h (li_list li)))"
    using stale [OF assms(4,11,12,14)] by metis
  let ?u = "u @ map Some (record_elems X n (list_data X C h (li_list li)))"
  have "map fst (view s1) = es @ Some (Start n) # data_elems ds @ ?u"
    using s1(3) assms(12) by simp
  moreover have "?u = [] \<or> (\<exists>x post. ?u = x # post \<and> separator x)"
    using assms(14) by (auto simp: record_elems_def)
  ultimately have "\<exists>s2. process_writes S X buf h li s1 =
        Some \<lparr>o_res = Err WriteVerificationFailed, o_heap = h, o_inner = li, o_storage = s2, o_wakes = []\<rparr>"
    if "length (list_data X C h (li_list li)) + 2 \<le> room s1"
    using stale [OF s1(2) that] by metis
  then show ?thesis
    using s1 assms(8) by (intro exI [of _ s1]) (simp add: contents_snoc process_garbage_def gc_begin_def)
qed

theorem unfinished_record_rejects_writes_witness:
  "\<exists>s1. process_writes test_ops cbor_externs sample_buf sample_heap sample_list (storage_of torn_elems) =
      Some \<lparr>o_res = Err WriteVerificationFailed, o_heap = sample_heap, o_inner = sample_list, o_storage = s1, o_wakes = []\<rparr>"
proof -
  have "\<exists>s1. process_writes test_ops cbor_externs sample_buf sample_heap sample_list (storage_of torn_elems) =
      Some \<lparr>o_res = Err WriteVerificationFailed, o_heap = sample_heap, o_inner = sample_list, o_storage = s1, o_wakes = []\<rparr> \<and>
    contents cbor_externs (map fst (test_view s1)) = contents cbor_externs (map fst (test_view (storage_of torn_elems))) @
      [(1, list_data cbor_externs (\<lambda>_. cfg_codec) sample_heap (li_list sample_list))] \<and>
    process_garbage test_ops cbor_externs 3 sample_buf sample_list s1 =
      Some (Ok \<lparr>pg_total_bytes_read = 0, pg_post_collection_bytes_read = 0, pg_total_bytes_popped = 0\<rparr>, sample_list, s1) \<and>
    (length (list_data cbor_externs (\<lambda>_. cfg_codec) sample_heap (li_list sample_list)) + 2 \<le> test_room s1 \<longrightarrow>
      (\<exists>s2. process_writes test_ops cbor_externs sample_buf sample_heap sample_list s1 =
        Some \<lparr>o_res = Err WriteVerificationFailed, o_heap = sample_heap, o_inner = sample_list, o_storage = s2, o_wakes = []\<rparr>))"
    by (rule unfinished_record_rejects_writes [OF test_storage.ndl_storage_axioms cbor_externs_ok sample_heap_ok _ _ sample_cache,
          where n = 1 and es = "[]" and ds = "[SerData [1, 0x61, 0x61, 0x81, 4]]" and u = "[]"])
      (simp_all add: sample_writing sample_fits sample_data_length torn_storage,
       simp_all add: TEST_MAX_ELEM_SIZE_def torn_elems_def)
  then show ?thesis by blast
qed

text \<open>
  C31: The last sequence number. A storage whose newest record has number \<open>2 ^ 32 - 1\<close> is still read,
  but it cannot be written any more: no next number exists, and every write ends in
  \<open>NeedsFirstRead\<close>, although a read has just succeeded.
\<close>

theorem last_number_stops_writes:
  assumes "ndl_reader S healthy view it_ok passed todo" and "healthy (length buf) s" and "0 < kept"
    and "fresh_list kept h li" and "(- 1, ds) \<in> set (contents X (map fst (view s)))"
  shows "\<exists>out. process_reads S X buf h li s = Some out \<and> is_ok (o_res out) \<and>
    next_seq (li_seq (o_inner out)) = None \<and>
    process_writes S X buf2 (o_heap out) (o_inner out) s2 =
      Some \<lparr>o_res = Err (AppError NeedsFirstRead), o_heap = o_heap out, o_inner = o_inner out,
            o_storage = s2, o_wakes = []\<rparr>"
proof -
  let ?es = "map fst (view s)"
  note typed = ndl_reader.view_typed [OF assms(1,2)]
  obtain out where out: "process_reads S X buf h li s = Some out" "is_ok (o_res out)"
    "o_inner out = li\<lparr>li_seq := scanned X kept ?es\<rparr>"
    using ndl_reader.process_reads_fresh [OF assms(1-3)] assms(4) by (metis fresh_list_def)
  have "(- 1) \<in> fst ` set (contents X ?es)"
    using assms(5) by force
  then have mem: "(- 1) \<in> gr_seq ` set (records_in X ?es)"
    by (metis contents_seqs list.set_map)
  then have ne: "records_in X ?es \<noteq> []" by auto
  obtain r :: good_write_record where r: "gr_seq r = Max (gr_seq ` set (records_in X ?es))"
    "next_seq (scanned X kept ?es) = checked_add (gr_seq r) 1"
    using scanned_highest [OF assms(3) typed ne] by metis
  have "(- 1) \<le> gr_seq r"
    unfolding r(1) using mem by (intro Max_ge) auto
  then have "gr_seq r = (- 1)"
    by (simp add: word_order.extremum_unique)
  then have "next_seq (scanned X kept ?es) = None"
    using r(2) by (simp add: checked_add_def unsigned_minus_1_eq_mask mask_eq_exp_minus_1)
  then show ?thesis
    using out by (intro exI [of _ out]) (simp add: process_writes_guards(1))
qed

theorem last_number_stops_writes_witness:
  "\<exists>out. process_reads test_ops cbor_externs sample_buf short_heap short_list (storage_of last_elems) = Some out \<and>
     is_ok (o_res out) \<and> next_seq (li_seq (o_inner out)) = None"
proof -
  have "contents cbor_externs (map fst (test_view (storage_of last_elems))) = [(- 1, [SerData [1, 0x61, 0x61, 0x81, 4]])]"
    using contents_snoc [of cbor_externs "[]" "- 1"] by (simp add: last_storage) (simp add: last_elems_def)
  then have mem: "(- 1, [SerData [1, 0x61, 0x61, 0x81, 4]]) \<in>
      set (contents cbor_externs (map fst (test_view (storage_of last_elems))))" by simp
  have "\<exists>out. process_reads test_ops cbor_externs sample_buf short_heap short_list (storage_of last_elems) = Some out \<and>
    is_ok (o_res out) \<and> next_seq (li_seq (o_inner out)) = None \<and>
    process_writes test_ops cbor_externs sample_buf (o_heap out) (o_inner out) test_default =
      Some \<lparr>o_res = Err (AppError NeedsFirstRead), o_heap = o_heap out, o_inner = o_inner out,
            o_storage = test_default, o_wakes = []\<rparr>"
    by (rule last_number_stops_writes [OF test_storage.ndl_reader_axioms _ _ short_fresh(1) mem])
      (simp_all add: last_storage)
  then show ?thesis by blast
qed

section \<open>Recovery and its limits\<close>

lemma wiped_read:
  assumes "process_reads test_ops cbor_externs sample_buf h (reset_cache 3 li) test_default = Some out"
  shows "o_storage out = test_default"
proof -
  have "scan_loop test_ops cbor_externs b \<lparr>tit_sto = test_default, tit_remain = []\<rparr> st =
      Some (Ok (), \<lparr>tit_sto = test_default, tit_remain = []\<rparr>, st)" for b st
    by (rule scan_loop_end) (simp add: test_next_def test_default_def)
  then show ?thesis
    using assms by (auto simp: process_reads_def get_or_populate_latest_def reset_cache_def seq_new_def initial_scan_completed_def
        test_iter_elems_def test_default_def scan_init_def highest_seen_def numeral_3_eq_3)
qed

text \<open>
  C30: Recovery after the storage was wiped under a running list, as the documentation of
  \<open>reset_cache\<close> describes it: reset the cache, read, write. The read leaves every node as it was,
  and the write puts the values of all nodes with data into storage, whether they were changed or not.
\<close>

theorem reset_recovers:
  assumes "ndl_storage S healthy view it_ok passed todo room" and "externs_ok X"
    and "heap_ok C h (set (li_list li))" and "healthy (length buf) s" and "view s = []"
    and "0 < kept" and "distinct_keys h (li_list li)" and "\<forall>i \<in> set (li_list li). n_state (h i) \<noteq> Initial"
    and "fits X C h (li_list li) (length buf)"
    and "\<And>out. process_reads S X buf h (reset_cache kept li) s = Some out \<Longrightarrow>
      length (list_data X C h (li_list li)) + 2 \<le> room (o_storage out)"
    and "9 \<le> length buf"
  shows "\<exists>out out2. process_reads S X buf h (reset_cache kept li) s = Some out \<and> is_ok (o_res out) \<and>
    o_heap out = h \<and> process_writes S X buf h (o_inner out) (o_storage out) = Some out2 \<and> is_ok (o_res out2) \<and>
    contents X (map fst (view (o_storage out2))) = [(1, list_data X C h (li_list li))]"
proof -
  note reader = ndl_storage.axioms(1) [OF assms(1)]
  let ?li = "reset_cache kept li"
  have lseq: "li_seq ?li = seq_new kept" and lst: "li_list ?li = li_list li"
    and keys: "distinct_keys h (li_list ?li)"
    using assms(7) by (simp_all add: reset_cache_def)
  obtain out where out: "process_reads S X buf h ?li s = Some out" "is_ok (o_res out)"
    "\<And>i. o_heap out i = (if i \<in> set (li_list li)
       then read_node X (latest_data [] (scanned X kept [])) (h i) else h i)"
    "o_inner out = ?li\<lparr>li_seq := scanned X kept []\<rparr>" "healthy (length buf) (o_storage out)" "view (o_storage out) = []"
    using ndl_reader.process_reads_fresh [OF reader assms(4,6) lseq keys, where X = X] unfolding lst assms(5) list.map
    by metis
  have heap: "o_heap out = h"
    using out(3) assms(8) by (auto simp: read_node_def)
  have seq: "scanned X kept [] = (seq_new kept)\<lparr>next_seq := Some 1\<rparr>"
    by (rule scanned_no_records) (simp add: records_in_def)
  have inner: "li_list (o_inner out) = li_list li" "li_seq (o_inner out) = (seq_new kept)\<lparr>next_seq := Some 1\<rparr>"
    using out(4) seq by (simp_all add: reset_cache_def)
  have cache: "cache_ok kept (li_seq (o_inner out))"
    using cache_ok_new [OF assms(6)] inner(2)
    by (auto simp: cache_ok_def seq_wf_def seq_keys_def next_ok_def)
  have needs: "needs_writing h (o_inner out) = Ok True"
    using inner assms(8) by (auto simp: needs_writing_def scan_needs_writing_eq)
  have nogc: "\<not> needs_gc (li_seq (o_inner out))" "next_seq (li_seq (o_inner out)) = Some 1"
    using inner by (simp_all add: seq_new_def)
  obtain out2 where "process_writes S X buf h (o_inner out) (o_storage out) = Some out2" "is_ok (o_res out2)"
    "map fst (view (o_storage out2)) = map fst (view (o_storage out)) @ map Some (record_elems X 1 (list_data X C h (li_list li)))"
    using ndl_storage.process_writes_ok [OF assms(1,2) _ out(5) cache nogc(2,1) needs, of C]
      assms(3,9,11) assms(10) [OF out(1)] out(6) inner(1)
    by (metis list.map(1) list.set(1) empty_iff)
  with out heap show ?thesis
    using contents_snoc [of X "[]"] by (intro exI [of _ out] exI [of _ out2]) simp
qed

theorem reset_recovers_witness:
  "\<exists>out out2. process_reads test_ops cbor_externs sample_buf sample_heap (reset_cache 3 sample_list) test_default = Some out \<and>
     o_heap out = sample_heap \<and>
     process_writes test_ops cbor_externs sample_buf sample_heap (o_inner out) (o_storage out) = Some out2 \<and> is_ok (o_res out2) \<and>
     contents cbor_externs (map fst (test_view (o_storage out2))) =
       [(1, list_data cbor_externs (\<lambda>_. cfg_codec) sample_heap sample_nodes)]"
proof -
  have "\<exists>out out2. process_reads test_ops cbor_externs sample_buf sample_heap (reset_cache 3 sample_list) test_default = Some out \<and>
    is_ok (o_res out) \<and> o_heap out = sample_heap \<and>
    process_writes test_ops cbor_externs sample_buf sample_heap (o_inner out) (o_storage out) = Some out2 \<and> is_ok (o_res out2) \<and>
    contents cbor_externs (map fst (test_view (o_storage out2))) =
      [(1, list_data cbor_externs (\<lambda>_. cfg_codec) sample_heap (li_list sample_list))]"
    by (rule reset_recovers [OF test_storage.ndl_storage_axioms cbor_externs_ok sample_heap_ok])
      (auto simp: sample_writing sample_keys sample_healthy sample_fits sample_data_length sample_room wiped_read,
       simp_all add: TEST_MAX_ELEM_SIZE_def sample_heap_def test_view_def test_default_def split: if_splits)
  then show ?thesis by (auto simp: sample_writing)
qed

text \<open>
  C26: A scan that is interrupted by a read error is believed. If the storage fails to read once,
  behind at least one complete record, the operation returns the error, but the cache then counts as
  populated: from now on the list takes the newest record in front of the error for the newest one,
  although the storage reads well again. The next garbage collection deletes every record behind it.
\<close>

theorem interrupted_scan_loses_records:
  assumes "ndl_storage S healthy view it_ok passed todo room" and "healthy (length buf) s" and "0 < kept"
    and "view s = xs @ ys" and "records_in X (map fst xs) \<noteq> []"
    and "Max (gr_seq ` set (records_in X (map fst xs))) = m" and "m \<noteq> - 1"
    and "st_iter F s0 = IterOk it" and "reads F b it xs it1" and "st_next F b it1 = NextErr e it2"
  shows "\<exists>q n c li' s'.
    get_or_populate_latest F X b (seq_new kept) 0 s0 = Some (Err (FlashRead e), q, n, st_release F it2) \<and>
    map_option gr_seq (highest_seen q) = Some m \<and>
    get_or_populate_latest S X (length buf) q 0 s = Some (Ok (highest_seen q), q, 0, s) \<and>
    process_garbage S X kept buf (li\<lparr>li_seq := q\<rparr>) s = Some (Ok c, li', s') \<and>
    (\<forall>k \<in> fst ` set (contents X (map fst (view s'))). k \<le> m)"
proof -
  note reader = ndl_storage.axioms(1) [OF assms(1)]
  have typed: "entries_typed xs"
    using ndl_reader.view_typed [OF reader assms(2)] assms(4) by (auto simp: entries_typed_def)
  let ?q = "scanned X kept (map fst xs)"
  have seqs: "gr_seq ` set (present ?q) \<subseteq> gr_seq ` set (records_in X (map fst xs))"
    using set_mset_mono [OF scanned_present [OF assms(3) typed]] by auto
  obtain r :: good_write_record where r: "highest_seen ?q = Some r" "gr_seq r = m" "next_seq ?q = checked_add (gr_seq r) 1"
    using scanned_highest [OF assms(3) typed assms(5)] assms(6) by metis
  have "unat m \<noteq> unat (- 1 :: u32)" using assms(7) by (simp only: word_unat_eq_iff not_False_eq_True)
  then have "unat m + 1 < 2 ^ 32"
    using unsigned_less [of m, where ?'a = nat] by (simp add: unsigned_minus_1_eq_mask mask_eq_exp_minus_1)
  then have scan_done: "initial_scan_completed ?q"
    using r(2,3) by (simp add: initial_scan_completed_def checked_add_def)
  have exact: "cache_exact X (map fst (view s)) ?q"
    using scanned_prefix_exact [OF assms(3) typed] assms(4) by simp
  obtain s1 n p where sweep: "gc_sweep S (length buf) ?q s = Some (Ok (), s1, n, p)"
    "healthy (length buf) s1" "map fst (view s1) = layout X (kept_contents ?q 0 (segments X (map fst (view s))))"
    by (rule ndl_storage.gc_sweep_ok [OF assms(1,2) exact])
  obtain s2 n2 where scan: "get_or_populate_latest S X (length buf) (seq_new kept) 0 s1 =
      Some (Ok (highest_seen (scanned X kept (map fst (view s1)))), scanned X kept (map fst (view s1)), n2, s2)"
    "view s2 = view s1"
    using ndl_reader.populate_scans [OF reader sweep(2) assms(3)] by metis
  have "needs_gc ?q" using scanned_needs_gc [OF assms(3) typed] assms(5) by simp
  then have "\<exists>c li'. process_garbage S X kept buf (li\<lparr>li_seq := ?q\<rparr>) s = Some (Ok c, li', s2)"
    using sweep(1) scan(1) by (simp add: process_garbage_def gc_begin_def gc_finish_def)
  then obtain c li' where gc: "process_garbage S X kept buf (li\<lparr>li_seq := ?q\<rparr>) s = Some (Ok c, li', s2)"
    by blast
  have "k \<le> m" if "k \<in> fst ` set (contents X (map fst (view s2)))" for k
  proof -
    have "k \<in> gr_seq ` set (records_in X (map fst xs))"
      using that scan(2) sweep(3) kept_contents_cached seqs by fastforce
    then show ?thesis unfolding assms(6) [symmetric] by (intro Max_ge) auto
  qed
  then show ?thesis
    using populate_interrupted [OF assms(3) typed assms(5,8-10)] r scan_done gc
    by (intro exI [of _ ?q] exI [of _ "0 + sum_list (map snd xs)"] exI [of _ c] exI [of _ li'] exI [of _ s2])
      (simp add: get_or_populate_latest_def)
qed

theorem interrupted_scan_loses_records_witness:
  "\<exists>q n c li' s' e it. get_or_populate_latest flaky_ops cbor_externs 4080 (seq_new 3) 0 (storage_of sample_elems) =
      Some (Err (FlashRead e), q, n, it) \<and>
    process_garbage test_ops cbor_externs 3 sample_buf (sample_scanned\<lparr>li_seq := q\<rparr>) (storage_of sample_elems) = Some (Ok c, li', s') \<and>
    3 \<notin> fst ` set (contents cbor_externs (map fst (test_view s')))"
proof -
  let ?it = "\<lambda>xs. \<lparr>tit_sto = storage_of sample_elems, tit_remain = xs\<rparr>"
  let ?items = "ts_items (storage_of sample_elems)"
  have len: "length (drop 9 ?items) = 7"
    by (simp add: storage_of_def sample_elems_def sample_records_def record_elems_def)
  have view: "test_view (storage_of sample_elems) = map test_entry (take 9 ?items) @ map test_entry (drop 9 ?items)"
    by (simp add: test_view_def flip: map_append)
  have prefix: "map fst (map test_entry (take 9 ?items)) = take 9 (map Some sample_elems)"
    using sample_storage(2) by (simp add: test_view_def flip: take_map)
  have "contents cbor_externs (take 9 (map Some sample_elems)) = take 2 sample_records"
    by (simp add: contents_def sample_elems_def sample_records_def record_elems_def closes_def)
  then have seqs: "map gr_seq (records_in cbor_externs (map fst (map test_entry (take 9 ?items)))) = [1, 2]"
    unfolding prefix by (simp add: sample_records_def flip: contents_seqs)
  have set: "gr_seq ` set (records_in cbor_externs (map fst (map test_entry (take 9 ?items)))) = {1, 2}"
    unfolding set_map [symmetric] seqs by simp
  then have max: "Max (gr_seq ` set (records_in cbor_externs (map fst (map test_entry (take 9 ?items))))) = 2"
    by (simp only: set) simp
  have "records_in cbor_externs (map fst (map test_entry (take 9 ?items))) \<noteq> []"
    using set by auto
  note prefix_facts = this max
  have "\<exists>q n c li' s'.
    get_or_populate_latest flaky_ops cbor_externs 4080 (seq_new 3) 0 (storage_of sample_elems) =
      Some (Err (FlashRead FakeBadRead), q, n, st_release flaky_ops (?it (drop 9 ?items))) \<and>
    map_option gr_seq (highest_seen q) = Some 2 \<and>
    get_or_populate_latest test_ops cbor_externs (length sample_buf) q 0 (storage_of sample_elems) =
      Some (Ok (highest_seen q), q, 0, storage_of sample_elems) \<and>
    process_garbage test_ops cbor_externs 3 sample_buf (sample_scanned\<lparr>li_seq := q\<rparr>) (storage_of sample_elems) = Some (Ok c, li', s') \<and>
    (\<forall>k \<in> fst ` set (contents cbor_externs (map fst (test_view s'))). k \<le> 2)"
    by (rule interrupted_scan_loses_records [OF test_storage.ndl_storage_axioms _ _ view prefix_facts _ _ flaky_reads [OF len]])
      (use len in \<open>simp_all add: sample_storage flaky_ops_def test_iter_elems_def\<close>, simp_all add: storage_of_def)
  then show ?thesis by fastforce
qed

end
