(* ===== verification/Handle_Properties.thy ===== *)
theory Handle_Properties
  imports Samples
begin

text \<open>
  What \<open>attach\<close>, the handles and \<open>detach\<close> promise in every world that can be reached, with any
  number of lists and nodes, and the list operations of the workers interleaved in any order and on
  any storage, healthy or not.
\<close>

section \<open>Node states\<close>

text \<open>
  The byte in an \<open>AtomicState\<close> and the state it stands for determine each other: what was stored is
  loaded, and \<open>load\<close> is defined exactly on the bytes of the four states.
\<close>

lemma atomic_state_sound:
  "atomic_load (atomic_new s) = Some s \<and> atomic_load (atomic_store a s) = Some s \<and>
   (atomic_load (AtomicState b) = Some s \<longleftrightarrow> b = into_u8 s)"
  by (simp add: into_from_u8)

section \<open>Safety\<close>

text \<open>
  C16: A handle can always be used. In every reachable world, a node with a handle has data: \<open>load\<close>
  returns it and does not panic, \<open>write\<close> succeeds, replaces it, marks the node as changed and wakes
  the writer, and the list the handle computes from the node's pointer is the one it was attached to.
\<close>

theorem handles_usable:
  assumes "reachable S X kept K C w" and "(i, a, Handle) \<in> set (w_tokens w)"
  shows "\<exists>v. handle_load i (w_heap w) = Some v \<and> handle_list i (w_heap w) = a \<and>
    handle_write t i (w_heap w) =
      Some (Ok (), (w_heap w)(i := (w_heap w i)\<lparr>n_t := Some t, n_state := NeedsWrite\<rparr>), [WakeNeedsWrite])"
proof -
  note handle = safe_handle [OF reachable_safe [OF assms(1)] assms(2)]
  then obtain v where "n_t (w_heap w i) = Some v" by blast
  then show ?thesis
    using handle by (auto simp: handle_load_Some handle_list_def handle_write_ok)
qed

theorem handles_usable_witness:
  "\<exists>w v. sample_reachable w \<and> w_tokens w = [(0, 2, Handle)] \<and> handle_load 0 (w_heap w) = Some v \<and> handle_list 0 (w_heap w) = 2"
proof -
  obtain w where w: "sample_reachable w" "w_tokens w = [(0, 2, Handle)]" by (rule sample_handle_world)
  from w(2) have "(0, 2, Handle) \<in> set (w_tokens w)" by simp
  from handles_usable [OF w(1) this, of 5] w show ?thesis by blast
qed

text \<open>
  C6: No reachable world leads to a panic or to uninitialised data. In it, an attach that has observed
  a state completes, \<open>detach\<close> always returns, and the nodes of a list are fit for the list operations:
  every node keeps the functions of its own type and has data whenever its state says so, and no two
  nodes of a list have the same key.
\<close>

theorem reachable_worlds_are_safe:
  assumes "reachable S X kept K C w" and "valid_list a"
  shows "(\<forall>i b already st. (i, b, Attaching already (Some st)) \<in> set (w_tokens w) \<longrightarrow>
      (\<exists>h. attach_finish dflt already st i (w_heap w) = Some h)) \<and>
    (\<forall>i. \<exists>r h li. detach a i (w_heap w) (w_lists w a) = Some (r, h, li)) \<and>
    heap_ok C (w_heap w) (set (li_list (w_lists w a))) \<and>
    distinct_keys (w_heap w) (li_list (w_lists w a)) \<and> distinct (li_list (w_lists w a))"
proof -
  note safe = reachable_safe [OF assms(1)]
  have "\<exists>h. attach_finish dflt already st i (w_heap w) = Some h"
    if "(i, b, Attaching already (Some st)) \<in> set (w_tokens w)" for i b already st
  proof -
    note tk = that
    obtain ts us where "w_tokens w = ts @ (i, b, Attaching already (Some st)) # us"
      using split_list [OF tk] by blast
    then show ?thesis by (rule safe_finish(1) [OF safe])
  qed
  moreover note safe_detach(1) [OF safe assms(2)] safe_heap_ok [OF safe]
  moreover have "list_ok (w_heap w) a (w_lists w a)" by (rule safe_nodes(4) [OF safe assms(2)])
  ultimately show ?thesis by (simp add: list_ok_def)
qed

theorem reachable_worlds_are_safe_witness:
  "heap_ok (\<lambda>_. cfg_codec) (w_heap sample_attached) {0} \<and>
   (\<exists>r h li. detach 2 0 (w_heap sample_attached) (w_lists sample_attached 2) = Some (r, h, li))"
proof -
  have "valid_list 2" "li_list (w_lists sample_attached 2) = [0]" by (simp_all add: valid_list_def attached_of_def)
  from reachable_worlds_are_safe [OF sample_reachables(2) this(1), where dflt = 7] this(2) show ?thesis by simp
qed

text \<open>
  C19: Every change of a node's state, by whatever step of whatever party, is an arrow of the
  transition diagram.
\<close>

theorem states_follow_diagram:
  assumes "reachable S X kept K C w" and "world_step S X kept w w'"
  shows "n_state (w_heap w' j) = n_state (w_heap w j) \<or> transition (n_state (w_heap w j)) (n_state (w_heap w' j))"
  by (rule step_transition [OF assms(2) reachable_safe [OF assms(1)]])

theorem states_follow_diagram_witness:
  "n_state (w_heap sample_attached 0) = n_state (w_heap sample_world 0) \<or>
     transition (n_state (w_heap sample_world 0)) (n_state (w_heap sample_attached 0))"
  by (rule states_follow_diagram [OF sample_reachables(1) sample_attach_step])

text \<open>
  C20: Nodes have one owner. In every reachable world a node has at most one handle or attach in
  flight, it is in the list that owner names, and it is in no other list.
\<close>

theorem one_owner:
  assumes "reachable S X kept K C w" and "(i, a, tk) \<in> set (w_tokens w)"
  shows "(\<forall>b tk'. (i, b, tk') \<in> set (w_tokens w) \<longrightarrow> b = a \<and> tk' = tk) \<and> valid_list a \<and>
    i \<in> set (li_list (w_lists w a)) \<and> (\<forall>b. valid_list b \<and> b \<noteq> a \<longrightarrow> i \<notin> set (li_list (w_lists w b)))"
proof -
  note safe = reachable_safe [OF assms(1)]
  have ok: "token_ok a tk (w_heap w i)" by (rule safe_nodes(2) [OF safe assms(2)])
  then have taken: "valid_list a" "n_taken (w_heap w i) = a + 1" by (simp_all add: token_ok_def)
  have "b = a \<and> tk' = tk" if "(i, b, tk') \<in> set (w_tokens w)" for b tk'
    using eq_key_imp_eq_value [OF safe_nodes(5) [OF safe] that assms(2)] by simp
  moreover have member: "i \<in> set (li_list (w_lists w b)) \<longleftrightarrow> b = a" if "valid_list b" for b
    using safe_nodes(4) [OF safe that] taken that by (auto simp: list_ok_def valid_list_def)
  ultimately show ?thesis using taken(1) by blast
qed

theorem one_owner_witness:
  "0 \<in> set (li_list (w_lists sample_attached 2)) \<and> 0 \<notin> set (li_list (w_lists sample_attached 4))"
proof -
  have "(0, 2, Attaching False None) \<in> set (w_tokens sample_attached)" by (simp add: attached_of_def)
  from one_owner [OF sample_reachables(2) this] show ?thesis by (simp add: valid_list_def)
qed

section \<open>Attaching and detaching\<close>

text \<open>
  What the first step of \<open>attach\<close> does in each case: a free node is linked unless its key is in
  use, an idle node of the same list is taken again, and otherwise the error says whether a handle is
  live or the node belongs to another list. An error changes nothing; success takes the node, wakes
  the reader and changes no other node.
\<close>

theorem attach_outcomes:
  assumes "0 < a" and "attach_lock a i h li = (res, h', li', wk)"
  shows "res = (if n_taken (h i) = 0
        then if n_key (h i) \<in> (\<lambda>j. n_key (h j)) ` set (li_list li) then Err DuplicateKey else Ok False
        else if n_taken (h i) = a then Ok True
        else if n_taken (h i) = a + 1 then Err AlreadyTaken else Err NodeInOtherList) \<and>
    h' = (if is_ok res then h(i := (h i)\<lparr>n_taken := a + 1\<rparr>) else h) \<and>
    li_list li' = (if res = Ok False then i # li_list li else li_list li) \<and> li_seq li' = li_seq li \<and>
    wk = (if is_ok res then [WakeNeedsRead] else [])"
  using assms find_node_None [of h "li_list li" "n_key (h i)"]
  by (cases rule: attach_lock_cases [of h i a li]) (auto simp: set_taken_def)

theorem attach_outcomes_witness:
  "fst (attach_lock 2 0 sample_heap sample_list) = Ok True \<and>
   fst (attach_lock 4 0 sample_heap sample_list) = Err NodeInOtherList"
proof -
  have taken: "n_taken (sample_heap 0) = 2" by (simp add: sample_heap_def)
  obtain r h li wk where a2: "attach_lock 2 0 sample_heap sample_list = (r, h, li, wk)"
    by (cases "attach_lock 2 0 sample_heap sample_list")
  obtain r' h' li' wk' where a4: "attach_lock 4 0 sample_heap sample_list = (r', h', li', wk')"
    by (cases "attach_lock 4 0 sample_heap sample_list")
  show ?thesis
    using attach_outcomes [OF _ a2] attach_outcomes [OF _ a4] taken a2 a4 by simp
qed

text \<open>
  C21: An attach ends in a handle. Once a read of the list succeeds, whatever the storage, the attach in
  flight observes a state, completes without a panic, and its handle loads the value that was read,
  or the default value if the node is not in storage.
\<close>

theorem attach_completes:
  assumes "reachable S X kept K C w" and "(i, a, Attaching already None) \<in> set (w_tokens w)"
    and "process_reads S X buf (w_heap w) (w_lists w a) s = Some out" and "is_ok (o_res out)"
  shows "\<exists>st h v. attach_observe i (o_heap out) = Some st \<and>
    attach_finish dflt already st i (o_heap out) = Some h \<and> handle_load i h = Some v \<and>
    (if st = NonResident then v = dflt else n_t (o_heap out i) = Some v)"
proof -
  note safe = reachable_safe [OF assms(1)]
  have valid: "valid_list a" and member: "i \<in> set (li_list (w_lists w a))"
    using one_owner [OF assms(1,2)] by auto
  have observed: "n_state (o_heap out i) \<noteq> Initial"
    using assms(3,4) member
    by (auto simp: process_reads_def Let_def mark_initial_state split: option.splits result.splits if_splits)
  define w1 where "w1 = set_list a (o_inner out) (o_heap out) w"
  have step: "world_step S X kept w w1" unfolding w1_def by (rule ws_reads [OF valid assms(3)])
  note safe1 = step_safe [OF step safe]
  obtain ts us where tokens: "w_tokens w1 = ts @ (i, a, Attaching already None) # us"
    using split_list [OF assms(2)] by (auto simp: w1_def)
  have observe: "attach_observe i (w_heap w1) = Some (n_state (o_heap out i))"
    using observed by (simp add: attach_observe_def w1_def)
  define w2 where "w2 = w1\<lparr>w_tokens := ts @ (i, a, Attaching already (Some (n_state (o_heap out i)))) # us\<rparr>"
  have safe2: "safe C w2" unfolding w2_def by (rule safe_observe [OF safe1 tokens observe])
  have tokens2: "w_tokens w2 = ts @ (i, a, Attaching already (Some (n_state (o_heap out i)))) # us"
    by (simp add: w2_def)
  from safe_finish(1) [OF safe2 this] obtain h
    where h: "attach_finish dflt already (n_state (o_heap out i)) i (w_heap w2) = Some h" ..
  have "safe C (w2\<lparr>w_heap := h, w_tokens := ts @ (i, a, Handle) # us\<rparr>)"
    by (rule safe_finish(2) [OF safe2 tokens2 h])
  from safe_handle(1,2) [OF this, of i a] obtain v where v: "has_data (n_state (h i))" "n_t (h i) = Some v" by auto
  have "if n_state (o_heap out i) = NonResident then v = dflt else n_t (o_heap out i) = Some v"
    using h v(2) by (auto simp: attach_finish_def w2_def w1_def split: state.splits if_splits)
  then show ?thesis
    using observe h v by (auto simp: handle_load_Some w2_def w1_def)
qed

theorem attach_completes_witness:
  "\<exists>out h. process_reads test_ops cbor_externs sample_buf (w_heap sample_attached) (w_lists sample_attached 2) test_default = Some out \<and>
     attach_observe 0 (o_heap out) = Some NonResident \<and>
     attach_finish 7 False NonResident 0 (o_heap out) = Some h \<and> handle_load 0 h = Some 7"
proof -
  obtain out where out: "process_reads test_ops cbor_externs sample_buf (w_heap sample_attached) (w_lists sample_attached 2) test_default = Some out"
    "is_ok (o_res out)" "o_heap out 0 = (w_heap sample_attached 0)\<lparr>n_state := NonResident\<rparr>"
    by (rule sample_attached_read)
  have "(0, 2, Attaching False None) \<in> set (w_tokens sample_attached)" by (simp add: attached_of_def)
  from attach_completes [OF sample_reachables(2) this out(1,2), of 7] show ?thesis
    using out(1,3) by (auto simp: attach_observe_def)
qed

text \<open>
  \<open>detach\<close>. A node of the list without a handle is unlinked and is as new afterwards, so that it
  can be attached to any list; a node with a handle is refused, and so is a node of another list, with
  nothing changed; a node in no list is left alone.
\<close>

theorem detach_outcomes:
  assumes "reachable S X kept K C w" and "valid_list a"
  shows "detach a i (w_heap w) (w_lists w a) =
    (if n_taken (w_heap w i) = a then
       Some (Ok (), (w_heap w)(i := (w_heap w i)\<lparr>n_t := None, n_state := Initial, n_taken := 0\<rparr>),
             (w_lists w a)\<lparr>li_list := remove1 i (li_list (w_lists w a))\<rparr>)
     else if n_taken (w_heap w i) = a + 1 then Some (Err AlreadyTaken, w_heap w, w_lists w a)
     else if n_taken (w_heap w i) = 0 then Some (Ok (), w_heap w, w_lists w a)
     else Some (Err NodeInOtherList, w_heap w, w_lists w a))"
proof (cases "n_taken (w_heap w i) = a")
  case True
  have "has_data (n_state (w_heap w i)) \<longleftrightarrow> n_t (w_heap w i) \<noteq> None"
    using safe_nodes(1) [OF reachable_safe [OF assms(1)]] by (simp add: node_wf_def)
  then have "detach a i (w_heap w) (w_lists w a) =
      Some (Ok (), (w_heap w)(i := (w_heap w i)\<lparr>n_t := None, n_state := Initial, n_taken := 0\<rparr>),
            (w_lists w a)\<lparr>li_list := remove1 i (li_list (w_lists w a))\<rparr>)"
    using True by (intro detach_attached) simp_all
  then show ?thesis using True by (simp only: if_P)
next
  case False
  then show ?thesis by (simp add: detach_def Let_def)
qed

theorem detach_outcomes_witness:
  "detach 2 0 (w_heap sample_attached) (w_lists sample_attached 2) =
     Some (Err AlreadyTaken, w_heap sample_attached, w_lists sample_attached 2)"
proof -
  have "n_taken (w_heap sample_attached 0) = 3" by (simp add: attached_of_def)
  moreover have "valid_list 2" by (simp add: valid_list_def)
  ultimately show ?thesis using detach_outcomes [OF sample_reachables(2), of 2 0] by simp
qed

text \<open>No step takes a node out of the hands of a cancelled attach.\<close>

lemma abandoned_stays:
  assumes "world_step S X kept w w'" and "safe C w" and "(i, a, Abandoned) \<in> set (w_tokens w)"
  shows "(i, a, Abandoned) \<in> set (w_tokens w')"
  using assms(1,3) by cases auto

text \<open>
  C29: An attach that is cancelled takes its node for good. If the future is dropped before it ends,
  then in every later world no attach to any list succeeds on the node and it cannot be detached.
\<close>

theorem cancelled_attach_takes_node_forever:
  assumes "reachable S X kept K C w" and "(i, a, Abandoned) \<in> set (w_tokens w)"
    and "(world_step S X kept)\<^sup>*\<^sup>* w w'" and "valid_list b"
  shows "fst (attach_lock b i (w_heap w') (w_lists w' b)) = Err (if b = a then AlreadyTaken else NodeInOtherList) \<and>
    detach b i (w_heap w') (w_lists w' b) =
      Some (Err (if b = a then AlreadyTaken else NodeInOtherList), w_heap w', w_lists w' b)"
proof -
  have "safe C w' \<and> (i, a, Abandoned) \<in> set (w_tokens w')"
    using assms(3)
  proof (induction rule: rtranclp_induct)
    case base
    show ?case using reachable_safe [OF assms(1)] assms(2) by simp
  next
    case (step v u)
    then show ?case using abandoned_stays step_safe by blast
  qed
  then have "valid_list a" "n_taken (w_heap w' i) = a + 1"
    using safe_nodes(2) [of C w' i a Abandoned] by (auto simp: token_ok_def)
  moreover from this have "a + 1 \<noteq> b"
    using assms(4) by (auto simp: valid_list_def)
  ultimately show ?thesis
    using assms(4) by (auto simp: attach_lock_def detach_def valid_list_def Let_def)
qed

theorem cancelled_attach_takes_node_forever_witness:
  "\<exists>w. sample_reachable w \<and> fst (attach_lock 2 0 (w_heap w) (w_lists w 2)) = Err AlreadyTaken"
proof -
  let ?w = "sample_attached\<lparr>w_tokens := [] @ (0, 2, Abandoned) # []\<rparr>"
  have "w_tokens sample_attached = [] @ (0, 2, Attaching False None) # []" by (simp add: attached_of_def)
  note r = reachable_step [OF sample_reachables(2) ws_cancel [OF this]]
  have "fst (attach_lock 2 0 (w_heap ?w) (w_lists ?w 2)) = Err (if (2::addr) = 2 then AlreadyTaken else NodeInOtherList) \<and>
    detach 2 0 (w_heap ?w) (w_lists ?w 2) =
      Some (Err (if (2::addr) = 2 then AlreadyTaken else NodeInOtherList), w_heap ?w, w_lists ?w 2)"
    by (rule cancelled_attach_takes_node_forever [OF r _ rtranclp.rtrancl_refl]) (simp_all add: valid_list_def)
  then show ?thesis using r by auto
qed

end
