(* ===== verification/Garbage_Cut.thy ===== *)
theory Garbage_Cut
  imports Samples "HOL-Library.Sublist"
begin

text \<open>
  Garbage collection that is interrupted: \<open>gc_cut\<close> is the loop of \<open>process_garbage\<close> stopped after any
  number of turns, and \<open>gc_cut_newest\<close> shows what it leaves in storage.
\<close>

section \<open>A sweep that is cut off\<close>

text \<open>
  The loop of \<open>process_garbage\<close> when its future is dropped, or the power fails, after \<open>n\<close> turns; the
  result is the iterator at that point.
\<close>

fun gc_cut ::
  "('s, 'it, 'item, 'e) storage_ops \<Rightarrow> nat \<Rightarrow> seq_state \<Rightarrow> nat \<Rightarrow> 'it \<Rightarrow> nat \<Rightarrow> 'it" where
  "gc_cut S b cur 0 it idx = it"
| "gc_cut S b cur (Suc n) it idx =
     (case st_next S b it of
        NextErr e it' \<Rightarrow> it'
      | NextEnd it' \<Rightarrow> it'
      | NextItem item it' \<Rightarrow>
          (if st_data S item = None \<or> \<not> last_records_contain cur idx
           then (case st_invalidate S item it' of
                   InvalidateErr e it2 \<Rightarrow> it2
                 | InvalidateOk it2 \<Rightarrow> gc_cut S b cur n it2 (Suc idx))
           else gc_cut S b cur n it' (Suc idx)))"

section \<open>What is left\<close>

lemma segments_suffix:
  "segments X es = x # sg \<Longrightarrow> \<exists>es'. es = seg_elems X x @ es' \<and> segments X es' = sg"
proof (cases "(X, es)" rule: segments.cases)
  case (2 X' seq es')
  assume "segments X es = x # sg"
  with 2 show ?thesis
    by (auto split: option.splits simp: record_elems_def dest!: closes_eq)
qed auto

lemma contents_after_end: "contents X (map (\<lambda>d. Some (Data d)) ds @ Some (End seq crc) # es) = contents X es"
  by (induction ds) (simp_all add: contents_def)

lemma kept_contents_sub: "subseq (kept_contents cur i sg) (seg_contents sg)"
  by (induction cur i sg rule: kept_contents.induct) auto

text \<open>A sweep passes a record's elements: all of them are kept, or none.\<close>

lemma gc_keep_part_record:
  assumes "ranges_ahead cur i (Rec seq ds # sg)" and "map fst ys = map Some (record_elems X seq ds)"
  shows "gc_keep cur i (take n ys) = (if cached_at cur seq i then take n ys else [])"
proof (rule gc_keep_record [OF assms(1)])
  show "length (take n ys) \<le> length ds + 2"
    using arg_cong [OF assms(2), of length] by (simp add: record_elems_def)
  show "None \<notin> set (map fst (take n ys))"
    by (metis assms(2) in_set_takeD take_map ex_map_conv option.distinct(1))
qed

text \<open>The sweep was cut off inside a record: all of it is left, or what is left holds no record.\<close>

lemma cut_inside_record:
  assumes "ranges_ahead cur i (Rec seq ds # sg)" and "map fst ys = map Some (record_elems X seq ds)"
    and "n < length ds + 2"
  shows "contents X (map fst (gc_keep cur i (take n (ys @ zs)) @ drop n (ys @ zs))) =
    (if n = 0 \<or> cached_at cur seq i then [(seq, ds)] else []) @ contents X (map fst zs)"
proof -
  have len: "length ys = length ds + 2"
    using arg_cong [OF assms(2), of length] by (simp add: record_elems_def)
  show ?thesis
  proof (cases "n = 0 \<or> cached_at cur seq i")
    case True
    then have "gc_keep cur i (take n (ys @ zs)) @ drop n (ys @ zs) = ys @ zs"
      using gc_keep_part_record [OF assms(1,2), of n] len assms(3) by auto
    with True show ?thesis
      using contents_around_record [of X "[]" seq ds "map fst zs"] by (simp add: assms(2))
  next
    case False
    then have "map fst (gc_keep cur i (take n (ys @ zs)) @ drop n (ys @ zs)) =
        drop n (map Some (record_elems X seq ds)) @ map fst zs"
      using gc_keep_part_record [OF assms(1,2), of n] len assms(2,3) by (simp flip: drop_map)
    also have "\<dots> = map (\<lambda>d. Some (Data d)) (drop (n - 1) ds) @ Some (End seq (record_crc X ds)) # map fst zs"
      using False assms(3) by (cases n) (auto simp: record_elems_def drop_map drop_Cons' o_def)
    finally show ?thesis using False contents_after_end by simp
  qed
qed

text \<open>The sweep got past a record: it is left if it is cached.\<close>

lemma cut_after_record:
  assumes "ranges_ahead cur i (Rec seq ds # sg)" and "map fst ys = map Some (record_elems X seq ds)"
  shows "contents X (map fst (gc_keep cur i (take (length ds + 2 + m) (ys @ zs)) @ drop (length ds + 2 + m) (ys @ zs))) =
    (if cached_at cur seq i then [(seq, ds)] else []) @
    contents X (map fst (gc_keep cur (i + (length ds + 2)) (take m zs) @ drop m zs))"
proof -
  have len: "length ys = length ds + 2"
    using arg_cong [OF assms(2), of length] by (simp add: record_elems_def)
  have "gc_keep cur i (take (length ds + 2 + m) (ys @ zs)) @ drop (length ds + 2 + m) (ys @ zs) =
      (if cached_at cur seq i then ys else []) @ gc_keep cur (i + (length ds + 2)) (take m zs) @ drop m zs"
    using gc_keep_part_record [OF assms, of "length ys"] len by (simp add: gc_keep_append)
  then show ?thesis
    using contents_around_record [of X "[]" seq ds] by (simp add: assms(2))
qed

text \<open>
  A cut-off sweep leaves complete records only as they were: at least those that are cached, and no
  others than before, in the same order.
\<close>

lemma contents_cut:
  assumes "ranges_ahead cur i (segments X (map fst xs))"
  shows "subseq (kept_contents cur i (segments X (map fst xs)))
      (contents X (map fst (gc_keep cur i (take n xs) @ drop n xs))) \<and>
    subseq (contents X (map fst (gc_keep cur i (take n xs) @ drop n xs))) (contents X (map fst xs))"
  using assms
proof (induction "segments X (map fst xs)" arbitrary: xs i n rule: seg_contents.induct)
  case 1
  then have "map fst xs = []" by (metis segments_flat concat.simps(1) list.simps(8))
  then show ?case using 1 by simp
next
  case (2 d sg)
  obtain es' where es': "map fst xs = d # es'" "segments X es' = sg"
    using segments_suffix [OF "2.hyps"(2) [symmetric]] by auto
  then obtain x ys where xs: "xs = x # ys" "fst x = d" "map fst ys = es'" by auto
  have all: "contents X (map fst xs) = contents X (map fst ys)"
    using "2.hyps"(2) [symmetric] es' xs by (simp add: contents_def)
  show ?case
  proof (cases n)
    case 0
    then show ?thesis using kept_contents_sub by (simp add: contents_def)
  next
    case (Suc m)
    have "ranges_ahead cur (i + 1) (segments X (map fst ys))"
      using ranges_ahead_tl(1) [of cur i d sg] "2.prems" "2.hyps"(2) [symmetric] es' xs by simp
    from "2.hyps"(1) [OF _ this, of m] show ?thesis
      using gc_keep_junk [of cur i d sg] "2.prems" "2.hyps"(2) [symmetric] es' xs all Suc by simp
  qed
next
  case (3 seq ds sg)
  let ?L = "length ds + 2"
  obtain es' where es': "map fst xs = map Some (record_elems X seq ds) @ es'" "segments X es' = sg"
    using segments_suffix [OF "3.hyps"(2) [symmetric]] by auto
  obtain ys zs where xs: "xs = ys @ zs" "map fst ys = map Some (record_elems X seq ds)" "map fst zs = es'"
    using es'(1) by (auto simp: map_eq_append_conv)
  have ahead: "ranges_ahead cur i (Rec seq ds # sg)" using "3.prems" "3.hyps"(2) [symmetric] by simp
  have all: "contents X (map fst xs) = (seq, ds) # contents X es'"
    using contents_around_record [of X "[]" seq ds es'] es'(1) by simp
  have kept: "kept_contents cur i (segments X (map fst xs)) =
      (if cached_at cur seq i then [(seq, ds)] else []) @ kept_contents cur (i + ?L) sg"
    using "3.hyps"(2) [symmetric] by simp
  show ?case
  proof (cases "n < ?L")
    case True
    note cut = cut_inside_record [OF ahead xs(2) True, of zs, folded xs(1), unfolded xs(3)]
    show ?thesis
      unfolding kept all cut using kept_contents_sub [of cur "i + ?L" sg] es'(2)
      by (auto simp: contents_def intro: list_emb_Cons)
  next
    case False
    then obtain m where m: "n = ?L + m" by (metis le_Suc_ex linorder_not_less)
    have "ranges_ahead cur (i + ?L) (segments X (map fst zs))"
      using ranges_ahead_tl(2) [OF ahead] es'(2) xs(3) by simp
    note IH = "3.hyps"(1) [OF _ this, of m, unfolded xs(3) es'(2)]
    note cut = cut_after_record [OF ahead xs(2), of m zs, folded xs(1) m]
    show ?thesis
      unfolding kept all cut using IH by (cases "cached_at cur seq i") (auto intro: list_emb_Cons)
  qed
qed

text \<open>Whatever lies between what is collected and what was there has the same newest record.\<close>

lemma newest_data_eqI:
  assumes "distinct (map fst cs)" and "(m, ds) \<in> set cs" and "\<forall>k \<in> fst ` set cs. k \<le> m"
  shows "max_seq cs = Some m" and "newest_data cs = ds"
proof -
  have "Max (fst ` set cs) = m" by (rule Max_eqI) (use assms(2,3) in force)+
  then show "max_seq cs = Some m" using assms(2) by (auto simp: max_seq_def)
  then show "newest_data cs = ds" using assms(1,2) by (simp add: newest_data_def)
qed

lemma newest_between:
  assumes "distinct (map fst cs)" and "map_option gr_seq (highest_seen cur) = max_seq cs"
    and "subseq (collected cur cs) cs'" and "subseq cs' cs"
  shows "distinct (map fst cs')" and "max_seq cs' = max_seq cs" and "newest_data cs' = newest_data cs"
proof -
  show distinct: "distinct (map fst cs')"
    using subseq_map [OF assms(4), of fst] assms(1) by (auto simp: subseq_conv_nths)
  have sub: "set (collected cur cs) \<subseteq> set cs'" "set cs' \<subseteq> set cs"
    using assms(3,4) by (auto simp: subseq_conv_nths dest: in_set_nthsD)
  have "max_seq cs' = max_seq cs \<and> newest_data cs' = newest_data cs"
  proof (cases "cs = []")
    case True
    then show ?thesis using sub(2) by simp
  next
    case False
    define m where "m = Max (fst ` set cs)"
    have "m \<in> fst ` set cs" unfolding m_def by (rule Max_in) (use False in simp_all)
    then obtain ds where ds: "(m, ds) \<in> set cs" by auto
    have bound: "\<forall>k \<in> fst ` set cs. k \<le> m" unfolding m_def by simp
    obtain r where "highest_seen cur = Some r" "gr_seq r = m"
      using assms(2) False by (auto simp: max_seq_def m_def)
    then have "(m, ds) \<in> set cs'"
      using sub(1) ds highest_present by (force simp: collected_def)
    with newest_data_eqI [OF assms(1) ds bound] newest_data_eqI [OF distinct this] sub(2) bound
    show ?thesis by auto
  qed
  then show "max_seq cs' = max_seq cs" "newest_data cs' = newest_data cs" by simp_all
qed

context ndl_storage begin

lemma gc_cut_returns:
  "it_ok b it \<Longrightarrow> it_ok b (gc_cut S b cur n it i) \<and>
     passed (gc_cut S b cur n it i) = passed it @ gc_keep cur i (take n (todo it)) \<and>
     todo (gc_cut S b cur n it i) = drop n (todo it)"
proof (induction n arbitrary: it i)
  case (Suc n)
  show ?case
  proof (cases "todo it")
    case Nil
    then show ?thesis using next_end [OF Suc.prems] by auto
  next
    case (Cons x xs)
    then obtain item it1 where it1: "st_next S b it = NextItem item it1" "st_data S item = fst x"
        "it_ok b it1" "passed it1 = passed it @ [x]" "todo it1 = xs"
      using next_item [OF Suc.prems] by auto
    show ?thesis
      using it1 Cons Suc.IH invalidate [OF Suc.prems it1(1)] by (auto split: invalidate_result.split)
  qed
qed simp

text \<open>Cut off anywhere, the sweep leaves the newest record, and a storage that can be read.\<close>

lemma gc_cut_newest:
  assumes "healthy b s" and "synced X kept (elems_of s) cur" and "st_iter S s = IterOk it"
    and "s' = st_release S (gc_cut S b cur n it 0)"
  shows "healthy b s'" and "distinct (map fst (contents X (elems_of s')))"
    and "newest_data (contents X (elems_of s')) = newest_data (contents X (elems_of s))"
    and "max_seq (contents X (elems_of s')) = max_seq (contents X (elems_of s))"
    and "subseq (contents X (elems_of s')) (contents X (elems_of s))"
proof -
  have it: "it_ok b it" "passed it = []" "todo it = view s"
    using iter_start [OF assms(1)] assms(3) by auto
  note cut = gc_cut_returns [OF it(1), of cur n 0]
  have new: "healthy b s'" "view s' = gc_keep cur 0 (take n (view s)) @ drop n (view s)"
    using release [of b "gc_cut S b cur n it 0"] cut it(2,3) assms(4) by auto
  then show "healthy b s'" by simp
  have syn: "cache_exact X (elems_of s) cur" "distinct (map fst (contents X (elems_of s)))"
    "map_option gr_seq (highest_seen cur) = max_seq (contents X (elems_of s))"
    using assms(2) by (simp_all add: synced_def)
  have "ranges_ahead cur 0 (segments X (elems_of s))"
    using syn(1) by (auto simp: ranges_ahead_def cache_exact_def records_in_def sum_seg_length)
  then have between: "subseq (collected cur (contents X (elems_of s))) (contents X (elems_of s'))"
    "subseq (contents X (elems_of s')) (contents X (elems_of s))"
    using contents_cut [of cur 0 X "view s" n] exact_collected [OF syn(1,2)] new(2) by simp_all
  then show "subseq (contents X (elems_of s')) (contents X (elems_of s))" by simp
  show "distinct (map fst (contents X (elems_of s')))"
    and "newest_data (contents X (elems_of s')) = newest_data (contents X (elems_of s))"
    and "max_seq (contents X (elems_of s')) = max_seq (contents X (elems_of s))"
    using newest_between [OF syn(2,3) between] by simp_all
qed

end

text \<open>
  C13: Garbage collection may be interrupted anywhere. If the sweep of a collection stops after any
  number of turns, because its future is dropped or the power fails, the storage still holds its
  newest record and no new ones, and the next list started on it reads the same values as before.
\<close>

theorem interrupted_garbage_keeps_newest:
  assumes "ndl_storage S healthy view it_ok passed todo room" and "healthy (length buf) s"
    and "synced X kept (map fst (view s)) (li_seq li)" and "st_iter S s = IterOk it"
    and "s' = st_release S (gc_cut S (length buf) (li_seq li) n it 0)"
    and "fresh_list kept h2 li2" and "length buf2 = length buf"
  shows "subseq (contents X (map fst (view s'))) (contents X (map fst (view s))) \<and>
    (\<exists>out. process_reads S X buf2 h2 li2 s' = Some out \<and> is_ok (o_res out) \<and>
      (\<forall>i \<in> set (li_list li2). o_heap out i = read_node X (newest_data (contents X (map fst (view s)))) (h2 i)))"
proof -
  note cut = ndl_storage.gc_cut_newest [OF assms(1-5)]
  have pos: "0 < kept" using assms(3) by (simp add: synced_def cache_ok_def seq_wf_def)
  have "healthy (length buf2) s'" using cut(1) assms(7) by simp
  from ndl_reader.restart_reads [OF ndl_storage.axioms(1) [OF assms(1)] this pos assms(6) cut(2)]
  obtain out where "process_reads S X buf2 h2 li2 s' = Some out" "is_ok (o_res out)"
    "\<And>i. o_heap out i =
      (if i \<in> set (li_list li2) then read_node X (newest_data (contents X (map fst (view s')))) (h2 i) else h2 i)"
    by metis
  with cut(3,5) show ?thesis by auto
qed

text \<open>The sample storage, with the collection of its first record cut off after seven elements.\<close>

theorem interrupted_garbage_keeps_newest_witness:
  "\<exists>it. st_iter test_ops (storage_of sample_elems) = IterOk it \<and>
     (\<exists>out. process_reads test_ops cbor_externs sample_buf sample_fresh_heap sample_fresh_list
        (tit_sto (gc_cut test_ops (length sample_buf) (li_seq sample_scanned) 7 it 0)) = Some out \<and> is_ok (o_res out))"
proof -
  obtain it where it: "st_iter test_ops (storage_of sample_elems) = IterOk it"
    using test_storage.iter_start [OF sample_storage(1)] by auto
  have "subseq (contents cbor_externs (map fst (test_view (tit_sto (gc_cut test_ops (length sample_buf) (li_seq sample_scanned) 7 it 0)))))
      (contents cbor_externs (map fst (test_view (storage_of sample_elems)))) \<and>
    (\<exists>out. process_reads test_ops cbor_externs sample_buf sample_fresh_heap sample_fresh_list
        (tit_sto (gc_cut test_ops (length sample_buf) (li_seq sample_scanned) 7 it 0)) = Some out \<and> is_ok (o_res out) \<and>
      (\<forall>i \<in> set (li_list sample_fresh_list). o_heap out i =
        read_node cbor_externs (newest_data (contents cbor_externs (map fst (test_view (storage_of sample_elems))))) (sample_fresh_heap i)))"
    by (rule interrupted_garbage_keeps_newest [OF test_storage.ndl_storage_axioms _ _ it _ sample_fresh])
      (simp_all add: sample_storage sample_scanned_synced)
  with it show ?thesis by auto
qed

end
