(* ===== verification/Worker_Properties.thy ===== *)
theory Worker_Properties
  imports Garbage_Cut
begin

text \<open>
  What the default worker does with its signals: a write signal ends in a written list, unless the
  signal is lost; stopping the worker flushes the list,
  unless a collection is running; a debounced signal fires after a pause of
  the whole timeout; and the no-op worker never fails.
\<close>

section \<open>Writing\<close>

text \<open>The list and the storage a worker works on, in step with each other and with something to write.\<close>

definition flushable ::
  "externs \<Rightarrow> (nid \<Rightarrow> 'v codec) \<Rightarrow> (nat \<Rightarrow> 's \<Rightarrow> bool) \<Rightarrow> ('s \<Rightarrow> entry list) \<Rightarrow> nat \<Rightarrow> nat \<Rightarrow> u32 \<Rightarrow> ('v, 's) site \<Rightarrow> bool" where
  "flushable X C healthy view kept b n st \<longleftrightarrow>
     heap_ok C (si_heap st) (set (li_list (si_inner st))) \<and> healthy b (si_storage st) \<and> 9 \<le> b \<and>
     synced X kept (map fst (view (si_storage st))) (li_seq (si_inner st)) \<and>
     next_seq (li_seq (si_inner st)) = Some n \<and>
     (needs_gc (li_seq (si_inner st)) \<or> Some (Start n) \<notin> set (map fst (view (si_storage st)))) \<and>
     needs_writing (si_heap st) (si_inner st) = Ok True \<and>
     fits X C (si_heap st) (li_list (si_inner st)) b"

text \<open>What is true once the list has been written.\<close>

definition flushed ::
  "externs \<Rightarrow> (nid \<Rightarrow> 'v codec) \<Rightarrow> ('s \<Rightarrow> entry list) \<Rightarrow> ('v, 's) site \<Rightarrow> ('v, 's) site \<Rightarrow> bool" where
  "flushed X C view st st' \<longleftrightarrow>
     si_heap st' = mark_written (li_list (si_inner st)) (si_heap st) \<and>
     li_list (si_inner st') = li_list (si_inner st) \<and>
     newest_data (contents X (map fst (view (si_storage st')))) =
       list_data X C (si_heap st) (li_list (si_inner st))"

text \<open>The write arm, for any state of the worker.\<close>

lemma write_arm_settles:
  assumes "ndl_storage S healthy view it_ok passed todo room" and "externs_ok X"
    and "flushable X C healthy view kept (length buf) n st"
    and "\<And>r li s. process_garbage S X kept buf (si_inner st) (si_storage st) = Some (r, li, s) \<Longrightarrow>
      length (list_data X C (si_heap st) (li_list (si_inner st))) + 2 \<le> room s"
  obtains st' where "\<And>w. worker_act S X kept buf DoWrites (w, st) = Some (w, st')" "flushed X C view st st'"
    "synced X kept (map fst (view (si_storage st'))) (li_seq (si_inner st'))" "\<not> needs_gc (li_seq (si_inner st'))"
    "healthy (length buf) (si_storage st')"
proof -
  have ok: "heap_ok C (si_heap st) (set (li_list (si_inner st)))" "healthy (length buf) (si_storage st)" "9 \<le> length buf"
    "synced X kept (map fst (view (si_storage st))) (li_seq (si_inner st))" "next_seq (li_seq (si_inner st)) = Some n"
    "needs_gc (li_seq (si_inner st)) \<or> Some (Start n) \<notin> set (map fst (view (si_storage st)))"
    "needs_writing (si_heap st) (si_inner st) = Ok True" "fits X C (si_heap st) (li_list (si_inner st)) (length buf)"
    using assms(3) by (simp_all add: flushable_def)
  obtain c1 li1 s1 out c2 li2 s2 where
    "process_garbage S X kept buf (si_inner st) (si_storage st) = Some (Ok c1, li1, s1)"
    "process_writes S X buf (si_heap st) li1 s1 = Some out" "is_ok (o_res out)"
    "process_garbage S X kept buf (o_inner out) (o_storage out) = Some (Ok c2, li2, s2)"
    "o_heap out = mark_written (li_list (si_inner st)) (si_heap st)"
    "healthy (length buf) s2" "li_list li2 = li_list (si_inner st)"
    "synced X kept (map fst (view s2)) (li_seq li2)" "\<not> needs_gc (li_seq li2)"
    "newest_data (contents X (map fst (view s2))) = list_data X C (si_heap st) (li_list (si_inner st))"
    by (rule ndl_storage.flush_settles [OF assms(1,2) ok]) (erule assms(4), assumption)
  then show thesis
    by (intro that [of "\<lparr>si_heap = o_heap out, si_inner = li2, si_storage = s2\<rparr>"])
      (simp_all add: worker_act_def run_garbage_def run_writes_def flushed_def)
qed

text \<open>
  The worker's answer to a write signal settles everything. If the storage, once garbage is
  collected, has room, the three operations of the write arm all succeed: afterwards the newest record
  holds the values of the list, every node is clean, the cache is in step and no collection is due.
\<close>

theorem write_arm_flushes:
  assumes "ndl_storage S healthy view it_ok passed todo room" and "externs_ok X"
    and "flushable X C healthy view kept (length buf) n st"
    and "\<And>r li s. process_garbage S X kept buf (si_inner st) (si_storage st) = Some (r, li, s) \<Longrightarrow>
      length (list_data X C (si_heap st) (li_list (si_inner st))) + 2 \<le> room s"
  shows "\<exists>st'. worker_act S X kept buf DoWrites (w, st) = Some (w, st') \<and> flushed X C view st st' \<and>
    synced X kept (map fst (view (si_storage st'))) (li_seq (si_inner st')) \<and> \<not> needs_gc (li_seq (si_inner st'))"
proof -
  obtain st' where "\<And>w. worker_act S X kept buf DoWrites (w, st) = Some (w, st')" "flushed X C view st st'"
    "synced X kept (map fst (view (si_storage st'))) (li_seq (si_inner st'))" "\<not> needs_gc (li_seq (si_inner st'))"
    "healthy (length buf) (si_storage st')"
    by (rule write_arm_settles [OF assms(1-3)]) (rule assms(4), assumption, blast)
  then show ?thesis by blast
qed

lemma sample_flushable:
  "flushable cbor_externs (\<lambda>_. cfg_codec) test_healthy test_view 3 (length sample_buf) 1 sample_site"
  by (simp add: flushable_def sample_site_def sample_writing sample_heap_ok sample_healthy sample_synced sample_fits)
    (simp add: TEST_MAX_ELEM_SIZE_def)

lemma sample_site_room:
  assumes "process_garbage test_ops cbor_externs 3 sample_buf (si_inner sample_site) (si_storage sample_site) = Some (r, li, s)"
  shows "length (list_data cbor_externs (\<lambda>_. cfg_codec) (si_heap sample_site) (li_list (si_inner sample_site))) + 2 \<le> test_room s"
  using assms by (auto simp: process_garbage_def gc_begin_def sample_site_def sample_writing sample_data_length sample_room)

theorem write_arm_flushes_witness:
  "\<exists>st'. worker_act test_ops cbor_externs 3 sample_buf DoWrites (worker_new, sample_site) = Some (worker_new, st') \<and>
     flushed cbor_externs (\<lambda>_. cfg_codec) test_view sample_site st' \<and> \<not> needs_gc (li_seq (si_inner st'))"
proof -
  have "\<exists>st'. worker_act test_ops cbor_externs 3 sample_buf DoWrites (worker_new, sample_site) = Some (worker_new, st') \<and>
    flushed cbor_externs (\<lambda>_. cfg_codec) test_view sample_site st' \<and>
    synced cbor_externs 3 (map fst (test_view (si_storage st'))) (li_seq (si_inner st')) \<and> \<not> needs_gc (li_seq (si_inner st'))"
    by (rule write_arm_flushes [OF test_storage.ndl_storage_axioms cbor_externs_ok sample_flushable sample_site_room])
  then show ?thesis by blast
qed

text \<open>
  C23: Stopping the worker between two operations flushes the list. If the cache is in step with the
  storage and knows the next number, no start element with that number is there (unless a collection
  is due, which removes it), the values fit the buffer, and storage has room for the record after the
  collection, then what is pending is written before the task ends, whether or not a collection is due.
\<close>

theorem stopping_flushes:
  assumes "ndl_storage S healthy view it_ok passed todo room" and "externs_ok X"
    and "flushable X C healthy view kept (length buf) n st"
    and "\<And>r li s. process_garbage S X kept buf (si_inner st) (si_storage st) = Some (r, li, s) \<Longrightarrow>
      length (list_data X C (si_heap st) (li_list (si_inner st))) + 2 \<le> room s"
  shows "\<exists>st'. worker_stop S X kept buf st = Some st' \<and> flushed X C view st st'"
proof -
  let ?h = "si_heap st" and ?li = "si_inner st" and ?s = "si_storage st"
  let ?ds = "list_data X C ?h (li_list ?li)"
  have ok: "heap_ok C ?h (set (li_list ?li))" "healthy (length buf) ?s" "9 \<le> length buf"
    "synced X kept (map fst (view ?s)) (li_seq ?li)" "next_seq (li_seq ?li) = Some n"
    "needs_gc (li_seq ?li) \<or> Some (Start n) \<notin> set (map fst (view ?s))"
    "needs_writing ?h ?li = Ok True" "fits X C ?h (li_list ?li) (length buf)"
    using assms(3) by (simp_all add: flushable_def)
  have wrote: "\<exists>out c. process_writes S X buf ?h li s = Some out \<and> o_res out = Ok c \<and>
      o_heap out = mark_written (li_list ?li) ?h \<and> li_list (o_inner out) = li_list ?li \<and>
      newest_data (contents X (map fst (view (o_storage out)))) = ?ds"
    if prem: "li_list li = li_list ?li" "healthy (length buf) s" "synced X kept (map fst (view s)) (li_seq li)"
      "\<not> needs_gc (li_seq li)" "next_seq (li_seq li) = Some n" "needs_writing ?h li = Ok True"
      "Some (Start n) \<notin> set (map fst (view s))" "length ?ds + 2 \<le> room s" for li s
    using ndl_storage.write_settles [OF assms(1,2) _ prem(2) ok(3) prem(3-5,7,6), where C = C] prem(1,8) ok(1,8)
    by (metis is_ok_simps(2) result.exhaust)
  obtain c li1 s1 where gc: "process_garbage S X kept buf ?li ?s = Some (Ok c, li1, s1)"
    "healthy (length buf) s1" "li_list li1 = li_list ?li" "synced X kept (map fst (view s1)) (li_seq li1)"
    "\<not> needs_gc (li_seq li1)" "next_seq (li_seq li1) = Some n" "Some (Start n) \<notin> set (map fst (view s1))"
    "max_seq (contents X (map fst (view s1))) = max_seq (contents X (map fst (view ?s)))"
    using ndl_storage.garbage_settles [OF assms(1) ok(2,4-6)] by metis
  show ?thesis
  proof (cases "needs_gc (li_seq ?li)")
    case True
    have "needs_writing ?h li1 = Ok True"
      using needs_writing_synced [where h = ?h, OF ok(4) gc(4,8,3)] ok(7) by simp
    from wrote [OF gc(3,2,4,5,6) this gc(7) assms(4) [OF gc(1)]] gc(1) True show ?thesis
      by (fastforce simp: worker_stop_def run_writes_def run_garbage_def flushed_def process_writes_guards(2) [OF ok(5)])
  next
    case False
    then have "s1 = ?s" using gc(1) by (simp add: process_garbage_def gc_begin_def)
    then have "length ?ds + 2 \<le> room ?s" using assms(4) [OF gc(1)] by simp
    moreover have "Some (Start n) \<notin> set (map fst (view ?s))" using ok(6) False by simp
    ultimately show ?thesis
      using wrote [OF refl ok(2,4) False ok(5,7)]
      by (fastforce simp: worker_stop_def run_writes_def flushed_def)
  qed
qed

theorem stopping_flushes_witness:
  "\<exists>st'. worker_stop test_ops cbor_externs 3 sample_buf sample_site = Some st' \<and>
     flushed cbor_externs (\<lambda>_. cfg_codec) test_view sample_site st'"
  by (rule stopping_flushes [OF test_storage.ndl_storage_axioms cbor_externs_ok sample_flushable sample_site_room])

section \<open>Signals\<close>

text \<open>Polling a debounced wait at given times, with or without a new signal, until it is ready.\<close>

fun debounce :: "nat \<Rightarrow> (nat \<times> bool) list \<Rightarrow> phase \<Rightarrow> bool \<times> phase" where
  "debounce timeout [] p = (False, p)"
| "debounce timeout ((now, wake) # ps) p =
     (case poll_debounced timeout now wake p of
        (ready, p', _) \<Rightarrow> if ready then (True, p') else debounce timeout ps p')"

lemma debouncing_fires:
  "fst (debounce timeout ps (Debouncing (s + timeout))) \<longleftrightarrow>
     (\<exists>ps1 t ps2. ps = ps1 @ (t, False) # ps2 \<and> fst (last ((s, True) # filter snd ps1)) + timeout \<le> t)"
proof (induction ps arbitrary: s)
  case (Cons p ps)
  obtain now wake where p: "p = (now, wake)" by (cases p)
  have split: "(\<exists>ps1 t ps2. p # ps = ps1 @ (t, False) # ps2 \<and> fst (last ((s, True) # filter snd ps1)) + timeout \<le> t) \<longleftrightarrow>
    \<not> wake \<and> s + timeout \<le> now \<or>
    (\<exists>ps1 t ps2. ps = ps1 @ (t, False) # ps2 \<and> fst (last ((s, True) # filter snd (p # ps1))) + timeout \<le> t)"
    (is "?L \<longleftrightarrow> ?R")
  proof
    assume ?L
    then obtain ps1 t ps2 where l: "p # ps = ps1 @ (t, False) # ps2" "fst (last ((s, True) # filter snd ps1)) + timeout \<le> t"
      by blast
    show ?R
    proof (cases ps1)
      case Nil
      then show ?thesis using l by (simp add: p)
    next
      case (Cons q qs)
      then have "ps = qs @ (t, False) # ps2" "fst (last ((s, True) # filter snd (p # qs))) + timeout \<le> t"
        using l by simp_all
      then show ?thesis by blast
    qed
  next
    assume ?R
    then show ?L
    proof
      assume "\<not> wake \<and> s + timeout \<le> now"
      then show ?L by (intro exI [of _ "[]"] exI [of _ now] exI [of _ ps]) (simp add: p)
    next
      assume "\<exists>ps1 t ps2. ps = ps1 @ (t, False) # ps2 \<and> fst (last ((s, True) # filter snd (p # ps1))) + timeout \<le> t"
      then obtain ps1 t ps2 where "ps = ps1 @ (t, False) # ps2" "fst (last ((s, True) # filter snd (p # ps1))) + timeout \<le> t"
        by blast
      then show ?L by (intro exI [of _ "p # ps1"] exI [of _ t] exI [of _ ps2]) simp
    qed
  qed
  show ?case
  proof (cases wake)
    case True
    then show ?thesis unfolding split using Cons.IH [of now] by (simp add: p)
  next
    case False
    then show ?thesis unfolding split using Cons.IH [of s] by (simp add: p)
  qed
qed simp

text \<open>
  C37: Debouncing. After a first signal, a debounced wait is ready exactly at a poll without a new
  signal at which the last signal is at least the timeout ago; every signal seen before that starts
  the pause anew.
\<close>

theorem debounce_fires_iff:
  "fst (debounce timeout ((t0, True) # ps) Waiting) \<longleftrightarrow>
     (\<exists>ps1 t ps2. ps = ps1 @ (t, False) # ps2 \<and> fst (last ((t0, True) # filter snd ps1)) + timeout \<le> t)"
  by (simp add: debouncing_fires del: last.simps)

text \<open>The write future has nothing to go on: its queue holds no signal, and it waits for one.\<close>

definition write_idle :: "worker \<Rightarrow> bool" where
  "write_idle w \<longleftrightarrow> wk_write w = Waiting \<and> \<not> wk_write_wake w"

lemma write_idle_poll:
  assumes "write_idle w" and "worker_poll w = (a, w')"
  shows "a \<noteq> Some DoWrites" and "write_idle w'"
  using assms by (auto simp: worker_poll_def write_idle_def drop_futures_def Let_def split: prod.splits if_splits)

text \<open>Reads and collections leave a changed node as it is.\<close>

definition still_changed :: "nid \<Rightarrow> ('v, 's) site \<Rightarrow> ('v, 's) site \<Rightarrow> bool" where
  "still_changed i st st' \<longleftrightarrow> n_state (si_heap st' i) = NeedsWrite \<and> n_t (si_heap st' i) = n_t (si_heap st i)"

lemma act_without_write:
  assumes "worker_act S X kept buf a (w, st) = Some (w', st')" and "a \<noteq> DoWrites"
    and "\<forall>i. \<exists>c. n_vtable (si_heap st i) = vtable_for_ty c" and "n_state (si_heap st i) = NeedsWrite"
  shows "still_changed i st st'" and "\<forall>i. \<exists>c. n_vtable (si_heap st' i) = vtable_for_ty c"
    and "write_idle w \<Longrightarrow> write_idle w'"
proof -
  have "heap_read (li_list (si_inner st)) (si_heap st) (si_heap st')"
  proof (cases a)
    case DoReads
    then show ?thesis
      using assms(1,3) process_reads_heap_read(1)
      by (fastforce simp: worker_act_def run_reads_def split: option.splits if_splits)
  next
    case DoGc
    then show ?thesis
      using assms(1) by (auto simp: worker_act_def run_garbage_def split: option.splits result.splits)
  qed (use assms(2) in simp)
  then have step: "read_step (si_heap st j) (si_heap st' j)" for j by (simp add: heap_read_def)
  show "still_changed i st st'"
    using step [of i] assms(4) by (auto simp: read_step_def still_changed_def)
  show "\<forall>i. \<exists>c. n_vtable (si_heap st' i) = vtable_for_ty c"
    using step assms(3) by (metis read_step_def)
  show "write_idle w \<Longrightarrow> write_idle w'"
    using assms(1,2) by (cases a) (auto simp: worker_act_def write_idle_def split: option.splits result.splits if_splits)
qed

lemma run_without_signal:
  assumes "worker_run S X kept buf evs (w, st) = Some (w', st')" and "SignalWrite \<notin> set evs" and "write_idle w"
    and "\<forall>i. \<exists>c. n_vtable (si_heap st i) = vtable_for_ty c" and "n_state (si_heap st i) = NeedsWrite"
  shows "still_changed i st st' \<and> write_idle w'"
  using assms
proof (induction evs arbitrary: w st)
  case Nil
  then show ?case by (simp add: still_changed_def)
next
  case (Cons ev evs)
  then obtain w1 st1 where ev: "worker_event S X kept buf ev (w, st) = Some (w1, st1)"
    and run: "worker_run S X kept buf evs (w1, st1) = Some (w', st')"
    by (auto split: option.splits)
  have "still_changed i st st1 \<and> write_idle w1 \<and> (\<forall>i. \<exists>c. n_vtable (si_heap st1 i) = vtable_for_ty c)"
  proof (cases "ev = Poll")
    case False
    then show ?thesis
      using ev Cons.prems by (cases ev) (auto simp: worker_event_def write_idle_def still_changed_def)
  next
    case True
    obtain a wp where poll: "worker_poll w = (a, wp)" by (cases "worker_poll w")
    note idle = write_idle_poll [OF Cons.prems(3) poll]
    show ?thesis
    proof (cases a)
      case None
      then show ?thesis using ev True poll idle Cons.prems by (auto simp: worker_event_def still_changed_def)
    next
      case (Some act)
      then have act: "worker_act S X kept buf act (wp, st) = Some (w1, st1)" "act \<noteq> DoWrites"
        using ev True poll idle by (auto simp: worker_event_def)
      show ?thesis
        using act_without_write [OF act Cons.prems(4,5)] idle(2) by blast
    qed
  qed
  then show ?case
    using Cons.IH [OF run] Cons.prems by (auto simp: still_changed_def)
qed

text \<open>
  C27: A write signal can be lost. If the write future has taken the signal of a changed node, and the
  read future completes while the write future still waits for the pause to end, the write future is
  dropped with the signal. From then on, until some node signals a write again, the worker does not
  write: the changed node keeps its value and stays changed, whatever time passes.
\<close>

theorem write_signal_can_be_lost:
  assumes "worker_poll w = (Some DoReads, w1)" and "\<not> wk_write_wake w"
    and "worker_act S X kept buf DoReads (w1, st) = Some (w2, st2)"
    and "worker_run S X kept buf evs (w2, st2) = Some (w3, st3)" and "SignalWrite \<notin> set evs"
    and "\<forall>i. \<exists>c. n_vtable (si_heap st i) = vtable_for_ty c" and "n_state (si_heap st i) = NeedsWrite"
  shows "n_state (si_heap st3 i) = NeedsWrite \<and> n_t (si_heap st3 i) = n_t (si_heap st i)"
proof -
  have idle: "write_idle w1"
    using assms(1,2) by (auto simp: worker_poll_def write_idle_def drop_futures_def Let_def split: prod.splits if_splits)
  have "DoReads \<noteq> DoWrites" by simp
  note first = act_without_write [OF assms(3) this assms(6,7)]
  show ?thesis
    using run_without_signal [OF assms(4,5) first(3) [OF idle] first(2), of i] first(1)
    by (auto simp: still_changed_def)
qed

theorem write_signal_can_be_lost_witness:
  "\<exists>st2 w3 st3. worker_run test_ops cbor_externs 3 sample_buf
       [SignalWrite, Poll, Tick 9950, SignalRead, Poll, Tick 100] (worker_new, sample_site) = Some (sample_waiting, sample_site) \<and>
     worker_act test_ops cbor_externs 3 sample_buf DoReads (snd (worker_poll sample_waiting), sample_site) = Some st2 \<and>
     worker_run test_ops cbor_externs 3 sample_buf [Tick 20000, Poll] st2 = Some (w3, st3) \<and>
     n_state (si_heap st3 0) = NeedsWrite"
proof -
  obtain w1 where poll: "worker_poll sample_waiting = (Some DoReads, w1)"
    and w1: "wk_write w1 = Waiting" "wk_read w1 = Waiting" "wk_gc w1 = Waiting" "\<not> wk_write_wake w1" "\<not> wk_read_wake w1"
      "\<not> wk_first_gc_done w1" "wk_needs_gc w1 = None"
    by (simp add: worker_poll_def sample_waiting_def worker_new_def drop_futures_def)
  obtain st where st: "run_reads test_ops cbor_externs sample_buf sample_site = Some (Ok \<lparr>pr_total_bytes_read = 0, pr_current_bytes_read = 0\<rparr>, st)"
    using sample_reads by blast
  let ?w2 = "w1\<lparr>wk_needs_gc := Some FIRST_GC_DELAY\<rparr>"
  have act: "worker_act test_ops cbor_externs 3 sample_buf DoReads (w1, sample_site) = Some (?w2, st)"
    by (simp add: worker_act_def st w1)
  obtain w3 where run: "worker_run test_ops cbor_externs 3 sample_buf [Tick 20000, Poll] (?w2, st) = Some (w3, st)"
    by (simp add: worker_event_def worker_poll_def w1 FIRST_GC_DELAY_def)
  have "n_state (si_heap st 0) = NeedsWrite \<and> n_t (si_heap st 0) = n_t (si_heap sample_site 0)"
    by (rule write_signal_can_be_lost [OF poll _ act run])
      (auto simp: sample_waiting_def worker_new_def sample_site_def sample_heap_def)
  with poll act run sample_waiting_run show ?thesis by auto
qed

section \<open>Stopping at the wrong moment\<close>

text \<open>
  C28: Stopping in the middle of a collection flushes nothing. If the stopper completes while a
  collection is sweeping, the collection is dropped and the cache it has taken is not given back; the
  write that the shutdown makes then ends in \<open>NeedsFirstRead\<close>. Changed nodes are still changed, and storage
  has the newest record it had before.
\<close>

theorem stop_during_collection_loses_writes:
  assumes "ndl_storage S healthy view it_ok passed todo room" and "healthy (length buf) (si_storage st)"
    and "synced X kept (map fst (view (si_storage st))) (li_seq (si_inner st))"
    and "gc_begin kept (si_inner st) = Some (cur, li')" and "st_iter S (si_storage st) = IterOk it"
    and "st' = st\<lparr>si_inner := li', si_storage := st_release S (gc_cut S (length buf) cur n it 0)\<rparr>"
  shows "run_writes S X buf st' = Some (Err (AppError NeedsFirstRead), st') \<and>
    worker_stop S X kept buf st' = Some st' \<and> si_heap st' = si_heap st \<and>
    newest_data (contents X (map fst (view (si_storage st')))) = newest_data (contents X (map fst (view (si_storage st))))"
proof -
  have gc: "cur = li_seq (si_inner st)" "li_seq li' = seq_new kept"
    using assms(4) by (auto simp: gc_begin_def split: if_splits)
  have "newest_data (contents X (map fst (view (si_storage st')))) =
      newest_data (contents X (map fst (view (si_storage st))))"
    using ndl_storage.gc_cut_newest(3) [OF assms(1-3,5) refl] assms(6) gc(1) by simp
  moreover have "run_writes S X buf st' = Some (Err (AppError NeedsFirstRead), st')"
    using assms(6) gc(2) by (simp add: run_writes_def process_writes_guards(1) seq_new_def)
  ultimately show ?thesis using assms(6) by (simp add: worker_stop_def)
qed

text \<open>The sample storage, of which a collection has just removed two elements.\<close>

theorem stop_during_collection_loses_writes_witness:
  "\<exists>li1 it st1. gc_begin 3 sample_scanned = Some (li_seq sample_scanned, li1) \<and>
     st1 = \<lparr>si_heap = late_heap, si_inner = li1,
       si_storage = tit_sto (gc_cut test_ops (length sample_buf) (li_seq sample_scanned) 2 it 0)\<rparr> \<and>
     worker_stop test_ops cbor_externs 3 sample_buf st1 = Some st1 \<and> n_state (si_heap st1 1) = NeedsWrite"
proof -
  let ?st = "\<lparr>si_heap = late_heap, si_inner = sample_scanned, si_storage = storage_of sample_elems\<rparr>"
  obtain li1 where gc: "gc_begin 3 sample_scanned = Some (li_seq sample_scanned, li1)"
    using sample_scanned_synced(2) by (simp add: gc_begin_def)
  obtain it where it: "test_iter_elems (storage_of sample_elems) = IterOk it"
    using test_storage.iter_start [OF sample_storage(1)] by auto
  let ?st1 = "?st\<lparr>si_inner := li1, si_storage := st_release test_ops (gc_cut test_ops (length sample_buf) (li_seq sample_scanned) 2 it 0)\<rparr>"
  have "run_writes test_ops cbor_externs sample_buf ?st1 = Some (Err (AppError NeedsFirstRead), ?st1) \<and>
    worker_stop test_ops cbor_externs 3 sample_buf ?st1 = Some ?st1 \<and> si_heap ?st1 = si_heap ?st \<and>
    newest_data (contents cbor_externs (map fst (test_view (si_storage ?st1)))) =
      newest_data (contents cbor_externs (map fst (test_view (si_storage ?st))))"
    by (rule stop_during_collection_loses_writes [OF test_storage.ndl_storage_axioms, where li' = li1 and it = it and
          cur = "li_seq sample_scanned" and n = 2])
      (simp_all add: sample_storage sample_scanned_synced gc it)
  then show ?thesis
    using gc by (auto simp: late_heap_def test_ops_simps)
qed

section \<open>The no-op worker\<close>

text \<open>
  C39: The no-op worker never fails. Every turn of its loop succeeds: it leaves nodes with data alone
  and turns every other node of the list into one that is not in storage, so that it gets its default
  value; and the next turn starts from a list of the same kind.
\<close>

theorem no_op_worker_never_fails:
  assumes "highest_seen (li_seq li) = None"
  shows "\<exists>li'. no_op_turn X h li = Some (Some (mark_initial_nonresident (li_list li) h, li')) \<and>
    li_list li' = li_list li \<and> highest_seen (li_seq li') = None"
proof (cases "initial_scan_completed (li_seq li)")
  case True
  then show ?thesis
    using assms by (simp add: no_op_turn_def process_reads_def get_or_populate_latest_def Let_def)
next
  case False
  have "scan_loop empty_ops X 0 it st = Some (Ok (), it, st)" for it st
    by (rule scan_loop_end) (simp add: empty_ops_def)
  moreover have "st_iter empty_ops s = IterOk s" "st_release empty_ops it = it" for s it
    by (simp_all add: empty_ops_def)
  ultimately show ?thesis
    using False assms
    by (simp add: no_op_turn_def process_reads_def get_or_populate_latest_def Let_def scan_init_def)
qed

theorem no_op_worker_never_fails_witness:
  "\<exists>li'. no_op_turn cbor_externs sample_fresh_heap sample_fresh_list =
     Some (Some (mark_initial_nonresident sample_nodes sample_fresh_heap, li'))"
proof -
  have "highest_seen (li_seq sample_fresh_list) = None" by (simp add: sample_fresh_list_def seq_new_def highest_seen_def numeral_3_eq_3)
  from no_op_worker_never_fails [OF this] show ?thesis by (auto simp: sample_fresh_list_def)
qed

end
