(* ===== verification/Verified_Writes.thy ===== *)
theory Verified_Writes
  imports Samples
begin

text \<open>
  The read-back of \<open>verify_list_in_flash\<close> is sound: whatever it accepts is a complete record in
  storage. A write that succeeds therefore always leaves the cache in step.
\<close>

section \<open>What verification accepts\<close>

lemma data_prefix:
  obtains ds u where "es = data_elems ds @ u" "u = [] \<or> (\<exists>x post. u = x # post \<and> (\<forall>d. x \<noteq> Some (Data d)))"
proof -
  have "snd (take_data es) = [] \<or> (\<exists>x post. snd (take_data es) = x # post \<and> (\<forall>d. x \<noteq> Some (Data d)))"
    using take_data_stops [of es] by (cases "snd (take_data es)") auto
  then show thesis by (rule that [OF take_data_append [of es, symmetric]])
qed

context ndl_reader begin

lemma verify_seek_misses:
  assumes "it_ok b it" and "Some (Start seq) \<notin> set (map fst (todo it))"
  shows "\<exists>it' seen' n'. verify_seek S b seq it seen n = Some (Err (AppError InconsistentFlash), it', seen', n')"
proof -
  obtain it1 where it1: "reads S b it (todo it) it1" "it_ok b it1" "todo it1 = []"
    using reads_todo [OF assms(1), of "todo it" "[]"] by auto
  then obtain it2 where "st_next S b it1 = NextEnd it2" using next_end by blast
  then show ?thesis
    unfolding verify_seek_reads [OF it1(1) assms(2)] by (subst verify_seek.simps) simp
qed

text \<open>The second loop accepts data up to the end element that the report names.\<close>

lemma verify_loop_accepts:
  assumes "it_ok b it" and run: "verify_loop S X b rpt it crc_new 0 i m = Some (Ok seen, it', n)"
  obtains ds post where "map fst (todo it) = data_elems ds @ Some (End (wr_seq rpt) (wr_crc rpt)) # post"
    "wr_crc rpt = record_crc X ds" "wr_ct rpt = length ds" "seen = i + length ds + 1"
    "it_ok b it'" "passed it' @ todo it' = passed it @ todo it"
proof -
  obtain ds u where rest: "map fst (todo it) = data_elems ds @ u"
    "u = [] \<or> (\<exists>x post. u = x # post \<and> (\<forall>d. x \<noteq> Some (Data d)))"
    by (rule data_prefix)
  show thesis
  proof (cases u)
    case Nil
    obtain it3 where it3: "reads S b it (todo it) it3" "it_ok b it3" "todo it3 = []"
      using reads_todo [OF assms(1), of "todo it" "[]"] by auto
    have "map fst (todo it) = data_elems ds" using rest(1) Nil by simp
    note atend = verify_loop_reads [OF it3(1) this]
    obtain it4 where "st_next S b it3 = NextEnd it4" using next_end [OF it3(2,3)] by blast
    then have False
      using run unfolding atend by (subst (asm) verify_loop.simps) simp
    then show thesis ..
  next
    case (Cons x post)
    then have x: "\<And>d. x \<noteq> Some (Data d)" using rest(2) by simp
    have todo: "map fst (todo it) = data_elems ds @ x # post" using rest(1) Cons by simp
    obtain it3 item it4 k where stop:
      "verify_loop S X b rpt it crc_new 0 i m =
         verify_loop S X b rpt it3 (crc_update crc_new (concat (map key_val ds))) (length ds) (i + length ds) k"
      "st_next S b it3 = NextItem item it4" "st_data S item = x"
      "it_ok b it4" "passed it4 @ todo it4 = passed it @ todo it"
      by (rule verify_data_run [OF assms(1) todo])
    obtain seq crc where x_end: "x = Some (End seq crc)"
      using run unfolding stop(1)
      by (subst (asm) verify_loop.simps) (use stop(2,3) x in \<open>auto split: option.splits elem.splits\<close>)
    have "verify_loop S X b rpt it crc_new 0 i m =
        Some (if seq = wr_seq rpt \<and> record_crc X ds = wr_crc rpt \<and> crc = wr_crc rpt \<and> length ds = wr_ct rpt
          then Ok (i + length ds + 1) else Err WriteVerificationFailed, it4, k + st_len S item)"
      unfolding stop(1) by (subst verify_loop.simps) (simp add: stop(2,3) x_end record_crc_def crc_new_def crc_update_def crc_finalize_def)
    with run x_end todo stop(4,5) show thesis
      by (intro that [of ds post]) (auto split: if_splits)
  qed
qed

lemma verify_accepts:
  assumes "healthy b s" and "verify_list_in_flash S X b rpt s = Some (Ok (i, e), s', n)"
  obtains pre ds post where "elems_of s = pre @ map Some (record_elems X (wr_seq rpt) ds) @ post"
    "Some (Start (wr_seq rpt)) \<notin> set pre" "wr_crc rpt = record_crc X ds" "wr_ct rpt = length ds"
    "i = length pre" "e = length pre + length ds + 2" "healthy b s'" "view s' = view s"
proof (cases "Some (Start (wr_seq rpt)) \<in> set (elems_of s)")
  case False
  obtain it where it: "st_iter S s = IterOk it" "it_ok b it" "todo it = view s"
    using iter_start [OF assms(1)] by blast
  then show thesis
    using verify_seek_misses [OF it(2), of "wr_seq rpt" 0 0] False assms(2)
    by (auto simp: verify_list_in_flash_def)
next
  case True
  then obtain pre rest where split: "elems_of s = pre @ Some (Start (wr_seq rpt)) # rest"
    "Some (Start (wr_seq rpt)) \<notin> set pre"
    by (metis split_list_first)
  obtain it it1 m where it: "st_iter S s = IterOk it"
      "verify_seek S b (wr_seq rpt) it 0 0 = Some (Ok (), it1, length pre + 1, m)" "it_ok b it1"
      "map fst (todo it1) = rest" "passed it1 @ todo it1 = view s"
    by (rule verify_lands [OF assms(1) split])
  obtain seen it2 where run: "verify_loop S X b rpt it1 crc_new 0 (length pre + 1) m = Some (Ok seen, it2, n)"
    and ends: "i = length pre" "e = seen" "s' = st_release S it2"
    using assms(2) it(1,2) by (auto simp: verify_list_in_flash_def split: option.splits result.splits)
  obtain ds post where ok: "rest = data_elems ds @ Some (End (wr_seq rpt) (wr_crc rpt)) # post"
    "wr_crc rpt = record_crc X ds" "wr_ct rpt = length ds" "seen = length pre + 1 + length ds + 1"
    "it_ok b it2" "passed it2 @ todo it2 = passed it1 @ todo it1"
    using verify_loop_accepts [OF it(3) run, unfolded it(4)] by blast
  have "elems_of s = pre @ map Some (record_elems X (wr_seq rpt) ds) @ post"
    using split(1) ok(1,2) by (simp add: record_elems_options)
  then show thesis
    using ok ends split(2) release [OF ok(5)] it(5) by (intro that [of pre ds post]) simp_all
qed

end

section \<open>A write that succeeds\<close>

text \<open>
  A record with a number above all others is found where it was put, so no unfinished record with its
  number stands before it.
\<close>

lemma record_found_at_end:
  assumes "seq_ahead X es n"
    and "es @ map Some (record_elems X n ds) = pre @ map Some (record_elems X n ds') @ post"
  shows "pre = es"
proof -
  have "\<lparr>gr_seq = n, gr_start = length pre, gr_end = length pre + length ds' + 1\<rparr> \<in>
      set (records_in X (es @ map Some (record_elems X n ds)))"
    unfolding assms(2) located_iff by (intro exI [of _ pre] exI [of _ ds'] exI [of _ post]) simp
  then have "length pre = length es"
    using assms(1) by (auto simp: records_in_complete seq_ahead_def)
  with assms(2) show ?thesis by (metis append_eq_append_conv)
qed

context ndl_storage begin

text \<open>
  A due write that succeeds has appended its record, and nothing before it has the number; the cache
  is in step again, on any storage, whatever else it holds.
\<close>

lemma process_writes_success:
  assumes "externs_ok X" and "heap_ok C h (set (li_list li))" and "healthy (length buf) s" and "9 \<le> length buf"
    and "synced X kept (elems_of s) (li_seq li)" and "needs_writing h li = Ok True"
    and "process_writes S X buf h li s = Some out" and "is_ok (o_res out)"
  obtains n where "next_seq (li_seq li) = Some n" "\<not> needs_gc (li_seq li)" "Some (Start n) \<notin> set (elems_of s)"
    "elems_of (o_storage out) = elems_of s @ map Some (record_elems X n (list_data X C h (li_list li)))"
    "synced X kept (elems_of (o_storage out)) (li_seq (o_inner out))"
    "newest_data (contents X (elems_of (o_storage out))) = list_data X C h (li_list li)"
    "li_list (o_inner out) = li_list li" "o_heap out = mark_written (li_list li) h"
    "healthy (length buf) (o_storage out)"
proof -
  let ?ds = "list_data X C h (li_list li)"
  obtain n where n: "next_seq (li_seq li) = Some n" "\<not> needs_gc (li_seq li)"
    using assms(7,8) by (cases "next_seq (li_seq li)"; cases "needs_gc (li_seq li)")
      (auto simp: process_writes_guards)
  note ahead = synced_ahead [OF assms(5) n(1)]
  obtain rpt s1 buf1 where w: "write_to_flash S X h (li_list li) buf s n = Some (Ok rpt, s1, buf1)"
    using assms(7,8) n assms(6)
    by (auto simp: process_writes_def Let_def split: option.splits result.splits)
  from write_to_flash_outcome [OF assms(1,2,3) ahead(3) w order_refl assms(4)]
  have s1: "healthy (length buf1) s1" "length buf1 = length buf"
      "elems_of s1 = elems_of s @ map Some (record_elems X n ?ds)" "wr_seq rpt = n"
    by simp_all
  obtain i e s2 m where v: "verify_list_in_flash S X (length buf1) rpt s1 = Some (Ok (i, e), s2, m)"
    using assms(7,8) n assms(6) w
    by (auto simp: process_writes_def Let_def split: option.splits result.splits)
  obtain pre ds post where rec: "elems_of s1 = pre @ map Some (record_elems X n ds) @ post"
    "Some (Start n) \<notin> set pre" "i = length pre" "e = length pre + length ds + 2"
    "healthy (length buf1) s2" "view s2 = view s1"
    using verify_accepts [OF s1(1) v] s1(4) by metis
  have pre: "pre = elems_of s" using record_found_at_end [OF ahead(1)] rec(1) s1(3) by metis
  then have "map Some (record_elems X n ?ds) = map Some (record_elems X n ds) @ post"
    using rec(1) s1(3) by simp
  then have "contents X (map Some (record_elems X n ?ds)) = contents X (map Some (record_elems X n ds) @ post)"
    by simp
  then have ds: "ds = ?ds"
    using contents_around_record [of X "[]" n ?ds "[]"] contents_around_record [of X "[]" n ds post] by simp
  let ?rec = "\<lparr>gr_seq = n, gr_start = length (elems_of s), gr_end = length (elems_of s) + length ?ds + 2\<rparr>"
  obtain q where q: "insert_good ?rec (li_seq li) = Some q"
    "out = \<lparr>o_res = Ok \<lparr>pw_total_bytes_read = m, pw_current_bytes_written = wr_bytes_written rpt\<rparr>,
      o_heap = mark_written (li_list li) h, o_inner = li\<lparr>li_seq := q\<rparr>, o_storage = s2, o_wakes = []\<rparr>"
    using assms(6,7) n w v rec(3,4) pre ds
    by (auto simp: process_writes_def Let_def split: option.splits)
  note synced = synced_write [OF assms(5) n refl q(1)]
  show thesis
    by (rule that [of n]) (use n q rec(2,5,6) pre s1 synced in simp_all)
qed

end

section \<open>Properties\<close>

text \<open>
  C24: Verification is sound. Whatever \<open>verify_list_in_flash\<close> accepts, on any healthy storage, is a
  complete record: a start element with the number of the report, which is the first with that number,
  as many data elements as the report says, whose checksum is the reported one, and an end element
  with both, next to each other; the position it reports is that of the start element, and storage is
  as it was.
\<close>

theorem verified_record_is_complete:
  assumes "ndl_reader S healthy view it_ok passed todo" and "healthy b s"
    and "verify_list_in_flash S X b rpt s = Some (Ok (i, e), s', n)"
  shows "\<exists>ds post. map fst (view s) = take i (map fst (view s)) @ map Some (record_elems X (wr_seq rpt) ds) @ post \<and>
    Some (Start (wr_seq rpt)) \<notin> set (take i (map fst (view s))) \<and> i \<le> length (view s) \<and>
    wr_crc rpt = record_crc X ds \<and> wr_ct rpt = length ds \<and> view s' = view s"
proof -
  obtain pre ds post where rec: "map fst (view s) = pre @ map Some (record_elems X (wr_seq rpt) ds) @ post"
    "Some (Start (wr_seq rpt)) \<notin> set pre" "wr_crc rpt = record_crc X ds" "wr_ct rpt = length ds"
    "i = length pre" "view s' = view s"
    by (rule ndl_reader.verify_accepts [OF assms])
  have "i \<le> length (view s)" using arg_cong [OF rec(1), of length] rec(5) by simp
  with rec show ?thesis
    by (intro exI [of _ ds] exI [of _ post]) simp
qed

text \<open>The record of the last sequence number, verified with the right report.\<close>

theorem verified_record_is_complete_witness:
  "\<exists>ds. take 3 last_elems = record_elems cbor_externs (- 1) ds \<and> length ds = 1"
proof -
  let ?rpt = "\<lparr>wr_seq = - 1, wr_crc = record_crc cbor_externs [SerData [1, 0x61, 0x61, 0x81, 4]], wr_ct = 1,
    wr_bytes_written = 0\<rparr>"
  obtain s' n where "verify_list_in_flash test_ops cbor_externs 4096 ?rpt (storage_of last_elems) = Some (Ok (0, 3), s', n)"
    by (rule test_storage.verify_complete [of 4096 "storage_of last_elems" "[]" cbor_externs "- 1" "[SerData [1, 0x61, 0x61, 0x81, 4]]" ?rpt])
      (simp_all add: last_storage, simp_all add: last_elems_def)
  from verified_record_is_complete [OF test_storage.ndl_reader_axioms last_storage(1) this]
  obtain ds post where "map Some last_elems = map Some (record_elems cbor_externs (- 1) ds) @ post" "length ds = 1"
    by (auto simp: last_storage)
  then have "take 3 (map Some last_elems) = map Some (record_elems cbor_externs (- 1) ds)"
    by (simp add: record_elems_def)
  then have "map Some (take 3 last_elems) = map Some (record_elems cbor_externs (- 1) ds)"
    by (simp add: take_map)
  then have "take 3 last_elems = record_elems cbor_externs (- 1) ds"
    by (metis map_injective inj_Some)
  then show ?thesis using \<open>length ds = 1\<close> by blast
qed

text \<open>
  C5: \<open>Ok\<close> means durable. If \<open>process_writes\<close> returns \<open>Ok\<close> and a write was needed, then, whatever
  room there was and whatever else the storage holds, the record with the data of every node that has
  data is the newest complete one in storage, appended to what was there under a number that no
  element there has; the nodes are clean and the cache is in step.
\<close>

theorem reported_success_is_durable:
  assumes "ndl_storage S healthy view it_ok passed todo room" and "externs_ok X"
    and "heap_ok C h (set (li_list li))" and "healthy (length buf) s" and "9 \<le> length buf"
    and "synced X kept (map fst (view s)) (li_seq li)" and "needs_writing h li = Ok True"
    and "process_writes S X buf h li s = Some out" and "is_ok (o_res out)"
  shows "\<exists>n. next_seq (li_seq li) = Some n \<and> Some (Start n) \<notin> set (map fst (view s)) \<and>
    map fst (view (o_storage out)) = map fst (view s) @ map Some (record_elems X n (list_data X C h (li_list li))) \<and>
    newest_data (contents X (map fst (view (o_storage out)))) = list_data X C h (li_list li) \<and>
    synced X kept (map fst (view (o_storage out))) (li_seq (o_inner out)) \<and>
    o_heap out = mark_written (li_list li) h"
  using ndl_storage.process_writes_success [OF assms(1-5,6-9)] by metis

theorem reported_success_is_durable_witness:
  "\<exists>out. process_writes test_ops cbor_externs sample_buf sample_heap sample_list test_default = Some out \<and>
     map fst (test_view (o_storage out)) =
       map Some (record_elems cbor_externs 1 (list_data cbor_externs (\<lambda>_. cfg_codec) sample_heap sample_nodes))"
proof -
  obtain out where out: "process_writes test_ops cbor_externs sample_buf sample_heap sample_list test_default = Some out"
    "is_ok (o_res out)"
    by (rule sample_write)
  have synced: "synced cbor_externs 3 (map fst (test_view test_default)) (li_seq sample_list)"
    by (simp add: sample_healthy sample_synced)
  have buf: "9 \<le> length sample_buf" by (simp add: sample_writing TEST_MAX_ELEM_SIZE_def)
  from reported_success_is_durable [OF test_storage.ndl_storage_axioms cbor_externs_ok sample_heap_ok sample_healthy(1) buf
      synced sample_writing(3) out]
  show ?thesis using out(1) by (auto simp: sample_healthy sample_writing)
qed

end
