(* ===== verification/Storage_Properties.thy ===== *)
theory Storage_Properties
  imports Samples
begin

text \<open>
  The two storages of the repository against the storage contract, the codec of flash elements, the
  sizes \<open>Flash\<close> promises, and the way from a node to a data element and back. \<open>mem_queue\<close> is a
  queue in memory on which the laws assumed of the \<open>sequential-storage\<close> queue are shown to hold.
\<close>

section \<open>A queue in memory\<close>

text \<open>
  The items from oldest to newest; an iterator has the items it passed and those to come. Reading
  fails on an item larger than the scratch buffer, pushing when a hundred items are stored.
\<close>

type_synonym mem = "u8 list list"

definition mem_next :: "nat \<Rightarrow> mem \<times> mem \<Rightarrow> (mem \<times> mem, u8 list, unit) next_result" where
  "mem_next b = (\<lambda>(p, t).
     case t of
       [] \<Rightarrow> NextEnd (p, [])
     | x # xs \<Rightarrow> if b < length x then NextErr () (p, t) else NextItem x (p @ [x], xs))"

definition mem_queue :: "(mem, mem \<times> mem, u8 list, unit) queue_ops" where
  "mem_queue =
     \<lparr>q_iter = (\<lambda>q. IterOk ([], q)), q_next = mem_next, q_deref = (\<lambda>e. e),
      q_pop = (\<lambda>_ (p, t). InvalidateOk (butlast p, t)), q_release = (\<lambda>(p, t). p @ t),
      q_push = (\<lambda>q bs. if length q < 100 then QueueOk (q @ [bs]) else QueueErr () q),
      q_item_overhead = 8\<rparr>"

definition mem_ok :: "nat \<Rightarrow> mem \<Rightarrow> bool" where
  "mem_ok b q \<longleftrightarrow> list_all (\<lambda>x. length x \<le> b) q"

definition mem_room :: "mem \<Rightarrow> nat" where
  "mem_room q = 100 - length q"

lemma mem_queue_laws:
  "queue_laws mem_queue mem_ok (\<lambda>q. q) (\<lambda>b (p, t). mem_ok b p \<and> mem_ok b t) fst snd mem_room"
  unfolding queue_laws_def
  by (auto simp: mem_queue_def mem_next_def mem_ok_def mem_room_def split: list.splits if_splits)

text \<open>The sizes of the flash of the nRF52840 demos: sectors of 4096 bytes, words of 4.\<close>

definition nrf_flash :: nor_flash where
  "nrf_flash = \<lparr>nf_erase_size = 4096, nf_write_size = 4, nf_read_size = 4\<rparr>"

interpretation mem_flash: ndl_storage "flash_ops mem_queue nrf_flash" mem_ok
  "flash_entries mem_queue nrf_flash" "\<lambda>b (p, t). mem_ok b p \<and> mem_ok b t"
  "\<lambda>it. flash_entries mem_queue nrf_flash (fst it)" "\<lambda>it. flash_entries mem_queue nrf_flash (snd it)" mem_room
  by (rule flash_ndl_storage [OF mem_queue_laws])

section \<open>The contract\<close>

text \<open>
  C15: \<open>Flash\<close> implements the storage contract on every queue that keeps the laws of
  \<open>sequential-storage\<close>: what it stores is the queue's items, decoded, and every law of iteration,
  \<open>push\<close> and \<open>invalidate\<close> the list operations rely on follows.
\<close>

theorem flash_keeps_contract:
  assumes "queue_laws Q ok items it_ok passed todo room"
  shows "ndl_storage (flash_ops Q F) ok (\<lambda>q. flash_entries Q F (items q)) it_ok
    (\<lambda>it. flash_entries Q F (passed it)) (\<lambda>it. flash_entries Q F (todo it)) room"
  using assms by (rule flash_ndl_storage)

theorem flash_keeps_contract_witness:
  "ndl_storage (flash_ops mem_queue nrf_flash) mem_ok (\<lambda>q. flash_entries mem_queue nrf_flash q)
     (\<lambda>b (p, t). mem_ok b p \<and> mem_ok b t) (\<lambda>it. flash_entries mem_queue nrf_flash (fst it))
     (\<lambda>it. flash_entries mem_queue nrf_flash (snd it)) mem_room"
  by (rule flash_keeps_contract [OF mem_queue_laws])

text \<open>
  C38: \<open>TestStorage\<close>, on which the crate's tests run, keeps the same contract, so what holds for
  every storage holds in the tests.
\<close>

theorem test_storage_keeps_contract:
  "ndl_storage test_ops test_healthy test_view test_it_ok test_passed test_todo test_room"
  by (rule test_storage.ndl_storage_axioms)

section \<open>The codec of flash elements\<close>

text \<open>
  C32: The encoding of elements in flash and its decoder are inverse to each other: bytes decode to an
  element exactly if they are its encoding and it is one the crate stores. So every element is read
  back as it was pushed, and no other bytes are taken for it.
\<close>

theorem flash_codec_bijective: "decode_bytes bs = Some e \<longleftrightarrow> storable e \<and> elem_bytes e = bs"
  using decode_elem_bytes elem_bytes_decode by blast

text \<open>
  What \<open>HalfElem::from_bytes\<close> rejects: nothing at all, an unknown version or kind, a start or end
  element of the wrong length or with the number 0, and a data element without a key.
\<close>

lemma flash_rejects_malformed:
  "from_bytes bs = None \<longleftrightarrow>
     bs = [] \<or>
     hd bs = V0_START \<and> (length bs = 5 \<longrightarrow> from_le_bytes (tl bs) = 0) \<or>
     hd bs = V0_DATA \<and> length bs = 1 \<or>
     hd bs = V0_END \<and> (length bs = 9 \<longrightarrow> from_le_bytes (take 4 (tl bs)) = 0) \<or>
     hd bs \<notin> {V0_START, V0_DATA, V0_END}"
  by (cases bs) (auto simp: from_bytes_def nonzero_def)

lemma flash_rejects_malformed_witness:
  "from_bytes [0, 1, 0, 0] = None \<and> from_bytes [0, 0, 0, 0, 0] = None \<and> from_bytes [1] = None \<and> from_bytes [0x11, 5] = None"
  by (simp add: flash_rejects_malformed)

section \<open>Sizes\<close>

text \<open>
  C36: An element of at most \<open>MAX_ELEM_SIZE\<close> bytes fits into one sector, together with the metadata of
  the sector and of the item and the padding to whole words, if the sector size and the item
  overhead are multiples of the word size.
\<close>

theorem max_elem_fits_sector:
  assumes "flash_max_elem_size F overhead = Some n" and "len \<le> n"
    and "w = max (nf_write_size F) (nf_read_size F)" and "0 < w" and "w dvd nf_erase_size F" and "w dvd overhead"
  shows "2 * w + size_with_overhead F overhead len \<le> nf_erase_size F"
proof -
  have n: "n + 2 * w + overhead = nf_erase_size F"
    using assms(1,3) by (auto simp: flash_max_elem_size_def Let_def split: if_splits)
  then have "w dvd n"
    using assms(5,6) by (metis dvd_add_left_iff dvd_triv_right)
  then obtain a where a: "n = w * a" ..
  have "w dvd next_multiple_of len w" "next_multiple_of len w < len + w"
    using next_multiple_of_bounds [OF assms(4)] by (simp_all add: mod_eq_0_iff_dvd)
  then obtain k where k: "next_multiple_of len w = w * k" "w * k < len + w" by auto
  then have "w * k < w * Suc a" using assms(2) a by simp
  then have "k \<le> a" by (simp only: nat_mult_less_cancel_disj) simp
  then have "next_multiple_of len w \<le> n" using a k(1) by simp
  then show ?thesis
    using n assms(3) by (simp add: size_with_overhead_def)
qed

theorem max_elem_fits_sector_witness:
  "flash_max_elem_size nrf_flash 8 = Some 4080 \<and> 2 * 4 + size_with_overhead nrf_flash 8 4078 \<le> 4096"
proof -
  have "flash_max_elem_size nrf_flash 8 = Some 4080"
    by (simp add: flash_max_elem_size_def nrf_flash_def)
  with max_elem_fits_sector [OF this, of 4078 4] show ?thesis
    by (simp add: nrf_flash_def)
qed

section \<open>From a node to a data element and back\<close>

text \<open>
  C35: \<open>check_node_size\<close> predicts exactly whether a node can be written: with a scratch buffer of
  \<open>MAX_ELEM_SIZE\<close> bytes, the first of which is kept for the header, serialising the node succeeds if
  and only if the check does.
\<close>

theorem check_node_size_exact:
  assumes "externs_ok X" and "n_vtable node = vtable_for_ty c" and "n_t node = Some v" and "roundtrips c v"
    and "length buf = st_max_elem_size S" and "buf \<noteq> []"
  shows "check_node_size S X c (n_key node) v \<longleftrightarrow>
    (\<exists>n rest. serialize_node X node (tl buf) = Some (Ok (n, rest)))"
  using assms(5,6) externs_okD(2) [OF assms(1)] assms(4)
  by (cases buf) (auto simp: serialize_node_eq [OF assms(2,3)] check_node_size_def node_bytes_def roundtrips_def Let_def)

theorem check_node_size_exact_witness:
  "check_node_size test_ops cbor_externs cfg_codec (n_key (sample_heap 0)) 13 \<longleftrightarrow>
     (\<exists>n rest. serialize_node cbor_externs (sample_heap 0) (tl sample_buf) = Some (Ok (n, rest)))"
  by (rule check_node_size_exact [OF cbor_externs_ok])
    (simp_all add: sample_heap_def cfg_roundtrips sample_buf_def TEST_MAX_ELEM_SIZE_def)

text \<open>
  C33: A serialised node is read back: the data element the write loop builds from a node splits into
  the node's key and a body that the node's own type decodes to the node's value.
\<close>

theorem node_roundtrip:
  assumes "externs_ok X" and "n_vtable node = vtable_for_ty c" and "n_t node = Some v" and "roundtrips c v"
    and "serialize_node X node rest = Some (Ok (used, rest'))"
  shows "\<exists>d kv. ser_data_new (take (used + 1) (first # rest')) = Some d \<and> ser_hdr d = Some V0_DATA \<and>
    kv_pair X d = Ok kv \<and> kv_key kv = n_key node \<and> cd_decode c (kv_body kv) = Some v"
proof -
  let ?bs = "node_bytes X c (n_key node) v"
  have "used = length ?bs" "rest' = ?bs @ drop (length ?bs) rest"
    using assms(5) by (auto simp: serialize_node_eq [OF assms(2,3)] Let_def split: if_splits)
  then have "ser_data_new (take (used + 1) (first # rest')) = Some (SerData (V0_DATA # ?bs))"
    by (simp add: ELEM_VERSION_V0_def ELEM_DISCRIMINANT_DATA_def)
  moreover have "kv_pair X (SerData (V0_DATA # ?bs)) = Ok (KvPair (n_key node) (cd_encode c v))"
    unfolding node_bytes_def by (rule kv_pair_encoded [OF assms(1)])
  ultimately show ?thesis
    using assms(4) by (auto simp: ser_hdr_def roundtrips_def)
qed

theorem node_roundtrip_witness:
  "\<exists>used rest' d kv. serialize_node cbor_externs (sample_heap 0) (tl sample_buf) = Some (Ok (used, rest')) \<and>
     ser_data_new (take (used + 1) (0 # rest')) = Some d \<and>
     kv_pair cbor_externs d = Ok kv \<and> kv_key kv = ''test/config1'' \<and> cfg_decode (kv_body kv) = Some 13"
proof -
  have node: "n_vtable (sample_heap 0) = vtable_for_ty cfg_codec" "n_t (sample_heap 0) = Some 13"
    "n_key (sample_heap 0) = ''test/config1''"
    by (simp_all add: sample_heap_def sample_key_def)
  have "length (node_bytes cbor_externs cfg_codec ''test/config1'' 13) \<le> 4079"
    by (simp add: node_bytes_def cbor_externs_def cbor_text_def cfg_codec_def cfg_encode_def)
  then obtain used rest' where ok: "serialize_node cbor_externs (sample_heap 0) (tl sample_buf) = Some (Ok (used, rest'))"
    by (auto simp: serialize_node_eq [OF node(1,2)] node(3) Let_def sample_buf_def TEST_MAX_ELEM_SIZE_def)
  from node_roundtrip [OF cbor_externs_ok node(1,2) cfg_roundtrips ok, of 0] ok show ?thesis
    by (auto simp: node(3) cfg_codec_def)
qed

section \<open>Records written by hand\<close>

fun writer_adds :: "externs \<Rightarrow> 'v codec \<Rightarrow> (key \<times> 'v) list \<Rightarrow> record_writer \<Rightarrow> record_writer option" where
  "writer_adds X c [] w = Some w"
| "writer_adds X c ((k, v) # kvs) w =
     (case writer_add X c k v w of None \<Rightarrow> None | Some w' \<Rightarrow> writer_adds X c kvs w')"

lemma writer_adds_ok:
  assumes "test_healthy b (rw_sto w)" and "length kvs \<le> test_room (rw_sto w)"
    and "\<forall>(k, v) \<in> set kvs. length (str_encode X k) \<le> 4096 \<and> length (cd_encode c v) \<le> 4096"
  shows "\<exists>w'. writer_adds X c kvs w = Some w' \<and> test_healthy b (rw_sto w') \<and> rw_seq w' = rw_seq w \<and>
    test_room (rw_sto w') = test_room (rw_sto w) - length kvs \<and>
    crc_fed (rw_crc w') = crc_fed (rw_crc w) @ concat (map (\<lambda>(k, v). node_bytes X c k v) kvs) \<and>
    map fst (test_view (rw_sto w')) = map fst (test_view (rw_sto w)) @
      map (\<lambda>(k, v). Some (Data (SerData (V0_DATA # node_bytes X c k v)))) kvs"
  using assms
proof (induction kvs arbitrary: w)
  case (Cons kv kvs)
  obtain k v where kv: "kv = (k, v)" by (cases kv)
  let ?e = "TData (1 # node_bytes X c k v)"
  obtain s1 where s1: "next_ctr (rw_sto w) = Some (ts_ctr (rw_sto w), s1)"
    "test_healthy b (s1\<lparr>ts_items := ts_items s1 @ [\<lparr>ti_ctr = ts_ctr (rw_sto w), ti_elem = ?e\<rparr>]\<rparr>)"
    "map fst (test_view (s1\<lparr>ts_items := ts_items s1 @ [\<lparr>ti_ctr = ts_ctr (rw_sto w), ti_elem = ?e\<rparr>]\<rparr>)) =
      map fst (test_view (rw_sto w)) @ [fst (test_entry \<lparr>ti_ctr = ts_ctr (rw_sto w), ti_elem = ?e\<rparr>)]"
    "test_room (s1\<lparr>ts_items := ts_items s1 @ [\<lparr>ti_ctr = ts_ctr (rw_sto w), ti_elem = ?e\<rparr>]\<rparr>) = test_room (rw_sto w) - 1"
    by (rule append_item [OF Cons.prems(1), of ?e]) (use Cons.prems(2) in simp_all)
  define w1 where "w1 = w\<lparr>rw_sto := s1\<lparr>ts_items := ts_items s1 @ [\<lparr>ti_ctr = ts_ctr (rw_sto w), ti_elem = ?e\<rparr>]\<rparr>,
    rw_crc := crc_update (crc_update (rw_crc w) (str_encode X k)) (cd_encode c v)\<rparr>"
  have add: "writer_add X c k v w = Some w1"
    using Cons.prems(3) s1(1) by (simp add: writer_add_def add_data_elem_def kv w1_def Let_def node_bytes_def)
  have "\<exists>w'. writer_adds X c kvs w1 = Some w' \<and> test_healthy b (rw_sto w') \<and> rw_seq w' = rw_seq w1 \<and>
    test_room (rw_sto w') = test_room (rw_sto w1) - length kvs \<and>
    crc_fed (rw_crc w') = crc_fed (rw_crc w1) @ concat (map (\<lambda>(k, v). node_bytes X c k v) kvs) \<and>
    map fst (test_view (rw_sto w')) = map fst (test_view (rw_sto w1)) @
      map (\<lambda>(k, v). Some (Data (SerData (V0_DATA # node_bytes X c k v)))) kvs"
    by (rule Cons.IH) (use Cons.prems s1 in \<open>simp_all add: w1_def\<close>)
  then show ?case
    using s1 by (auto simp: kv add) (simp_all add: w1_def node_bytes_def test_entry_def test_data_def ser_data_from_existing_def)
qed simp

text \<open>
  Started with a sequence number, given any keys and values that fit its scratch buffer, and ended,
  \<open>RecordWriter\<close> leaves exactly the elements of a complete record, checksum included.
\<close>

lemma writer_record:
  assumes "test_healthy b s" and "length kvs + 2 \<le> test_room s" and "seq \<noteq> 0"
    and "\<forall>(k, v) \<in> set kvs. length (str_encode X k) \<le> 4096 \<and> length (cd_encode c v) \<le> 4096"
  shows "\<exists>w w' s'. start_write_record seq s = Some w \<and> writer_adds X c kvs w = Some w' \<and>
    writer_end X w' = Some s' \<and> test_healthy b s' \<and>
    map fst (test_view s') = map fst (test_view s) @
      map Some (record_elems X seq (map (\<lambda>(k, v). SerData (V0_DATA # node_bytes X c k v)) kvs))"
proof -
  obtain s1 where s1: "next_ctr s = Some (ts_ctr s, s1)"
    "test_healthy b (s1\<lparr>ts_items := ts_items s1 @ [\<lparr>ti_ctr = ts_ctr s, ti_elem = TStart seq\<rparr>]\<rparr>)"
    "map fst (test_view (s1\<lparr>ts_items := ts_items s1 @ [\<lparr>ti_ctr = ts_ctr s, ti_elem = TStart seq\<rparr>]\<rparr>)) =
      map fst (test_view s) @ [fst (test_entry \<lparr>ti_ctr = ts_ctr s, ti_elem = TStart seq\<rparr>)]"
    "test_room (s1\<lparr>ts_items := ts_items s1 @ [\<lparr>ti_ctr = ts_ctr s, ti_elem = TStart seq\<rparr>]\<rparr>) = test_room s - 1"
    by (rule append_item [OF assms(1), of "TStart seq"]) (use assms(2,3) in simp_all)
  define w where "w = \<lparr>rw_sto = s1\<lparr>ts_items := ts_items s1 @ [\<lparr>ti_ctr = ts_ctr s, ti_elem = TStart seq\<rparr>]\<rparr>,
    rw_seq = seq, rw_crc = crc_new\<rparr>"
  have w: "start_write_record seq s = Some w"
    using s1(1) by (simp add: start_write_record_def test_append_def w_def)
  have "test_healthy b (rw_sto w)" "length kvs + 1 \<le> test_room (rw_sto w)"
    using s1 assms(2) by (simp_all add: w_def)
  from writer_adds_ok [OF this(1) _ assms(4)] this(2)
  obtain w' where w': "writer_adds X c kvs w = Some w'" "test_healthy b (rw_sto w')" "rw_seq w' = seq"
    "0 < test_room (rw_sto w')" "crc_fed (rw_crc w') = concat (map (\<lambda>(k, v). node_bytes X c k v) kvs)"
    "map fst (test_view (rw_sto w')) = map fst (test_view (rw_sto w)) @
      map (\<lambda>(k, v). Some (Data (SerData (V0_DATA # node_bytes X c k v)))) kvs"
    by (auto simp: w_def)
  let ?e = "TEnd seq (crc_finalize X (rw_crc w'))"
  obtain s2 where s2: "next_ctr (rw_sto w') = Some (ts_ctr (rw_sto w'), s2)"
    "test_healthy b (s2\<lparr>ts_items := ts_items s2 @ [\<lparr>ti_ctr = ts_ctr (rw_sto w'), ti_elem = ?e\<rparr>]\<rparr>)"
    "map fst (test_view (s2\<lparr>ts_items := ts_items s2 @ [\<lparr>ti_ctr = ts_ctr (rw_sto w'), ti_elem = ?e\<rparr>]\<rparr>)) =
      map fst (test_view (rw_sto w')) @ [fst (test_entry \<lparr>ti_ctr = ts_ctr (rw_sto w'), ti_elem = ?e\<rparr>)]"
    by (rule append_item [OF w'(2,4), of ?e]) (use assms(3) in simp_all)
  have "record_crc X (map (\<lambda>(k, v). SerData (V0_DATA # node_bytes X c k v)) kvs) = crc_finalize X (rw_crc w')"
    by (simp add: record_crc_def crc_finalize_def w'(5) o_def case_prod_unfold)
  then have "map fst (test_view (s2\<lparr>ts_items := ts_items s2 @ [\<lparr>ti_ctr = ts_ctr (rw_sto w'), ti_elem = ?e\<rparr>]\<rparr>)) =
      map fst (test_view s) @ map Some (record_elems X seq (map (\<lambda>(k, v). SerData (V0_DATA # node_bytes X c k v)) kvs))"
    using s1(3) s2(3) w'(6) by (simp add: w_def record_elems_def test_entry_def test_data_def o_def case_prod_unfold)
  moreover have "writer_end X w' = Some (s2\<lparr>ts_items := ts_items s2 @ [\<lparr>ti_ctr = ts_ctr (rw_sto w'), ti_elem = ?e\<rparr>]\<rparr>)"
    using s2(1) w'(3) by (simp add: writer_end_def test_append_def)
  ultimately show ?thesis using w w'(1) s2(2) by blast
qed

text \<open>
  C34: \<open>RecordWriter\<close> writes what \<open>process_writes\<close> writes. If a due write of a list, all of whose nodes have
  the type \<open>c\<close>, completes on a \<open>TestStorage\<close>, then \<open>RecordWriter\<close>, started on the same storage with the same
  number and given the keys and values of the nodes that have one, in the order of the list, leaves
  the same elements, checksum included; its scratch buffer has to hold each key and each value, and the
  storage has to have room.
\<close>

theorem record_writer_builds_record:
  assumes "externs_ok X" and "heap_ok (\<lambda>_. c) h (set (li_list li))" and "test_healthy (length buf) s" and "9 \<le> length buf"
    and "cache_ok kept (li_seq li)" and "next_seq (li_seq li) = Some seq" and "needs_writing h li = Ok True"
    and "process_writes test_ops X buf h li s = Some out" and "is_ok (o_res out)"
    and "kvs = map (\<lambda>i. (n_key (h i), the (n_t (h i)))) (filter (\<lambda>i. has_data (n_state (h i))) (li_list li))"
    and "length kvs + 2 \<le> test_room s"
    and "\<forall>(k, v) \<in> set kvs. length (str_encode X k) \<le> 4096 \<and> length (cd_encode c v) \<le> 4096"
  shows "\<exists>w w' s'. start_write_record seq s = Some w \<and> writer_adds X c kvs w = Some w' \<and>
    writer_end X w' = Some s' \<and> test_healthy (length buf) s' \<and>
    map fst (test_view s') = map fst (test_view (o_storage out)) \<and>
    map fst (test_view s') = map fst (test_view s) @
      map Some (record_elems X seq (map (\<lambda>(k, v). SerData (V0_DATA # node_bytes X c k v)) kvs))"
proof -
  have "seq \<noteq> 0" using next_above_keys [OF assms(5,6)] by simp
  from writer_record [OF assms(3,11) this assms(12)] obtain w w' s' where w: "start_write_record seq s = Some w"
    "writer_adds X c kvs w = Some w'" "writer_end X w' = Some s'" "test_healthy (length buf) s'"
    "map fst (test_view s') = map fst (test_view s) @
      map Some (record_elems X seq (map (\<lambda>(k, v). SerData (V0_DATA # node_bytes X c k v)) kvs))" by blast
  have "map (\<lambda>(k, v). SerData (V0_DATA # node_bytes X c k v)) kvs = list_data X (\<lambda>_. c) h (li_list li)"
    by (simp add: assms(10) list_data_def written_def node_data_def)
  moreover have "map fst (test_view (o_storage out)) = map fst (test_view s) @
      map Some (record_elems X seq (list_data X (\<lambda>_. c) h (li_list li)))"
    using test_storage.process_writes_outcome(4) [OF assms(1-3,5,8,4,9,7)] assms(6) by simp
  ultimately show ?thesis using w by auto
qed

text \<open>The sample list, written by \<open>process_writes\<close>, and by hand.\<close>

theorem record_writer_builds_record_witness:
  "\<exists>out w w' s'. process_writes test_ops cbor_externs sample_buf sample_heap sample_list test_default = Some out \<and>
     start_write_record 1 test_default = Some w \<and>
     writer_adds cbor_externs cfg_codec [(sample_key 0, 13), (sample_key 1, 240)] w = Some w' \<and>
     writer_end cbor_externs w' = Some s' \<and> map fst (test_view s') = map fst (test_view (o_storage out))"
proof -
  let ?kvs = "[(sample_key 0, 13), (sample_key 1, 240)] :: (key \<times> u8) list"
  obtain out where out: "process_writes test_ops cbor_externs sample_buf sample_heap sample_list test_default = Some out"
    "is_ok (o_res out)" by (rule sample_write)
  have kvs: "?kvs = map (\<lambda>i. (n_key (sample_heap i), the (n_t (sample_heap i))))
      (filter (\<lambda>i. has_data (n_state (sample_heap i))) (li_list sample_list))"
    by (simp add: sample_writing sample_nodes_def sample_heap_def)
  have fits: "\<forall>(k, v) \<in> set ?kvs. length (str_encode cbor_externs k) \<le> 4096 \<and> length (cd_encode cfg_codec v) \<le> 4096"
    by (simp add: cbor_externs_def cbor_text_def sample_key_def cfg_codec_def cfg_encode_def)
  have buf: "9 \<le> length sample_buf" by (simp add: sample_writing TEST_MAX_ELEM_SIZE_def)
  have room: "length ?kvs + 2 \<le> test_room test_default" by (simp add: sample_room)
  from record_writer_builds_record [OF cbor_externs_ok sample_heap_ok sample_healthy(1) buf sample_cache sample_writing(1,3)
      out kvs room fits] out(1)
  show ?thesis by blast
qed

end
