(* ===== verification/Histories.thy ===== *)
theory Histories
  imports Verified_Writes Garbage_Cut Storage_Properties
begin

text \<open>
  Whole histories of a device: boots, reads, changes of nodes, writes that succeed, fail or are cut
  off by a loss of power, collections that end or are cut off, restarts. \<open>device_step\<close> composes the
  operations of the list in any order; the invariant \<open>sound_site\<close> holds throughout.
\<close>

section \<open>Scanning again\<close>

text \<open>
  While no next number is known, each read scans again on top of the cache it has. A cache in step
  stays in step.
\<close>

lemma last_insert_key:
  assumes "sorted ks" and "ks \<noteq> []" and "k \<le> last ks"
  shows "last (insert_key k ks) = last ks"
proof (cases "k < hd ks")
  case False
  then obtain a t where ks: "ks = a # t" "a \<le> k" using assms(2) by (cases ks) auto
  have "sorted t" using assms(1) ks(1) by simp
  have "last (insort k t) = (if t = [] then k else max k (last t))"
    if "sorted t" for t
    using that
  proof (induction t)
    case (Cons b t)
    then show ?case by (cases t) (auto simp: max_def)
  qed simp
  from this [OF \<open>sorted t\<close>] show ?thesis
    using ks assms(3) False by (auto simp: insert_key_def max_def)
qed (simp add: insert_key_def)

lemma insert_good_synced:
  assumes "synced X kept es q" and "r \<in> set (records_in X es)" and "gr_seq r \<noteq> 0"
  obtains q' where "insert_good r q = Some q'" "synced X kept es q'"
proof -
  have cache: "cache_ok kept q" and exact: "cache_exact X es q"
    and high: "map_option gr_seq (highest_seen q) = max_seq (contents X es)"
    using assms(1) by (simp_all add: synced_def)
  obtain q' where q': "insert_good r q = Some q'" "cache_ok kept q'"
    "seq_keys q' = insert_key (Some (gr_seq r)) (seq_keys q)"
    by (rule insert_good_ok [OF cache assms(3)])
  have wf: "seq_wf kept q" "seq_wf kept q'" using cache q'(2) by (simp_all add: cache_ok_def)
  have ne: "last_records q \<noteq> []" "last_records q' \<noteq> []" using wf by (auto dest: seq_wf_nonempty)
  have "max_seq (contents X es) = Some (Max (gr_seq ` set (records_in X es)))"
    using assms(2) by (auto simp: max_seq_records)
  then have last: "last (seq_keys q) = Some (Max (gr_seq ` set (records_in X es)))"
    using high highest_seen_keys [OF ne(1)] by simp
  have "last (seq_keys q') = last (seq_keys q)"
    unfolding q'(3) using last_insert_key [of "seq_keys q" "Some (gr_seq r)"] wf(1) ne(1) last assms(2)
    by (auto simp: seq_wf_def seq_keys_def)
  then have "map_option gr_seq (highest_seen q') = max_seq (contents X es)"
    using high highest_seen_keys [OF ne(1)] highest_seen_keys [OF ne(2)] by simp
  moreover have "cache_exact X es q'"
    using exact assms(2) present_insert_good [OF q'(1)]
    by (fastforce simp: cache_exact_def same_place_def)
  moreover have "needs_gc q' \<or> (\<forall>r \<in> set (present q'). gr_end r < length es)"
    using wf(1)
  proof (cases rule: insert_good_cases [of kept q r])
    case skip
    then show ?thesis using q'(1) assms(1) by (simp add: synced_def)
  next
    case (put i)
    then show ?thesis using q'(1) by simp
  qed
  ultimately have "synced X kept es q'" using assms(1) q'(2) by (simp add: synced_def)
  with q'(1) show thesis by (rule that)
qed

lemma insert_all_synced:
  assumes "synced X kept es q" and "set rs \<subseteq> set (records_in X es)" and "\<forall>r \<in> set rs. gr_seq r \<noteq> 0"
  shows "\<exists>q'. insert_all rs q = Some q' \<and> synced X kept es q'"
  using assms
proof (induction rs arbitrary: q)
  case (Cons r rs)
  then obtain q1 where "insert_good r q = Some q1" "synced X kept es q1"
    by (metis insert_good_synced list.set_intros(1) subsetD)
  then show ?case using Cons.IH [of q1] Cons.prems by simp
qed simp

lemma synced_first_number:
  assumes "synced X kept es q" and "highest_seen q = None"
  shows "synced X kept es (q\<lparr>next_seq := Some 1\<rparr>)"
  using assms by (simp add: synced_def cache_ok_def seq_wf_def next_ok_def cache_exact_def)

context ndl_reader begin

lemma populate_again:
  assumes "healthy b s" and "synced X kept (elems_of s) q"
  obtains q' n' s' where "get_or_populate_latest S X b q n s = Some (Ok (highest_seen q'), q', n', s')"
    "synced X kept (elems_of s) q'" "healthy b s'" "view s' = view s"
proof (cases "initial_scan_completed q")
  case True
  then have "get_or_populate_latest S X b q n s = Some (Ok (highest_seen q), q, n, s)"
    by (simp add: get_or_populate_latest_def)
  then show thesis by (rule that) (use assms in simp_all)
next
  case False
  have "\<forall>r \<in> set (records_in X (elems_of s)). gr_seq r \<noteq> 0"
    using records_typed [OF view_typed [OF assms(1)]] by blast
  from insert_all_synced [OF assms(2) subset_refl this]
  obtain q1 where q1: "insert_all (records_in X (elems_of s)) q = Some q1" "synced X kept (elems_of s) q1"
    by blast
  have "synced X kept (elems_of s) (rescan q1)"
    using q1(2) synced_first_number by (auto simp: rescan_def)
  with that show thesis by (metis populate_inserts [OF assms(1) False q1(1)])
qed

text \<open>A read from a cache in step, whether it scans again or not.\<close>

lemma reads_in_step:
  assumes "healthy (length buf) s" and "synced X kept (elems_of s) (li_seq li)" and "distinct_keys h (li_list li)"
  obtains out where "process_reads S X buf h li s = Some out" "is_ok (o_res out)"
    "synced X kept (elems_of s) (li_seq (o_inner out))" "li_list (o_inner out) = li_list li"
    "healthy (length buf) (o_storage out)" "view (o_storage out) = view s"
    "\<And>i. o_heap out i =
       (if i \<in> set (li_list li) then read_node X (newest_data (contents X (elems_of s))) (h i) else h i)"
proof -
  obtain q n s1 where q: "get_or_populate_latest S X (length buf) (li_seq li) 0 s = Some (Ok (highest_seen q), q, n, s1)"
    "synced X kept (elems_of s) q" "healthy (length buf) s1" "view s1 = view s"
    by (rule populate_again [OF assms(1,2)])
  have desc: "cache_describes X (elems_of s) q"
    using q(2) exact_describes by (simp add: synced_def)
  obtain out where out: "process_reads S X buf h li s = Some out" "is_ok (o_res out)"
    "\<And>i. o_heap out i = (if i \<in> set (li_list li) then read_node X (latest_data (elems_of s) q) (h i) else h i)"
    "o_inner out = li\<lparr>li_seq := q\<rparr>" "healthy (length buf) (o_storage out)" "view (o_storage out) = view s"
    using process_reads_from_cache [OF q(1,3,4) desc assms(3)] by metis
  show thesis
    by (rule that [OF out(1,2) _ _ out(5,6)]) (use out(3,4) q(2) synced_latest [OF q(2)] in simp_all)
qed

end

section \<open>A write that is cut off\<close>

text \<open>
  \<open>write_to_flash\<close> when the power is lost after the start element and \<open>k\<close> nodes, or, with \<open>k\<close> past
  the list, after all of it: the storage that is left. (A push that is itself cut off is one that
  fails.)
\<close>

definition write_cut ::
  "('s, 'it, 'item, 'e) storage_ops \<Rightarrow> externs \<Rightarrow> 'v heap \<Rightarrow> nid list \<Rightarrow> u8 list \<Rightarrow> 's \<Rightarrow> u32 \<Rightarrow> nat \<Rightarrow> 's option" where
  "write_cut S X h ns buf s seq_no k =
     (if k \<le> length ns then
        (case st_push S s (Start seq_no) of
           PushPanic \<Rightarrow> None
         | PushErr e s1 \<Rightarrow> Some s1
         | PushOk used s1 \<Rightarrow>
             (case write_nodes S X h (take k ns) buf crc_new 0 used s1 of
                None \<Rightarrow> None
              | Some (_, s2, _) \<Rightarrow> Some s2))
      else (case write_to_flash S X h ns buf s seq_no of None \<Rightarrow> None | Some (_, s1, _) \<Rightarrow> Some s1))"

lemma list_data_take:
  obtains j where "list_data X C h (take k ns) = take j (list_data X C h ns)"
proof -
  have "list_data X C h ns = list_data X C h (take k ns) @ list_data X C h (drop k ns)"
    unfolding list_data_def written_def by (metis append_take_drop_id filter_append map_append)
  then have "list_data X C h (take k ns) = take (length (list_data X C h (take k ns))) (list_data X C h ns)"
    by simp
  then show thesis by (rule that)
qed

context ndl_storage begin

lemma write_cut_torn:
  assumes "externs_ok X" and "heap_ok C h (set ns)" and "healthy b s" and "seq \<noteq> 0"
    and "write_cut S X h ns buf s seq k = Some s'" and "length buf \<le> b" and "9 \<le> b"
  shows "healthy b s' \<and> (\<exists>t. elems_of s' = elems_of s @ t \<and> torn X seq (list_data X C h ns) t)"
proof (cases "k \<le> length ns")
  case False
  then obtain res buf' where "write_to_flash S X h ns buf s seq = Some (res, s', buf')"
    using assms(5) by (auto simp: write_cut_def split: option.splits)
  from write_to_flash_outcome [OF assms(1-4) this assms(6,7)] show ?thesis
    by (cases res) (auto simp: torn_def)
next
  case True
  show ?thesis
  proof (cases "st_push S s (Start seq)")
    case PushPanic
    then show ?thesis using assms(5) True by (simp add: write_cut_def)
  next
    case (PushErr e s1)
    then have "write_to_flash S X h ns buf s seq = Some (Err (FlashWrite e), s', buf)"
      using assms(5) True by (simp add: write_cut_def write_to_flash_def)
    from write_to_flash_outcome [OF assms(1-4) this assms(6,7)] show ?thesis by simp
  next
    case (PushOk n s1)
    have s1: "healthy b s1" "elems_of s1 = elems_of s @ [Some (Start seq)]"
      using push_ok_elems [OF PushOk assms(3)] assms(4,7) by simp_all
    obtain res buf' where wn: "write_nodes S X h (take k ns) buf crc_new 0 n s1 = Some (res, s', buf')"
      using assms(5) True PushOk by (auto simp: write_cut_def split: option.splits)
    have heap: "heap_ok C h (set (take k ns))"
      using assms(2) set_take_subset [of k ns] by (auto simp: heap_ok_def)
    obtain j where j: "list_data X C h (take k ns) = take j (list_data X C h ns)" by (rule list_data_take)
    note out = write_nodes_outcome [OF assms(1) heap s1(1) wn assms(6), unfolded j]
    obtain t where "healthy b s'" "elems_of s' = elems_of s1 @ t" "data_part (list_data X C h ns) t"
    proof (cases res)
      case (Ok p)
      with out have "elems_of s' = elems_of s1 @ data_elems (take j (list_data X C h ns))" "healthy b s'"
        by (auto simp: case_prod_beta)
      then show thesis by (rule that [OF _ _ data_part_take [OF data_part_all(1)], rotated])
    next
      case (Err e)
      with out that show thesis by (auto dest: data_part_take)
    qed
    then show ?thesis using s1(2) by auto
  qed
qed

end

section \<open>Histories\<close>

text \<open>
  What a step may do to the durable data, those a list started next would read: nothing; put given
  data in their place; or, when a write failed or was cut off, possibly so.
\<close>

datatype effect =
    Quiet
  | Durable "ser_data list"
  | Unsure "ser_data list"

fun after_effect :: "effect \<Rightarrow> ser_data list set \<Rightarrow> ser_data list set" where
  "after_effect Quiet D = D"
| "after_effect (Durable ds) D = {ds}"
| "after_effect (Unsure ds) D = insert ds D"

text \<open>A boot on the storage that was left: a new list, and nodes that are new to it.\<close>

definition boots :: "(nid \<Rightarrow> 'v codec) \<Rightarrow> nat \<Rightarrow> 's \<Rightarrow> ('v, 's) site \<Rightarrow> bool" where
  "boots C kept s st \<longleftrightarrow> si_storage st = s \<and> fresh_list kept (si_heap st) (si_inner st) \<and>
     heap_ok C (si_heap st) (set (li_list (si_inner st)))"

abbreviation site_data :: "externs \<Rightarrow> (nid \<Rightarrow> 'v codec) \<Rightarrow> ('v, 's) site \<Rightarrow> ser_data list" where
  "site_data X C st \<equiv> list_data X C (si_heap st) (li_list (si_inner st))"

text \<open>
  One step. Between the operations of the list, its nodes may be attached, changed and detached in any
  way that keeps them well formed (\<open>ds_nodes\<close>; \<open>reachable_worlds_are_safe\<close> shows that attach, the
  handles and detach do). A write that fails and leaves something in storage is followed by a restart: what
  happens if the worker goes on instead is the subject of \<open>Blocked_Writes\<close>.
\<close>

inductive device_step ::
  "('s, 'it, 'item, 'e) storage_ops \<Rightarrow> externs \<Rightarrow> (nid \<Rightarrow> 'v codec) \<Rightarrow> ('s \<Rightarrow> entry list) \<Rightarrow> nat \<Rightarrow> nat \<Rightarrow>
     ('v, 's) site \<Rightarrow> effect \<Rightarrow> ('v, 's) site \<Rightarrow> bool"
  for S X C view kept b where
  ds_nodes: "heap_ok C h (set ns) \<Longrightarrow> distinct_keys h ns \<Longrightarrow>
    device_step S X C view kept b st Quiet (st\<lparr>si_heap := h, si_inner := (si_inner st)\<lparr>li_list := ns\<rparr>\<rparr>)"
| ds_read: "length buf = b \<Longrightarrow> run_reads S X buf st = Some (r, st') \<Longrightarrow>
    device_step S X C view kept b st Quiet st'"
| ds_garbage: "length buf = b \<Longrightarrow> run_garbage S X kept buf st = Some (r, st') \<Longrightarrow>
    device_step S X C view kept b st Quiet st'"
| ds_write: "length buf = b \<Longrightarrow> run_writes S X buf st = Some (Ok c, st') \<Longrightarrow>
    needs_writing (si_heap st) (si_inner st) = Ok True \<Longrightarrow>
    device_step S X C view kept b st (Durable (site_data X C st)) st'"
| ds_write_clean: "length buf = b \<Longrightarrow> run_writes S X buf st = Some (Ok c, st') \<Longrightarrow>
    needs_writing (si_heap st) (si_inner st) = Ok False \<Longrightarrow>
    device_step S X C view kept b st Quiet st'"
| ds_write_refused: "length buf = b \<Longrightarrow> run_writes S X buf st = Some (Err e, st') \<Longrightarrow>
    map fst (view (si_storage st')) = map fst (view (si_storage st)) \<Longrightarrow>
    device_step S X C view kept b st Quiet st'"
| ds_write_failed: "length buf = b \<Longrightarrow> run_writes S X buf st = Some (Err e, st1) \<Longrightarrow>
    boots C kept (si_storage st1) st' \<Longrightarrow>
    device_step S X C view kept b st (Unsure (site_data X C st)) st'"
| ds_write_cut: "length buf = b \<Longrightarrow> next_seq (li_seq (si_inner st)) = Some n \<Longrightarrow>
    \<not> needs_gc (li_seq (si_inner st)) \<Longrightarrow> needs_writing (si_heap st) (si_inner st) = Ok True \<Longrightarrow>
    write_cut S X (si_heap st) (li_list (si_inner st)) buf (si_storage st) n k = Some s \<Longrightarrow>
    boots C kept s st' \<Longrightarrow>
    device_step S X C view kept b st (Unsure (site_data X C st)) st'"
| ds_garbage_cut: "gc_begin kept (si_inner st) = Some (cur, li1) \<Longrightarrow>
    st_iter S (si_storage st) = IterOk it \<Longrightarrow>
    boots C kept (st_release S (gc_cut S b cur k it 0)) st' \<Longrightarrow>
    device_step S X C view kept b st Quiet st'"
| ds_restart: "boots C kept (si_storage st) st' \<Longrightarrow>
    device_step S X C view kept b st Quiet st'"

inductive device_run ::
  "('s, 'it, 'item, 'e) storage_ops \<Rightarrow> externs \<Rightarrow> (nid \<Rightarrow> 'v codec) \<Rightarrow> ('s \<Rightarrow> entry list) \<Rightarrow> nat \<Rightarrow> nat \<Rightarrow>
     ('v, 's) site \<Rightarrow> effect list \<Rightarrow> ('v, 's) site \<Rightarrow> bool"
  for S X C view kept b where
  dr_nil: "device_run S X C view kept b st [] st"
| dr_step: "device_step S X C view kept b st l st1 \<Longrightarrow> device_run S X C view kept b st1 ls st' \<Longrightarrow>
    device_run S X C view kept b st (l # ls) st'"

section \<open>The invariant\<close>

text \<open>
  The storage is healthy, no two complete records in it have the same number, nodes are well formed,
  and the cache is empty, before the first read, or in step with the storage.
\<close>

definition sound_site ::
  "externs \<Rightarrow> (nid \<Rightarrow> 'v codec) \<Rightarrow> (nat \<Rightarrow> 's \<Rightarrow> bool) \<Rightarrow> ('s \<Rightarrow> entry list) \<Rightarrow> nat \<Rightarrow> nat \<Rightarrow> ('v, 's) site \<Rightarrow> bool" where
  "sound_site X C healthy view kept b st \<longleftrightarrow>
     healthy b (si_storage st) \<and> distinct (map fst (contents X (map fst (view (si_storage st))))) \<and>
     heap_ok C (si_heap st) (set (li_list (si_inner st))) \<and>
     distinct_keys (si_heap st) (li_list (si_inner st)) \<and>
     (li_seq (si_inner st) = seq_new kept \<or> synced X kept (map fst (view (si_storage st))) (li_seq (si_inner st)))"

text \<open>What a list that is started on the storage reads.\<close>

definition durable_data :: "externs \<Rightarrow> ('s \<Rightarrow> entry list) \<Rightarrow> ('v, 's) site \<Rightarrow> ser_data list" where
  "durable_data X view st = newest_data (contents X (map fst (view (si_storage st))))"

lemma read_heap_ok:
  assumes "heap_read ns h h'" and "heap_ok C h (set ns)"
  shows "heap_ok C h' (set ns)"
  unfolding heap_ok_def
proof
  fix i assume "i \<in> set ns"
  with assms(2) have "n_vtable (h i) = vtable_for_ty (C i)" "has_data (n_state (h i)) \<longrightarrow> n_t (h i) \<noteq> None"
    by (simp_all add: heap_ok_def)
  moreover have "read_step (h i) (h' i)" using assms(1) by (simp add: heap_read_def)
  ultimately show "n_vtable (h' i) = vtable_for_ty (C i) \<and> (has_data (n_state (h' i)) \<longrightarrow> n_t (h' i) \<noteq> None)"
    by (auto simp: read_step_def)
qed

lemma read_keeps_nodes:
  assumes "heap_read ns h h'" and "heap_ok C h (set ns)" and "distinct_keys h ns"
  shows "heap_ok C h' (set ns)" and "distinct_keys h' ns"
proof -
  have "n_key (h' i) = n_key (h i)" for i using assms(1) unfolding heap_read_def read_step_def by metis
  then show "distinct_keys h' ns" using assms(3) by (simp add: distinct_keys_def)
qed (rule read_heap_ok [OF assms(1,2)])

lemma written_keeps_nodes:
  assumes "heap_ok C h (set ns)"
  shows "heap_ok C (mark_written ns h) (set ns)"
    and "distinct_keys h ns \<Longrightarrow> distinct_keys (mark_written ns h) ns"
  using assms by (auto simp: heap_ok_def distinct_keys_def mark_written_state)

text \<open>No operation breaks the nodes, whatever the storage does.\<close>

lemma reads_heap_ok:
  assumes "process_reads S X buf h li s = Some out" and "heap_ok C h (set (li_list li))"
  shows "heap_ok C (o_heap out) (set (li_list (o_inner out)))"
proof -
  have "\<forall>i \<in> set (li_list li). \<exists>c. n_vtable (h i) = vtable_for_ty c"
    using assms(2) by (auto simp: heap_ok_def)
  from process_reads_heap_read [OF assms(1) this] show ?thesis using read_heap_ok assms(2) by metis
qed

lemma writes_heap_ok:
  assumes "process_writes S X buf h li s = Some out" and "heap_ok C h (set (li_list li))"
  shows "heap_ok C (o_heap out) (set (li_list (o_inner out)))"
  using process_writes_heap [OF assms(1)] written_keeps_nodes(1) [OF assms(2)] assms(2) by metis

context ndl_storage begin

text \<open>The components of the invariant, and what it says where a number is known or a collection due.\<close>

lemma sound_parts:
  assumes "sound_site X C healthy view kept b st"
  shows "healthy b (si_storage st)" and "distinct (map fst (contents X (elems_of (si_storage st))))"
    and "heap_ok C (si_heap st) (set (li_list (si_inner st)))"
    and "distinct_keys (si_heap st) (li_list (si_inner st))"
    and "0 < kept \<Longrightarrow> cache_ok kept (li_seq (si_inner st))"
    and "next_seq (li_seq (si_inner st)) \<noteq> None \<or> needs_gc (li_seq (si_inner st)) \<Longrightarrow>
      synced X kept (elems_of (si_storage st)) (li_seq (si_inner st))"
  using assms cache_ok_new by (auto simp: sound_site_def synced_def seq_new_def)

lemma sound_boot:
  assumes "boots C kept s st'" and "healthy b s" and "distinct (map fst (contents X (elems_of s)))"
  shows "sound_site X C healthy view kept b st'" and "durable_data X view st' = newest_data (contents X (elems_of s))"
  using assms by (simp_all add: boots_def sound_site_def durable_data_def fresh_list_def)

text \<open>A write that leaves a torn record, and a boot on what it left.\<close>

lemma sound_torn:
  assumes "sound_site X C healthy view kept b st" and "healthy b s" and "boots C kept s st'"
    and "elems_of s = elems_of (si_storage st) \<or> (\<exists>n t. next_seq (li_seq (si_inner st)) = Some n \<and>
      elems_of s = elems_of (si_storage st) @ t \<and> torn X n (site_data X C st) t)"
  shows "sound_site X C healthy view kept b st'"
    and "durable_data X view st' \<in> {site_data X C st, durable_data X view st}"
proof -
  have "distinct (map fst (contents X (elems_of s))) \<and>
      newest_data (contents X (elems_of s)) \<in> {site_data X C st, durable_data X view st}"
    using assms(4)
  proof (elim disjE exE conjE)
    fix n t
    assume nt: "next_seq (li_seq (si_inner st)) = Some n" "elems_of s = elems_of (si_storage st) @ t"
      "torn X n (site_data X C st) t"
    then have "synced X kept (elems_of (si_storage st)) (li_seq (si_inner st))"
      by (intro sound_parts(6) [OF assms(1)]) simp
    from torn_newest [OF this nt(1,3)] nt(2) show ?thesis by (auto simp: durable_data_def)
  qed (use sound_parts(2) [OF assms(1)] in \<open>simp add: durable_data_def\<close>)
  then show "sound_site X C healthy view kept b st'"
    "durable_data X view st' \<in> {site_data X C st, durable_data X view st}"
    using sound_boot [OF assms(3,2)] by simp_all
qed

lemma sound_process_reads:
  assumes "sound_site X C healthy view kept (length buf) st" and "0 < kept"
  obtains out where "process_reads S X buf (si_heap st) (si_inner st) (si_storage st) = Some out"
    "synced X kept (elems_of (si_storage st)) (li_seq (o_inner out))" "li_list (o_inner out) = li_list (si_inner st)"
    "healthy (length buf) (o_storage out)" "view (o_storage out) = view (si_storage st)"
    "heap_read (li_list (si_inner st)) (si_heap st) (o_heap out)"
    "is_ok (o_res out)"
    "\<And>i. o_heap out i = (if i \<in> set (li_list (si_inner st))
       then read_node X (durable_data X view st) (si_heap st i) else si_heap st i)"
proof -
  note parts = sound_parts [OF assms(1)]
  have "\<forall>i \<in> set (li_list (si_inner st)). \<exists>c. n_vtable (si_heap st i) = vtable_for_ty c"
    using parts(3) by (auto simp: heap_ok_def)
  note read = process_reads_heap_read(1) [OF _ this]
  show thesis
  proof (cases "li_seq (si_inner st) = seq_new kept")
    case True
    then have "fresh_list kept (si_heap st) (si_inner st)" using parts(4) by (simp add: fresh_list_def)
    from restart_reads [OF parts(1) assms(2) this parts(2)] that [unfolded durable_data_def] read show thesis by metis
  next
    case False
    then have "synced X kept (elems_of (si_storage st)) (li_seq (si_inner st))"
      using assms(1) by (simp add: sound_site_def)
    from reads_in_step [OF parts(1) this parts(4)] that [unfolded durable_data_def] read show thesis by metis
  qed
qed

lemma sound_read:
  assumes "sound_site X C healthy view kept (length buf) st" and "0 < kept" and "run_reads S X buf st = Some (r, st')"
  shows "sound_site X C healthy view kept (length buf) st'" and "durable_data X view st' = durable_data X view st"
proof -
  note parts = sound_parts [OF assms(1)]
  obtain out where out: "process_reads S X buf (si_heap st) (si_inner st) (si_storage st) = Some out"
    "synced X kept (elems_of (si_storage st)) (li_seq (o_inner out))" "li_list (o_inner out) = li_list (si_inner st)"
    "healthy (length buf) (o_storage out)" "view (o_storage out) = view (si_storage st)"
    "heap_read (li_list (si_inner st)) (si_heap st) (o_heap out)"
    by (rule sound_process_reads [OF assms(1,2)])
  from read_keeps_nodes [OF out(6) parts(3,4)]
  show "sound_site X C healthy view kept (length buf) st'" "durable_data X view st' = durable_data X view st"
    using assms(3) out parts(2) by (auto simp: run_reads_def sound_site_def durable_data_def)
qed

lemma sound_garbage:
  assumes "sound_site X C healthy view kept (length buf) st" and "run_garbage S X kept buf st = Some (r, st')"
  shows "sound_site X C healthy view kept (length buf) st' \<and> durable_data X view st' = durable_data X view st"
proof (cases "needs_gc (li_seq (si_inner st))")
  case False
  then have "st' = st" using assms(2) by (auto simp: run_garbage_def process_garbage_def gc_begin_def)
  then show ?thesis using assms(1) by simp
next
  case True
  note parts = sound_parts [OF assms(1)]
  note step = parts(6) [OF disjI2 [OF True]]
  obtain c li' s' where gc: "process_garbage S X kept buf (si_inner st) (si_storage st) = Some (Ok c, li', s')"
    "healthy (length buf) s'"
    "elems_of s' = layout X (collected (li_seq (si_inner st)) (contents X (elems_of (si_storage st))))"
    "li' = (si_inner st)\<lparr>li_seq := (scanned X kept (elems_of s'))\<lparr>needs_gc := False\<rparr>\<rparr>"
    "synced X kept (elems_of s') (li_seq li')"
    using process_garbage_ok [OF parts(1) step True] by metis
  have "newest_data (contents X (elems_of s')) = newest_data (contents X (elems_of (si_storage st)))"
    unfolding gc(3) contents_layout
    by (rule collected_newest(2) [OF parts(2)]) (use step in \<open>simp add: synced_def\<close>)
  moreover have "distinct (map fst (contents X (elems_of s')))" using gc(5) by (simp add: synced_def)
  ultimately show ?thesis
    using assms(2) gc parts(3,4) by (auto simp: run_garbage_def sound_site_def durable_data_def)
qed

lemma sound_write:
  assumes "externs_ok X" and "9 \<le> length buf" and "sound_site X C healthy view kept (length buf) st"
    and "run_writes S X buf st = Some (Ok c, st')"
  shows "sound_site X C healthy view kept (length buf) st'"
    and "durable_data X view st' =
      (if needs_writing (si_heap st) (si_inner st) = Ok True then site_data X C st else durable_data X view st)"
proof -
  note parts = sound_parts [OF assms(3)]
  obtain out where out: "process_writes S X buf (si_heap st) (si_inner st) (si_storage st) = Some out" "o_res out = Ok c"
    "st' = \<lparr>si_heap = o_heap out, si_inner = o_inner out, si_storage = o_storage out\<rparr>"
    using assms(4) by (auto simp: run_writes_def split: option.splits)
  have number: "next_seq (li_seq (si_inner st)) \<noteq> None"
    using out by (cases "next_seq (li_seq (si_inner st))") (auto simp: process_writes_guards(1))
  have "sound_site X C healthy view kept (length buf) st' \<and> durable_data X view st' =
      (if needs_writing (si_heap st) (si_inner st) = Ok True then site_data X C st else durable_data X view st)"
  proof (cases "needs_writing (si_heap st) (si_inner st) = Ok True")
    case True
    have "is_ok (o_res out)" using out(2) by simp
    from process_writes_success [OF assms(1) parts(3,1) assms(2) parts(6) True out(1) this] number
    have "synced X kept (elems_of (o_storage out)) (li_seq (o_inner out)) \<and>
      newest_data (contents X (elems_of (o_storage out))) = site_data X C st \<and>
      li_list (o_inner out) = li_list (si_inner st) \<and> o_heap out = mark_written (li_list (si_inner st)) (si_heap st) \<and>
      healthy (length buf) (o_storage out)"
      by metis
    then show ?thesis
      using True out(3) written_keeps_nodes [OF parts(3)] parts(4) by (auto simp: sound_site_def durable_data_def synced_def)
  next
    case False
    then have "st' = st"
      using number out by (cases "needs_gc (li_seq (si_inner st))"; cases "needs_writing (si_heap st) (si_inner st)")
        (auto simp: process_writes_guards)
    then show ?thesis using assms(3) False by simp
  qed
  then show "sound_site X C healthy view kept (length buf) st'"
    and "durable_data X view st' =
      (if needs_writing (si_heap st) (si_inner st) = Ok True then site_data X C st else durable_data X view st)"
    by simp_all
qed

lemma sound_failed_write:
  assumes "externs_ok X" and "9 \<le> length buf" and "0 < kept" and "sound_site X C healthy view kept (length buf) st"
    and "run_writes S X buf st = Some (Err e, st1)"
  shows "si_heap st1 = si_heap st" and "si_inner st1 = si_inner st" and "healthy (length buf) (si_storage st1)"
    and "elems_of (si_storage st1) = elems_of (si_storage st) \<or> (\<exists>n t. next_seq (li_seq (si_inner st)) = Some n \<and>
      elems_of (si_storage st1) = elems_of (si_storage st) @ t \<and> torn X n (site_data X C st) t)"
proof -
  note parts = sound_parts [OF assms(4)]
  obtain out where out: "process_writes S X buf (si_heap st) (si_inner st) (si_storage st) = Some out" "o_res out = Err e"
    "st1 = \<lparr>si_heap = o_heap out, si_inner = o_inner out, si_storage = o_storage out\<rparr>"
    using assms(5) by (auto simp: run_writes_def split: option.splits)
  note outcome = process_writes_outcome [OF assms(1) parts(3,1) parts(5) [OF assms(3)] out(1) assms(2)]
  show "si_heap st1 = si_heap st" "si_inner st1 = si_inner st" "healthy (length buf) (si_storage st1)"
    "elems_of (si_storage st1) = elems_of (si_storage st) \<or> (\<exists>n t. next_seq (li_seq (si_inner st)) = Some n \<and>
      elems_of (si_storage st1) = elems_of (si_storage st) @ t \<and> torn X n (site_data X C st) t)"
    using outcome out(2,3) by simp_all
qed

lemma device_step_sound:
  assumes "externs_ok X" and "9 \<le> b" and "0 < kept"
    and sound: "sound_site X C healthy view kept b st" and "device_step S X C view kept b st l st'"
  shows "sound_site X C healthy view kept b st' \<and>
    durable_data X view st' \<in> after_effect l {durable_data X view st}"
proof -
  note parts = sound_parts [OF sound]
  from assms(5) show ?thesis
  proof cases
    case (ds_nodes h ns)
    then show ?thesis using sound by (simp add: sound_site_def durable_data_def)
  next
    case (ds_read buf r)
    then show ?thesis using sound_read [of X C kept buf st r st'] sound assms(3) by simp
  next
    case (ds_garbage buf r)
    then show ?thesis using sound_garbage [of X C kept buf st r st'] sound by simp
  next
    case (ds_write buf c)
    then show ?thesis using sound_write [of X buf C kept st c st'] assms(1,2) sound by simp
  next
    case (ds_write_clean buf c)
    then show ?thesis using sound_write [of X buf C kept st c st'] assms(1,2) sound by simp
  next
    case (ds_write_refused buf e)
    then show ?thesis
      using sound_failed_write [of X buf kept C st e st'] assms(1-3) sound
      by (simp add: sound_site_def durable_data_def)
  next
    case (ds_write_failed buf e st1)
    then have "healthy b (si_storage st1)" "elems_of (si_storage st1) = elems_of (si_storage st) \<or>
      (\<exists>n t. next_seq (li_seq (si_inner st)) = Some n \<and>
        elems_of (si_storage st1) = elems_of (si_storage st) @ t \<and> torn X n (site_data X C st) t)"
      using sound_failed_write [of X buf kept C st e st1] assms(1-3) sound by simp_all
    from sound_torn [OF sound this(1) ds_write_failed(4) this(2)] ds_write_failed(1) show ?thesis by simp
  next
    case (ds_write_cut buf n k s)
    then have "n \<noteq> 0" using synced_ahead(3) [OF parts(6)] by blast
    from write_cut_torn [OF assms(1) parts(3,1) this _ _ assms(2)] ds_write_cut
    have "healthy b s" "elems_of s = elems_of (si_storage st) \<or> (\<exists>n t. next_seq (li_seq (si_inner st)) = Some n \<and>
        elems_of s = elems_of (si_storage st) @ t \<and> torn X n (site_data X C st) t)" by auto
    from sound_torn [OF sound this(1) ds_write_cut(7) this(2)] ds_write_cut(1) show ?thesis by simp
  next
    case (ds_garbage_cut cur li1 it k)
    then have due: "needs_gc (li_seq (si_inner st))" "cur = li_seq (si_inner st)"
      by (auto simp: gc_begin_def split: if_splits)
    note cut = gc_cut_newest [OF parts(1) parts(6) [OF disjI2 [OF due(1)]] ds_garbage_cut(3) refl, of k]
    have "boots C kept (st_release S (gc_cut S b (li_seq (si_inner st)) k it 0)) st'" using ds_garbage_cut due(2) by simp
    from sound_boot [OF this cut(1,2)] cut(3) ds_garbage_cut show ?thesis by (simp add: durable_data_def)
  next
    case ds_restart
    from sound_boot [OF ds_restart(2) parts(1,2)] ds_restart show ?thesis by (simp add: durable_data_def)
  qed
qed

lemma device_run_sound:
  assumes "externs_ok X" and "9 \<le> b" and "0 < kept" and "device_run S X C view kept b st ls st'"
    and "sound_site X C healthy view kept b st"
  shows "sound_site X C healthy view kept b st'"
    and "durable_data X view st \<in> D \<Longrightarrow> durable_data X view st' \<in> fold after_effect ls D"
proof -
  have "sound_site X C healthy view kept b st' \<and>
      (\<forall>D. durable_data X view st \<in> D \<longrightarrow> durable_data X view st' \<in> fold after_effect ls D)"
    using assms(4,5)
  proof (induction rule: device_run.induct)
    case (dr_step st l st1 ls st')
    note step = device_step_sound [OF assms(1-3) dr_step.prems dr_step.hyps(1)]
    have "durable_data X view st1 \<in> after_effect l D" if "durable_data X view st \<in> D" for D
      using step that by (cases l) auto
    then show ?case using dr_step.IH step by auto
  qed simp
  then show "sound_site X C healthy view kept b st'"
    and "durable_data X view st \<in> D \<Longrightarrow> durable_data X view st' \<in> fold after_effect ls D" by simp_all
qed

end

section \<open>What survives a history\<close>

text \<open>
  The data may be durable after these effects: those of the start, or of a write that completed or may
  have, if no write completed later.
\<close>

definition may_be_durable :: "ser_data list \<Rightarrow> effect list \<Rightarrow> ser_data list \<Rightarrow> bool" where
  "may_be_durable d ls ds \<longleftrightarrow>
     (ds = d \<and> (\<forall>ds'. Durable ds' \<notin> set ls)) \<or>
     (\<exists>ls1 l ls2. ls = ls1 @ l # ls2 \<and> l \<in> {Durable ds, Unsure ds} \<and> (\<forall>ds'. Durable ds' \<notin> set ls2))"

lemma may_be_durable_Cons: "l \<in> {Durable ds, Unsure ds} \<Longrightarrow> \<forall>ds'. Durable ds' \<notin> set ls \<Longrightarrow> may_be_durable d (l # ls) ds"
  unfolding may_be_durable_def by (metis append_Nil)

lemma fold_after_effect:
  "ds \<in> fold after_effect ls D \<Longrightarrow> D \<noteq> {} \<Longrightarrow> (\<exists>d \<in> D. may_be_durable d ls ds)"
proof (induction ls arbitrary: D)
  case Nil
  then show ?case by (auto simp: may_be_durable_def)
next
  case (Cons l ls)
  from Cons.prems(1) have "ds \<in> fold after_effect ls (after_effect l D)" by simp
  moreover have "after_effect l D \<noteq> {}" using Cons.prems(2) by (cases l) simp_all
  ultimately obtain d where d: "d \<in> after_effect l D" "may_be_durable d ls ds" using Cons.IH by blast
  obtain d0 where d0: "d0 \<in> D" using Cons.prems(2) by blast
  from d(2) consider (start) "ds = d" "\<forall>ds'. Durable ds' \<notin> set ls"
    | (later) ls1 l' ls2 where "ls = ls1 @ l' # ls2" "l' \<in> {Durable ds, Unsure ds}" "\<forall>ds'. Durable ds' \<notin> set ls2"
    unfolding may_be_durable_def by blast
  then show ?case
  proof cases
    case start
    show ?thesis
    proof (cases "l \<in> {Durable ds, Unsure ds}")
      case True
      then show ?thesis using may_be_durable_Cons [OF True start(2)] d0 by blast
    next
      case False
      then have "ds \<in> D" "\<forall>ds'. l \<noteq> Durable ds'" using d(1) start(1) by (cases l; auto)+
      then show ?thesis using start(2) by (auto simp: may_be_durable_def)
    qed
  next
    case later
    then have "may_be_durable d0 (l # ls) ds"
      unfolding may_be_durable_def by (metis append_Cons)
    with d0 show ?thesis by blast
  qed
qed

text \<open>
  C3: Histories. Start a device with sound storage that can be read, and let it read, write, collect
  garbage, attach, change and detach nodes, lose its power in the middle of a write or of a collection and
  restart, any number of times in any order, and let it restart after each write that fails and leaves
  something in storage. A list started on what is then in storage reads without error, and
  gives its nodes the data of one write, all of them from the same one: the last that completed, or one
  after it that failed or was cut off; or what was there at the start, if none completed.
\<close>

theorem history_keeps_durable_data:
  assumes "ndl_storage S healthy view it_ok passed todo room" and "externs_ok X" and "9 \<le> b" and "0 < kept"
    and "sound_site X C healthy view kept b st" and "device_run S X C view kept b st ls st'"
    and "length buf = b" and "fresh_list kept h li"
  shows "\<exists>ds out. may_be_durable (durable_data X view st) ls ds \<and>
    process_reads S X buf h li (si_storage st') = Some out \<and> is_ok (o_res out) \<and>
    (\<forall>i \<in> set (li_list li). o_heap out i = read_node X ds (h i))"
proof -
  note run = ndl_storage.device_run_sound [OF assms(1-4,6,5)]
  have "durable_data X view st' \<in> fold after_effect ls {durable_data X view st}"
    by (rule run(2)) simp
  from fold_after_effect [OF this] have "may_be_durable (durable_data X view st) ls (durable_data X view st')"
    by simp
  moreover have "healthy (length buf) (si_storage st')"
    "distinct (map fst (contents X (map fst (view (si_storage st')))))"
    using run(1) assms(7) by (simp_all add: sound_site_def)
  then obtain out where "process_reads S X buf h li (si_storage st') = Some out" "is_ok (o_res out)"
    "\<And>i. o_heap out i = (if i \<in> set (li_list li) then read_node X (durable_data X view st') (h i) else h i)"
    using ndl_reader.restart_reads [OF ndl_storage.axioms(1) [OF assms(1)] _ assms(4,8)]
    unfolding durable_data_def by metis
  ultimately show ?thesis by auto
qed

lemma sample_sound:
  "sound_site cbor_externs (\<lambda>_. cfg_codec) test_healthy test_view 3 (length sample_buf) sample_site"
  using sample_synced
  by (simp add: sound_site_def sample_site_def sample_healthy sample_heap_ok sample_writing sample_keys synced_def)

text \<open>The sample device loses its power in a write, right behind the start element, and is started again.\<close>

theorem history_keeps_durable_data_witness:
  "\<exists>s ds out. write_cut test_ops cbor_externs sample_heap sample_nodes sample_buf test_default 1 0 = Some s \<and>
     ds \<in> {[], list_data cbor_externs (\<lambda>_. cfg_codec) sample_heap sample_nodes} \<and>
     process_reads test_ops cbor_externs sample_buf sample_fresh_heap sample_fresh_list s = Some out \<and>
     is_ok (o_res out) \<and> (\<forall>i \<in> set sample_nodes. o_heap out i = read_node cbor_externs ds (sample_fresh_heap i))"
proof -
  let ?C = "\<lambda>_ :: nid. cfg_codec"
  obtain n s where "test_push test_default (Start 1) = PushOk n s"
    using test_storage.push_room [of "length sample_buf" test_default "Start 1"]
    by (auto simp: sample_healthy sample_room sample_writing TEST_MAX_ELEM_SIZE_def)
  then have cut: "write_cut test_ops cbor_externs sample_heap sample_nodes sample_buf test_default 1 0 = Some s"
    by (simp add: write_cut_def)
  let ?st = "\<lparr>si_heap = sample_fresh_heap, si_inner = sample_fresh_list, si_storage = s\<rparr>"
  let ?ds = "site_data cbor_externs ?C sample_site"
  have boots: "boots ?C 3 s ?st"
    by (simp add: boots_def sample_fresh heap_ok_def sample_fresh_heap_def node_new_def)
  have "device_step test_ops cbor_externs ?C test_view 3 (length sample_buf) sample_site (Unsure ?ds) ?st"
    by (rule ds_write_cut [where buf = sample_buf and n = 1 and k = 0, OF _ _ _ _ _ boots])
      (simp_all add: sample_site_def sample_writing cut)
  then have run: "device_run test_ops cbor_externs ?C test_view 3 (length sample_buf) sample_site [Unsure ?ds] ?st"
    by (rule dr_step [OF _ dr_nil])
  have "9 \<le> length sample_buf" by (simp add: sample_writing TEST_MAX_ELEM_SIZE_def)
  from history_keeps_durable_data [OF test_storage.ndl_storage_axioms cbor_externs_ok this _ sample_sound run refl sample_fresh]
  obtain ds out where out: "may_be_durable (durable_data cbor_externs test_view sample_site) [Unsure ?ds] ds"
    "process_reads test_ops cbor_externs sample_buf sample_fresh_heap sample_fresh_list s = Some out"
    "is_ok (o_res out)" "\<forall>i \<in> set sample_nodes. o_heap out i = read_node cbor_externs ds (sample_fresh_heap i)"
    by (auto simp: sample_fresh_list_def)
  have "durable_data cbor_externs test_view sample_site = []"
    by (simp add: durable_data_def sample_site_def sample_healthy newest_data_def max_seq_def)
  then have "ds \<in> {[], ?ds}"
    using out(1) by (auto simp: may_be_durable_def Cons_eq_append_conv)
  then show ?thesis
    using cut out(2-4) by (auto simp: sample_site_def sample_writing)
qed

end
