(* ===== verification/Delivery.thy ===== *)
theory Delivery
  imports Worker_Properties Histories
begin

text \<open>
  From a handle to the flash and back: a value written through a handle, the signal it gives, the pause
  of the worker, its write arm, and a restart that reads the value again.
\<close>

section \<open>The worker when nothing but a write is asked for\<close>

text \<open>No read is requested and no collection is about to start.\<close>

definition quiet :: "worker \<Rightarrow> bool" where
  "quiet w \<longleftrightarrow> wk_read w = Waiting \<and> \<not> wk_read_wake w \<and>
     \<not> fst (poll_gc (wk_now w) (wk_needs_gc w) (wk_gc w))"

text \<open>A signal, a poll that takes it, the pause, and a poll that finds it over.\<close>

definition quiet_write :: "event list" where
  "quiet_write = [SignalWrite, Poll, Tick WRITE_DEBOUNCE, Poll]"

lemma worker_poll_takes_signal:
  assumes "quiet w" and "wk_write_wake w"
  obtains sig p where "worker_poll w =
    (None, w\<lparr>wk_read_wake := False, wk_write := Debouncing (wk_now w + WRITE_DEBOUNCE), wk_write_wake := False,
             wk_gc := p, wk_needs_gc := sig\<rparr>)"
proof -
  obtain ready p sig where gc: "poll_gc (wk_now w) (wk_needs_gc w) (wk_gc w) = (ready, p, sig)"
    by (cases "poll_gc (wk_now w) (wk_needs_gc w) (wk_gc w)")
  have "\<not> ready" using assms(1) gc by (simp add: quiet_def)
  then show thesis
    using assms gc by (intro that [of sig p]) (cases "wk_write w"; simp add: worker_poll_def quiet_def Let_def)
qed

lemma quiet_write_runs:
  assumes "quiet w" and "\<And>w. worker_act S X kept buf DoWrites (w, st) = Some (w, st')"
  shows "\<exists>w'. worker_run S X kept buf quiet_write (w, st) = Some (w', st')"
proof -
  let ?w = "w\<lparr>wk_write_wake := True\<rparr>"
  have "quiet ?w" "wk_write_wake ?w" using assms(1) by (simp_all add: quiet_def)
  then obtain sig p where poll: "worker_poll ?w =
    (None, ?w\<lparr>wk_read_wake := False, wk_write := Debouncing (wk_now w + WRITE_DEBOUNCE), wk_write_wake := False,
              wk_gc := p, wk_needs_gc := sig\<rparr>)"
    by (rule worker_poll_takes_signal) simp
  let ?w1 = "w\<lparr>wk_read_wake := False, wk_write := Debouncing (wk_now w + WRITE_DEBOUNCE), wk_write_wake := False,
    wk_gc := p, wk_needs_gc := sig, wk_now := wk_now w + WRITE_DEBOUNCE\<rparr>"
  have "\<exists>w2. worker_poll ?w1 = (Some DoWrites, w2)"
    using assms(1) by (simp add: worker_poll_def quiet_def Let_def)
  then show ?thesis
    using poll assms(2) by (auto simp: quiet_write_def worker_event_def)
qed

section \<open>From a handle to a restart\<close>

text \<open>
  C2: A value written through a handle becomes durable. Once \<open>write\<close> has stored \<open>v\<close> in the node
  of a handle, its signal reaches the worker, which, if nothing else happens, writes the list ten
  seconds later, provided that the list can be written (\<open>flushable\<close>: the cache in step, the next number
  known and not in storage, unless a collection is due, the values fit the buffer) and storage has room
  for the record; and after a restart a node with the same key and type reads \<open>v\<close>.
\<close>

theorem handle_write_becomes_durable:
  assumes "ndl_storage S healthy view it_ok passed todo room" and "externs_ok X"
    and "handle_write v i h = Some (Ok (), h', wk)" and "i \<in> set (li_list li)" and "distinct_keys h (li_list li)"
    and "roundtrips (C i) v"
    and "flushable X C healthy view kept (length buf) n \<lparr>si_heap = h', si_inner = li, si_storage = s\<rparr>"
    and "\<And>r li1 s1. process_garbage S X kept buf li s = Some (r, li1, s1) \<Longrightarrow>
      length (list_data X C h' (li_list li)) + 2 \<le> room s1"
    and "quiet w" and "fresh_list kept h2 li2" and "length buf2 = length buf"
    and "j \<in> set (li_list li2)" "n_key (h2 j) = n_key (h i)" "n_state (h2 j) = Initial" "n_vtable (h2 j) = vtable_for_ty (C i)"
  shows "wk = [WakeNeedsWrite] \<and>
    (\<exists>w' st' out. worker_run S X kept buf quiet_write (w, \<lparr>si_heap = h', si_inner = li, si_storage = s\<rparr>) = Some (w', st') \<and>
      n_state (si_heap st' i) = ValidNoWriteNeeded \<and>
      process_reads S X buf2 h2 li2 (si_storage st') = Some out \<and> is_ok (o_res out) \<and>
      n_t (o_heap out j) = Some v \<and> n_state (o_heap out j) = ValidNoWriteNeeded)"
proof -
  let ?st = "\<lparr>si_heap = h', si_inner = li, si_storage = s\<rparr>" and ?ds = "list_data X C h' (li_list li)"
  have wrote: "h' = h(i := (h i)\<lparr>n_t := Some v, n_state := NeedsWrite\<rparr>)" "wk = [WakeNeedsWrite]"
    using assms(3) by (auto simp: handle_write_def Let_def split: state.splits option.splits)
  obtain st' where act: "\<And>w. worker_act S X kept buf DoWrites (w, ?st) = Some (w, st')" "flushed X C view ?st st'"
    "synced X kept (map fst (view (si_storage st'))) (li_seq (si_inner st'))" "\<not> needs_gc (li_seq (si_inner st'))"
    "healthy (length buf) (si_storage st')"
    by (rule write_arm_settles [OF assms(1,2,7)]) (use assms(8) in auto)
  obtain w' where run: "worker_run S X kept buf quiet_write (w, ?st) = Some (w', st')"
    using quiet_write_runs [OF assms(9) act(1)] by blast
  have newest: "newest_data (contents X (map fst (view (si_storage st')))) = ?ds"
    and clean: "n_state (si_heap st' i) = ValidNoWriteNeeded"
    using act(2) assms(4) wrote(1) by (simp_all add: flushed_def mark_written_state)
  have pos: "0 < kept" and distinct: "distinct (map fst (contents X (map fst (view (si_storage st')))))"
    using act(3) by (simp_all add: synced_def cache_ok_def seq_wf_def)
  have "healthy (length buf2) (si_storage st')" using act(5) assms(11) by simp
  from ndl_reader.restart_reads [OF ndl_storage.axioms(1) [OF assms(1)] this pos assms(10) distinct]
  obtain out where out: "process_reads S X buf2 h2 li2 (si_storage st') = Some out" "is_ok (o_res out)"
    "\<And>j. o_heap out j = (if j \<in> set (li_list li2) then read_node X ?ds (h2 j) else h2 j)"
    unfolding newest by metis
  have "(\<lambda>k. n_key (h' k)) = (\<lambda>k. n_key (h k))" by (auto simp: wrote(1))
  then have "distinct_keys h' (li_list li)" using assms(5) by (simp add: distinct_keys_def)
  then have "read_node X ?ds (h2 j) = (h2 j)\<lparr>n_t := Some v, n_state := ValidNoWriteNeeded\<rparr>"
    by (rule read_written [OF assms(2) _ assms(4)]) (use assms(6,13-15) wrote(1) in simp_all)
  with out(3) assms(12) have "n_t (o_heap out j) = Some v" "n_state (o_heap out j) = ValidNoWriteNeeded" by simp_all
  with wrote(2) run clean out(1,2) show ?thesis by blast
qed

text \<open>The handle of the first sample node writes 77.\<close>

theorem handle_write_becomes_durable_witness:
  "\<exists>h' w' st' out. handle_write 77 0 sample_heap = Some (Ok (), h', [WakeNeedsWrite]) \<and>
     worker_run test_ops cbor_externs 3 sample_buf quiet_write
       (worker_new, \<lparr>si_heap = h', si_inner = sample_list, si_storage = test_default\<rparr>) = Some (w', st') \<and>
     process_reads test_ops cbor_externs sample_buf sample_fresh_heap sample_fresh_list (si_storage st') = Some out \<and>
     n_t (o_heap out 0) = Some 77"
proof -
  let ?C = "\<lambda>_ :: nid. cfg_codec" and ?h = "sample_heap(0 := (sample_heap 0)\<lparr>n_t := Some 77, n_state := NeedsWrite\<rparr>)"
  have stored: "handle_write 77 0 sample_heap = Some (Ok (), ?h, [WakeNeedsWrite])"
    by (rule handle_write_ok) (simp_all add: sample_heap_def)
  have "fits cbor_externs ?C ?h sample_nodes TEST_MAX_ELEM_SIZE"
    by (simp add: sample_nodes_def fits_def sample_heap_def node_bytes_def cbor_externs_def cbor_text_def sample_key_def
        cfg_codec_def cfg_encode_def TEST_MAX_ELEM_SIZE_def)
  moreover have "heap_ok ?C ?h (set sample_nodes)" by (simp add: heap_ok_def sample_heap_def)
  moreover have "needs_writing ?h sample_list = Ok True"
    by (simp add: needs_writing_def sample_list_def sample_nodes_def sample_heap_def seq_new_def)
  ultimately have flushable: "flushable cbor_externs ?C test_healthy test_view 3 (length sample_buf) 1
      \<lparr>si_heap = ?h, si_inner = sample_list, si_storage = test_default\<rparr>"
    by (simp add: flushable_def sample_writing sample_healthy sample_synced) (simp add: TEST_MAX_ELEM_SIZE_def)
  have room: "length (list_data cbor_externs ?C ?h (li_list sample_list)) + 2 \<le> test_room s1"
    if "process_garbage test_ops cbor_externs 3 sample_buf sample_list test_default = Some (r, li1, s1)" for r li1 s1
    using that by (auto simp: process_garbage_def gc_begin_def sample_writing sample_room sample_nodes_def)
  have quiet: "quiet worker_new" by (simp add: quiet_def worker_new_def)
  have node: "0 \<in> set (li_list sample_list)" "0 \<in> set (li_list sample_fresh_list)"
    "n_key (sample_fresh_heap 0) = n_key (sample_heap 0)" "n_state (sample_fresh_heap 0) = Initial"
    "n_vtable (sample_fresh_heap 0) = vtable_for_ty cfg_codec"
    by (simp_all add: sample_writing sample_fresh_list_def sample_nodes_def sample_fresh_heap_def sample_heap_def node_new_def)
  have keys: "distinct_keys sample_heap (li_list sample_list)" by (simp add: sample_writing sample_keys)
  have "[WakeNeedsWrite] = [WakeNeedsWrite] \<and>
    (\<exists>w' st' out. worker_run test_ops cbor_externs 3 sample_buf quiet_write
       (worker_new, \<lparr>si_heap = ?h, si_inner = sample_list, si_storage = test_default\<rparr>) = Some (w', st') \<and>
      n_state (si_heap st' 0) = ValidNoWriteNeeded \<and>
      process_reads test_ops cbor_externs sample_buf sample_fresh_heap sample_fresh_list (si_storage st') = Some out \<and>
      is_ok (o_res out) \<and> n_t (o_heap out 0) = Some 77 \<and> n_state (o_heap out 0) = ValidNoWriteNeeded)"
    by (rule handle_write_becomes_durable [OF test_storage.ndl_storage_axioms cbor_externs_ok stored node(1) keys
          cfg_roundtrips flushable room quiet sample_fresh refl node(2-5)])
  with stored show ?thesis by blast
qed

section \<open>From an attach to its handle\<close>








end
