(* ===== verification/Worker_Sessions.thy ===== *)
theory Worker_Sessions
  imports Histories Worker_Properties
begin

text \<open>
  The default worker on a device: its signals, polls and stops, with the nodes changing in between and
  the device restarting, simulated by the histories of \<open>device_step\<close>.
\<close>

section \<open>Sessions of the worker\<close>

text \<open>
  The states in which an arm of the worker, an event, several events, and the shutdown call
  \<open>process_writes\<close>, in order.
\<close>

definition arm_writes ::
  "('s, 'it, 'item, 'e) storage_ops \<Rightarrow> externs \<Rightarrow> nat \<Rightarrow> u8 list \<Rightarrow> action \<Rightarrow> ('v, 's) site \<Rightarrow> ('v, 's) site list" where
  "arm_writes S X kept buf a st =
     (case a of
        DoReads \<Rightarrow> []
      | DoWrites \<Rightarrow> (case run_garbage S X kept buf st of None \<Rightarrow> [] | Some (_, st1) \<Rightarrow> [st1])
      | DoGc \<Rightarrow> [])"

definition event_writes ::
  "('s, 'it, 'item, 'e) storage_ops \<Rightarrow> externs \<Rightarrow> nat \<Rightarrow> u8 list \<Rightarrow> event \<Rightarrow> worker \<times> ('v, 's) site \<Rightarrow> ('v, 's) site list" where
  "event_writes S X kept buf ev = (\<lambda>(w, st).
     if ev = Poll then (case fst (worker_poll w) of None \<Rightarrow> [] | Some a \<Rightarrow> arm_writes S X kept buf a st) else [])"

fun events_writes ::
  "('s, 'it, 'item, 'e) storage_ops \<Rightarrow> externs \<Rightarrow> nat \<Rightarrow> u8 list \<Rightarrow> event list \<Rightarrow> worker \<times> ('v, 's) site \<Rightarrow>
     ('v, 's) site list" where
  "events_writes S X kept buf [] ws = []"
| "events_writes S X kept buf (ev # evs) ws =
     event_writes S X kept buf ev ws @
     (case worker_event S X kept buf ev ws of None \<Rightarrow> [] | Some ws' \<Rightarrow> events_writes S X kept buf evs ws')"

definition stop_writes ::
  "('s, 'it, 'item, 'e) storage_ops \<Rightarrow> externs \<Rightarrow> nat \<Rightarrow> u8 list \<Rightarrow> ('v, 's) site \<Rightarrow> ('v, 's) site list" where
  "stop_writes S X kept buf st =
     st # (case run_writes S X buf st of
             Some (Err e, st1) \<Rightarrow>
               if e = AppError NeedsGarbageCollect then
                 (case run_garbage S X kept buf st1 of None \<Rightarrow> [] | Some (_, st2) \<Rightarrow> [st2])
               else []
           | _ \<Rightarrow> [])"

text \<open>
  What happens while a device runs \<open>default_worker_task\<close>: time passes, signals come, the worker is
  polled and runs the arm that is due (\<open>up_event\<close>); nodes are attached, changed and detached
  (\<open>up_nodes\<close>). The nodes put on the list all satisfy \<open>ok\<close>. The list \<open>cs\<close> has the states in which the worker
  calls \<open>process_writes\<close>.
\<close>

inductive worker_uptime ::
  "('s, 'it, 'item, 'e) storage_ops \<Rightarrow> externs \<Rightarrow> (nid \<Rightarrow> 'v codec) \<Rightarrow> ('v heap \<Rightarrow> nid list \<Rightarrow> bool) \<Rightarrow> nat \<Rightarrow> u8 list \<Rightarrow>
     worker \<times> ('v, 's) site \<Rightarrow> ('v, 's) site list \<Rightarrow> worker \<times> ('v, 's) site \<Rightarrow> bool"
  for S X C ok kept buf where
  up_done: "worker_uptime S X C ok kept buf ws [] ws"
| up_event: "worker_event S X kept buf ev ws = Some ws1 \<Longrightarrow> worker_uptime S X C ok kept buf ws1 cs ws' \<Longrightarrow>
    worker_uptime S X C ok kept buf ws (event_writes S X kept buf ev ws @ cs) ws'"
| up_nodes: "heap_ok C h (set ns) \<Longrightarrow> distinct_keys h ns \<Longrightarrow> ok h ns \<Longrightarrow>
    worker_uptime S X C ok kept buf (w, st\<lparr>si_heap := h, si_inner := (si_inner st)\<lparr>li_list := ns\<rparr>\<rparr>) cs ws' \<Longrightarrow>
    worker_uptime S X C ok kept buf (w, st) cs ws'"

text \<open>
  A session is such times in a row. In between the worker is stopped, and the device started again later
  (\<open>ws_stop\<close>), or the power fails between two polls (\<open>ws_power\<close>).
\<close>

inductive worker_session ::
  "('s, 'it, 'item, 'e) storage_ops \<Rightarrow> externs \<Rightarrow> (nid \<Rightarrow> 'v codec) \<Rightarrow> ('v heap \<Rightarrow> nid list \<Rightarrow> bool) \<Rightarrow> nat \<Rightarrow> u8 list \<Rightarrow>
     worker \<times> ('v, 's) site \<Rightarrow> ('v, 's) site list \<Rightarrow> worker \<times> ('v, 's) site \<Rightarrow> bool"
  for S X C ok kept buf where
  ws_end: "worker_uptime S X C ok kept buf ws cs ws' \<Longrightarrow> worker_session S X C ok kept buf ws cs ws'"
| ws_stop: "worker_uptime S X C ok kept buf ws cs (w, st) \<Longrightarrow> worker_stop S X kept buf st = Some st1 \<Longrightarrow>
    boots C kept (si_storage st1) st2 \<Longrightarrow> ok (si_heap st2) (li_list (si_inner st2)) \<Longrightarrow>
    worker_session S X C ok kept buf (worker_new, st2) cs' ws' \<Longrightarrow>
    worker_session S X C ok kept buf ws (cs @ stop_writes S X kept buf st @ cs') ws'"
| ws_power: "worker_uptime S X C ok kept buf ws cs (w, st) \<Longrightarrow>
    boots C kept (si_storage st) st1 \<Longrightarrow> ok (si_heap st1) (li_list (si_inner st1)) \<Longrightarrow>
    worker_session S X C ok kept buf (worker_new, st1) cs' ws' \<Longrightarrow>
    worker_session S X C ok kept buf ws (cs @ cs') ws'"

lemma uptime_run:
  "worker_run S X kept buf evs ws = Some ws' \<Longrightarrow>
     worker_uptime S X C ok kept buf ws (events_writes S X kept buf evs ws) ws'"
  by (induction evs arbitrary: ws) (auto split: option.splits intro: up_done up_event)

lemmas session_run = ws_end [OF uptime_run]

section \<open>What a session composes\<close>

text \<open>
  A relation between the state before, the calls of \<open>process_writes\<close>, and the state after, that composes
  and holds for each operation the worker calls, holds for every arm of the worker, every event and its
  end; if it also holds for changes of the nodes, it holds as long as the worker runs, and if it holds
  for restarts, for whole sessions.
\<close>

locale worker_relation =
  fixes S :: "('s, 'it, 'item, 'e) storage_ops" and X :: externs and kept :: nat and buf :: "u8 list"
    and rel :: "('v, 's) site \<Rightarrow> ('v, 's) site list \<Rightarrow> ('v, 's) site \<Rightarrow> bool"
  assumes rel_refl: "rel st [] st"
    and rel_trans: "rel st cs st1 \<Longrightarrow> rel st1 cs' st' \<Longrightarrow> rel st (cs @ cs') st'"
    and rel_reads: "run_reads S X buf st = Some (r, st') \<Longrightarrow> rel st [] st'"
    and rel_writes: "run_writes S X buf st = Some (rw, st') \<Longrightarrow> rel st [st] st'"
    and rel_garbage: "run_garbage S X kept buf st = Some (rg, st') \<Longrightarrow> rel st [] st'"
begin

lemma rel_quiet: "rel st [] st1 \<Longrightarrow> rel st1 cs st' \<Longrightarrow> rel st cs st'" "rel st cs st1 \<Longrightarrow> rel st1 [] st' \<Longrightarrow> rel st cs st'"
  using rel_trans [of st "[]" st1 cs st'] rel_trans [of st cs st1 "[]" st'] by simp_all

lemma rel_act:
  assumes "worker_act S X kept buf a (w, st) = Some (w', st')"
  shows "rel st (arm_writes S X kept buf a st) st'"
proof (cases a)
  case DoReads
  with assms show ?thesis by (auto simp: worker_act_def arm_writes_def split: option.splits intro: rel_reads)
next
  case DoWrites
  then obtain r1 st1 r2 st2 r3 where st: "run_garbage S X kept buf st = Some (r1, st1)"
      "run_writes S X buf st1 = Some (r2, st2)" "run_garbage S X kept buf st2 = Some (r3, st')"
    using assms by (auto simp: worker_act_def split: option.splits)
  then have "rel st [st1] st'"
    using rel_quiet(1) [OF rel_garbage rel_quiet(2) [OF rel_writes rel_garbage]] by metis
  with DoWrites st(1) show ?thesis by (simp add: arm_writes_def)
next
  case DoGc
  with assms show ?thesis
    by (auto simp: worker_act_def arm_writes_def split: option.splits result.splits intro: rel_garbage)
qed

lemma rel_event:
  "worker_event S X kept buf ev (w, st) = Some (w', st') \<Longrightarrow> rel st (event_writes S X kept buf ev (w, st)) st'"
  by (cases ev) (auto simp: worker_event_def event_writes_def split: prod.splits option.splits intro: rel_refl rel_act)

lemma rel_stop:
  assumes "worker_stop S X kept buf st = Some st'"
  shows "rel st (stop_writes S X kept buf st) st'"
proof -
  obtain r1 st1 where w: "run_writes S X buf st = Some (r1, st1)"
    using assms by (auto simp: worker_stop_def split: option.splits)
  consider "st' = st1" "stop_writes S X kept buf st = [st]"
    | r2 st2 r3 where "run_garbage S X kept buf st1 = Some (r2, st2)" "run_writes S X buf st2 = Some (r3, st')"
        "stop_writes S X kept buf st = [st] @ [st2]"
    using assms w by (auto simp: worker_stop_def stop_writes_def split: option.splits result.splits if_splits)
  then show ?thesis
  proof cases
    case 1
    with rel_writes [OF w] show ?thesis by simp
  next
    case 2
    show ?thesis
      unfolding 2(3) by (rule rel_trans [OF rel_writes [OF w] rel_quiet(1) [OF rel_garbage [OF 2(1)] rel_writes [OF 2(2)]]])
  qed
qed

end

locale uptime_relation = worker_relation S X kept buf rel
  for S :: "('s, 'it, 'item, 'e) storage_ops" and X :: externs and kept :: nat and buf :: "u8 list"
    and rel :: "('v, 's) site \<Rightarrow> ('v, 's) site list \<Rightarrow> ('v, 's) site \<Rightarrow> bool" +
  fixes C :: "nid \<Rightarrow> 'v codec" and ok :: "'v heap \<Rightarrow> nid list \<Rightarrow> bool"
  assumes rel_nodes: "heap_ok C h (set ns) \<Longrightarrow> distinct_keys h ns \<Longrightarrow> ok h ns \<Longrightarrow>
      rel st [] (st\<lparr>si_heap := h, si_inner := (si_inner st)\<lparr>li_list := ns\<rparr>\<rparr>)"
begin

lemma rel_uptime: "worker_uptime S X C ok kept buf ws cs ws' \<Longrightarrow> rel (snd ws) cs (snd ws')"
proof (induction rule: worker_uptime.induct)
  case (up_done ws)
  show ?case by (rule rel_refl)
next
  case (up_event ev ws ws1 cs ws')
  then have "rel (snd ws) (event_writes S X kept buf ev ws) (snd ws1)"
    using rel_event [of ev "fst ws" "snd ws" "fst ws1" "snd ws1"] by simp
  then show ?case using up_event.IH by (rule rel_trans)
next
  case (up_nodes h ns w st cs ws')
  show ?case using rel_quiet(1) [OF rel_nodes [OF up_nodes.hyps(1-3)]] up_nodes.IH by simp
qed

end

locale session_relation = uptime_relation S X kept buf rel C ok
  for S :: "('s, 'it, 'item, 'e) storage_ops" and X :: externs and kept :: nat and buf :: "u8 list"
    and rel :: "('v, 's) site \<Rightarrow> ('v, 's) site list \<Rightarrow> ('v, 's) site \<Rightarrow> bool"
    and C :: "nid \<Rightarrow> 'v codec" and ok :: "'v heap \<Rightarrow> nid list \<Rightarrow> bool" +
  assumes rel_boot: "boots C kept (si_storage st) st' \<Longrightarrow> ok (si_heap st') (li_list (si_inner st')) \<Longrightarrow> rel st [] st'"
begin

lemma rel_session: "worker_session S X C ok kept buf ws cs ws' \<Longrightarrow> rel (snd ws) cs (snd ws')"
proof (induction rule: worker_session.induct)
  case (ws_end ws cs ws')
  then show ?case by (rule rel_uptime)
next
  case (ws_stop ws cs w st st1 st2 cs' ws')
  have "rel st1 cs' (snd ws')" using rel_quiet(1) [OF rel_boot [OF ws_stop.hyps(3,4)]] ws_stop.IH by simp
  from rel_trans [OF rel_uptime [OF ws_stop.hyps(1), simplified] rel_trans [OF rel_stop [OF ws_stop.hyps(2)] this]]
  show ?case by simp
next
  case (ws_power ws cs w st st1 cs' ws')
  have "rel st cs' (snd ws')" using rel_quiet(1) [OF rel_boot [OF ws_power.hyps(2,3)]] ws_power.IH by simp
  from rel_trans [OF rel_uptime [OF ws_power.hyps(1), simplified] this] show ?case by simp
qed

end

section \<open>Sessions as histories\<close>

text \<open>The next write fails and leaves something in storage; or it is due and completes.\<close>

definition leaves_unfinished ::
  "('s, 'it, 'item, 'e) storage_ops \<Rightarrow> externs \<Rightarrow> ('s \<Rightarrow> entry list) \<Rightarrow> u8 list \<Rightarrow> ('v, 's) site \<Rightarrow> bool" where
  "leaves_unfinished S X view buf st \<longleftrightarrow>
     (case run_writes S X buf st of
        Some (Err _, st') \<Rightarrow> map fst (view (si_storage st')) \<noteq> map fst (view (si_storage st))
      | _ \<Rightarrow> False)"

definition completes :: "('s, 'it, 'item, 'e) storage_ops \<Rightarrow> externs \<Rightarrow> u8 list \<Rightarrow> ('v, 's) site \<Rightarrow> bool" where
  "completes S X buf st \<longleftrightarrow> needs_writing (si_heap st) (si_inner st) = Ok True \<and>
     (case run_writes S X buf st of Some (Ok _, _) \<Rightarrow> True | _ \<Rightarrow> False)"

text \<open>The data of the writes that complete: in a history, and in the calls of a session.\<close>

fun durable_writes :: "effect list \<Rightarrow> ser_data list list" where
  "durable_writes [] = []"
| "durable_writes (Durable ds # ls) = ds # durable_writes ls"
| "durable_writes (Quiet # ls) = durable_writes ls"
| "durable_writes (Unsure ds # ls) = durable_writes ls"

definition completed ::
  "('s, 'it, 'item, 'e) storage_ops \<Rightarrow> externs \<Rightarrow> (nid \<Rightarrow> 'v codec) \<Rightarrow> u8 list \<Rightarrow> ('v, 's) site list \<Rightarrow> ser_data list list" where
  "completed S X C buf cs = map (site_data X C) (filter (completes S X buf) cs)"

lemma durable_writes_append [simp]: "durable_writes (ls @ ls') = durable_writes ls @ durable_writes ls'"
  by (induction ls rule: durable_writes.induct) simp_all

lemma completed_simps [simp]:
  "completed S X C buf [] = []"
  "completed S X C buf (cs @ cs') = completed S X C buf cs @ completed S X C buf cs'"
  by (simp_all add: completed_def)

text \<open>A history from one state to another, of exactly these completed writes and no unsure one.\<close>

definition tracks ::
  "('s, 'it, 'item, 'e) storage_ops \<Rightarrow> externs \<Rightarrow> (nid \<Rightarrow> 'v codec) \<Rightarrow> ('s \<Rightarrow> entry list) \<Rightarrow> nat \<Rightarrow> u8 list \<Rightarrow>
     ('v, 's) site \<Rightarrow> ('v, 's) site list \<Rightarrow> ('v, 's) site \<Rightarrow> bool" where
  "tracks S X C view kept buf st cs st' \<longleftrightarrow>
     (\<exists>ls. device_run S X C view kept (length buf) st ls st' \<and> (\<forall>d. Unsure d \<notin> set ls) \<and>
        durable_writes ls = completed S X C buf cs)"

text \<open>
  Up to the first write that leaves something unfinished: the history tracks the session to every state
  in which it writes, and to its end if there is no such write.
\<close>

definition follows_history ::
  "('s, 'it, 'item, 'e) storage_ops \<Rightarrow> externs \<Rightarrow> (nid \<Rightarrow> 'v codec) \<Rightarrow> ('s \<Rightarrow> entry list) \<Rightarrow> nat \<Rightarrow> u8 list \<Rightarrow>
     ('v, 's) site \<Rightarrow> ('v, 's) site list \<Rightarrow> ('v, 's) site \<Rightarrow> bool" where
  "follows_history S X C view kept buf st cs st' \<longleftrightarrow>
     (\<forall>cs1 c cs2. cs = cs1 @ c # cs2 \<and> (\<forall>c' \<in> set cs1. \<not> leaves_unfinished S X view buf c') \<longrightarrow>
        tracks S X C view kept buf st cs1 c) \<and>
     ((\<forall>c \<in> set cs. \<not> leaves_unfinished S X view buf c) \<longrightarrow> tracks S X C view kept buf st cs st')"

lemma device_run_append:
  "device_run S X C view kept b st ls st1 \<Longrightarrow> device_run S X C view kept b st1 ls' st' \<Longrightarrow>
     device_run S X C view kept b st (ls @ ls') st'"
  by (induction rule: device_run.induct) (auto intro: dr_step)

lemma tracks_refl [simp]: "tracks S X C view kept buf st [] st"
  unfolding tracks_def by (intro exI [of _ "[]"]) (simp add: dr_nil)

lemma tracks_trans:
  assumes "tracks S X C view kept buf st cs st1" and "tracks S X C view kept buf st1 cs' st'"
  shows "tracks S X C view kept buf st (cs @ cs') st'"
proof -
  obtain ls ls' where "device_run S X C view kept (length buf) st ls st1" "\<forall>d. Unsure d \<notin> set ls"
    "durable_writes ls = completed S X C buf cs" "device_run S X C view kept (length buf) st1 ls' st'"
    "\<forall>d. Unsure d \<notin> set ls'" "durable_writes ls' = completed S X C buf cs'"
    using assms unfolding tracks_def by blast
  then show ?thesis unfolding tracks_def by (intro exI [of _ "ls @ ls'"]) (auto intro: device_run_append)
qed

lemma tracks_step:
  assumes "device_step S X C view kept (length buf) st l st'" and "\<forall>d. l \<noteq> Unsure d"
    and "durable_writes [l] = completed S X C buf cs"
  shows "tracks S X C view kept buf st cs st'"
  unfolding tracks_def using assms by (intro exI [of _ "[l]"]) (auto intro: dr_step dr_nil)

lemma follows_quiet: "tracks S X C view kept buf st [] st' \<Longrightarrow> follows_history S X C view kept buf st [] st'"
  by (simp add: follows_history_def)

lemma follows_step: "device_step S X C view kept (length buf) st Quiet st' \<Longrightarrow> follows_history S X C view kept buf st [] st'"
  by (rule follows_quiet) (simp add: tracks_step)

lemma follows_trans:
  assumes "follows_history S X C view kept buf st cs st1" and "follows_history S X C view kept buf st1 cs' st'"
  shows "follows_history S X C view kept buf st (cs @ cs') st'"
  unfolding follows_history_def
proof (intro conjI allI impI)
  fix cs1 c cs2
  assume split: "cs @ cs' = cs1 @ c # cs2 \<and> (\<forall>c' \<in> set cs1. \<not> leaves_unfinished S X view buf c')"
  then consider us where "cs = cs1 @ c # us" | us where "cs1 = cs @ us" "cs' = us @ c # cs2"
    by (auto simp: append_eq_append_conv2 append_eq_Cons_conv Cons_eq_append_conv)
  then show "tracks S X C view kept buf st cs1 c"
  proof cases
    case 1
    with split assms(1) show ?thesis unfolding follows_history_def by blast
  next
    case 2
    have "tracks S X C view kept buf st cs st1"
      using assms(1) split 2(1) by (simp add: follows_history_def)
    moreover have "tracks S X C view kept buf st1 us c"
      using assms(2) split 2 by (simp add: follows_history_def)
    ultimately show ?thesis unfolding 2(1) by (rule tracks_trans)
  qed
next
  assume "\<forall>c \<in> set (cs @ cs'). \<not> leaves_unfinished S X view buf c"
  with assms show "tracks S X C view kept buf st (cs @ cs') st'"
    by (intro tracks_trans [of _ _ _ _ _ _ _ _ st1]) (simp_all add: follows_history_def)
qed

lemma follows_writes:
  assumes "run_writes S X buf st = Some (r, st')"
  shows "follows_history S X C view kept buf st [st] st'"
proof -
  have "tracks S X C view kept buf st [st] st'" if "\<not> leaves_unfinished S X view buf st"
  proof (cases r)
    case (Ok c)
    then obtain due where "needs_writing (si_heap st) (si_inner st) = Ok due"
      using assms by (auto simp: run_writes_def process_writes_def Let_def split: option.splits result.splits if_splits)
    with assms Ok show ?thesis
      by (cases due) (auto intro!: tracks_step ds_write [OF refl] ds_write_clean [OF refl] simp: completed_def completes_def)
  next
    case (Err e)
    with assms that show ?thesis
      by (auto intro!: tracks_step ds_write_refused [OF refl] simp: leaves_unfinished_def completed_def completes_def)
  qed
  then show ?thesis by (auto simp: follows_history_def Cons_eq_append_conv)
qed

interpretation follows: session_relation S X kept buf "follows_history S X C view kept buf" C ok
  for S :: "('s, 'it, 'item, 'e) storage_ops" and X kept buf and C :: "nid \<Rightarrow> 'v codec" and view ok
proof
  fix st st1 st' :: "('v, 's) site" and cs cs'
  show "follows_history S X C view kept buf st [] st" by (rule follows_quiet) simp
  show "follows_history S X C view kept buf st cs st1 \<Longrightarrow> follows_history S X C view kept buf st1 cs' st' \<Longrightarrow>
      follows_history S X C view kept buf st (cs @ cs') st'"
    by (rule follows_trans)
qed (rule follows_step [OF ds_read [OF refl]] follows_writes follows_step [OF ds_garbage [OF refl]]
    follows_step [OF ds_nodes] follows_step [OF ds_restart]; assumption)+

text \<open>In a history without an unsure write, the data of the last completed write is durable.\<close>

context ndl_storage begin

lemma durable_last:
  assumes "externs_ok X" and "9 \<le> b" and "0 < kept" and "device_run S X C view kept b st ls st'"
    and "sound_site X C healthy view kept b st" and "\<forall>d. Unsure d \<notin> set ls"
  shows "durable_data X view st' = last (durable_data X view st # durable_writes ls)"
  using assms(4-6)
proof (induction rule: device_run.induct)
  case (dr_step st l st1 ls st')
  note step = device_step_sound [OF assms(1-3) dr_step.prems(1) dr_step.hyps(1)]
  then have "durable_data X view st' = last (durable_data X view st1 # durable_writes ls)"
    using dr_step by simp
  with step dr_step.prems(2) show ?case by (cases l) auto
qed simp

lemma tracks_sound:
  assumes "externs_ok X" and "9 \<le> length buf" and "0 < kept" and "tracks S X C view kept buf st cs st'"
    and "sound_site X C healthy view kept (length buf) st"
  shows "sound_site X C healthy view kept (length buf) st'"
    and "durable_data X view st' = last (durable_data X view st # completed S X C buf cs)"
proof -
  obtain ls where ls: "device_run S X C view kept (length buf) st ls st'" "\<forall>d. Unsure d \<notin> set ls"
    "durable_writes ls = completed S X C buf cs"
    using assms(4) unfolding tracks_def by blast
  show "sound_site X C healthy view kept (length buf) st'"
    by (rule device_run_sound(1) [OF assms(1-3) ls(1) assms(5)])
  show "durable_data X view st' = last (durable_data X view st # completed S X C buf cs)"
    using durable_last [OF assms(1-3) ls(1) assms(5) ls(2)] ls(3) by simp
qed

end

text \<open>
  C8: The worker's sessions are histories. Let a device with sound storage run the default worker,
  whatever its signals, polls and stops, with changes of the nodes, restarts and losses of power
  between two polls. Up to the first call of \<open>process_writes\<close> that fails and leaves something in
  storage, every such call is made in a state that a history of the list operations reaches, in which
  exactly the writes complete that completed in the session, and the data of the last of them is
  durable; and if there is no such call, so it is at the end of the session.
\<close>

theorem worker_sessions_are_histories:
  assumes "ndl_storage S healthy view it_ok passed todo room" and "externs_ok X" and "9 \<le> length buf" and "0 < kept"
    and "sound_site X C healthy view kept (length buf) st"
    and "worker_session S X C ok kept buf (w, st) cs (w', st')"
  shows "(\<forall>cs1 c cs2. cs = cs1 @ c # cs2 \<and> (\<forall>c' \<in> set cs1. \<not> leaves_unfinished S X view buf c') \<longrightarrow>
      tracks S X C view kept buf st cs1 c \<and> sound_site X C healthy view kept (length buf) c \<and>
      durable_data X view c = last (durable_data X view st # completed S X C buf cs1)) \<and>
    ((\<forall>c \<in> set cs. \<not> leaves_unfinished S X view buf c) \<longrightarrow>
      tracks S X C view kept buf st cs st' \<and> sound_site X C healthy view kept (length buf) st' \<and>
      durable_data X view st' = last (durable_data X view st # completed S X C buf cs))"
proof -
  note sound = ndl_storage.tracks_sound [OF assms(1-4) _ assms(5)]
  have "follows_history S X C view kept buf st cs st'"
    using follows.rel_session [OF assms(6), of view] by simp
  then show ?thesis unfolding follows_history_def using sound by blast
qed

text \<open>A write signal on the sample device, ten seconds of silence, and the write, which completes.\<close>

theorem worker_sessions_are_histories_witness:
  "\<exists>w' st'. worker_session test_ops cbor_externs (\<lambda>_. cfg_codec) (\<lambda>_ _. True) 3 sample_buf
       (worker_new, sample_site) [sample_site] (w', st') \<and>
     tracks test_ops cbor_externs (\<lambda>_. cfg_codec) test_view 3 sample_buf sample_site [sample_site] st' \<and>
     durable_data cbor_externs test_view st' = site_data cbor_externs (\<lambda>_. cfg_codec) sample_site"
proof -
  let ?C = "\<lambda>_ :: nid. cfg_codec"
  let ?w = "worker_new\<lparr>wk_now := 10000\<rparr>" and ?evs = "[SignalWrite, Poll, Tick 10000, Poll]"
  obtain st' where act: "\<And>w. worker_act test_ops cbor_externs 3 sample_buf DoWrites (w, sample_site) = Some (w, st')"
    by (rule write_arm_settles [OF test_storage.ndl_storage_axioms cbor_externs_ok sample_flushable sample_site_room])
      (assumption, blast)
  have gc: "\<exists>c. run_garbage test_ops cbor_externs 3 sample_buf sample_site = Some (Ok c, sample_site)"
    by (simp add: run_garbage_def process_garbage_def gc_begin_def sample_site_def sample_writing)
  obtain out where "process_writes test_ops cbor_externs sample_buf sample_heap sample_list test_default = Some out"
      "is_ok (o_res out)" by (rule sample_write)
  then obtain c st1 where wrote: "run_writes test_ops cbor_externs sample_buf sample_site = Some (Ok c, st1)"
    by (cases "o_res out") (simp_all add: run_writes_def sample_site_def)
  have run: "worker_run test_ops cbor_externs 3 sample_buf ?evs (worker_new, sample_site) = Some (?w, st')"
    using act by (simp add: worker_event_def worker_poll_def worker_new_def drop_futures_def WRITE_DEBOUNCE_def)
  have calls: "events_writes test_ops cbor_externs 3 sample_buf ?evs (worker_new, sample_site) = [sample_site]"
    using act gc
    by (auto simp: event_writes_def arm_writes_def worker_event_def worker_poll_def worker_new_def drop_futures_def WRITE_DEBOUNCE_def)
  have session: "worker_session test_ops cbor_externs ?C (\<lambda>_ _. True) 3 sample_buf (worker_new, sample_site) [sample_site] (?w, st')"
    using session_run [OF run, of ?C "\<lambda>_ _. True"] by (simp only: calls)
  have kind: "\<not> leaves_unfinished test_ops cbor_externs test_view sample_buf sample_site"
    "completed test_ops cbor_externs ?C sample_buf [sample_site] = [site_data cbor_externs ?C sample_site]"
    using wrote sample_writing(3) by (simp_all add: leaves_unfinished_def completed_def completes_def sample_site_def)
  from worker_sessions_are_histories [OF test_storage.ndl_storage_axioms cbor_externs_ok _ _ sample_sound session]
  show ?thesis using session kind by (auto simp: sample_writing TEST_MAX_ELEM_SIZE_def)
qed

end
