(* ===== verification/Always_Returns.thy ===== *)
theory Always_Returns
  imports Histories
begin

text \<open>
  The loops of the list operations end. The loops over the storage iterator are partial functions; on
  every storage that keeps the contract, with a well-formed cache that need not be in step with it,
  each operation returns, and returns again after any other.
\<close>

section \<open>Reading\<close>

context ndl_reader begin

lemma skip_items_returns:
  "it_ok b it \<Longrightarrow> \<exists>res it' n'. skip_items S b k it n = (res, it', n') \<and> it_ok b it' \<and>
     passed it' @ todo it' = passed it @ todo it"
proof (induction k arbitrary: it n)
  case (Suc k)
  show ?case
  proof (cases "todo it")
    case Nil
    then show ?thesis using next_end [OF Suc.prems Nil] by auto
  next
    case (Cons x xs)
    then obtain item it1 where it1: "st_next S b it = NextItem item it1" "it_ok b it1"
        "passed it1 = passed it @ [x]" "todo it1 = xs"
      using next_item [OF Suc.prems Cons] by auto
    then show ?thesis using Suc.IH [OF it1(2), of "n + st_len S item"] Cons by auto
  qed
qed simp

lemma extract_loop_returns:
  "it_ok b it \<Longrightarrow> \<exists>res it' h' n' m'. extract_loop S X b ns seq it h n m = Some (res, it', h', n', m') \<and>
     it_ok b it' \<and> passed it' @ todo it' = passed it @ todo it"
proof (induction "todo it" arbitrary: it h n m)
  case Nil
  then obtain it' where "st_next S b it = NextEnd it'" "it_ok b it'" "passed it' = passed it" "todo it' = []"
    using next_end [of b it] by auto
  with Nil show ?case by (subst extract_loop.simps) simp
next
  case (Cons x xs)
  then obtain item it1 where it1: "st_next S b it = NextItem item it1" "it_ok b it1"
      "passed it1 = passed it @ [x]" "todo it1 = xs"
    using next_item [of b it x xs] by auto
  have whole: "passed it1 @ todo it1 = passed it @ todo it"
    using it1 by (simp flip: Cons.hyps(2))
  show ?case
  proof (cases "\<exists>d. st_data S item = Some (Data d)")
    case True
    then obtain d where "st_data S item = Some (Data d)" ..
    with Cons.hyps(1) [OF it1(4) [symmetric] it1(2), of "hydrate X ns d h" "n + st_len S item" "m + st_len S item"]
      it1(1) whole
    show ?thesis by (subst extract_loop.simps) simp
  next
    case False
    with it1(1,2) whole show ?thesis
      by (subst extract_loop.simps) (auto split: option.split elem.split)
  qed
qed

lemma extract_all_returns:
  assumes "healthy b s"
  obtains res s' h' n' m' where "extract_all S X b ns r s h n m = Some (res, s', h', n', m')"
    "healthy b s'" "view s' = view s"
proof -
  obtain it where it: "st_iter S s = IterOk it" "it_ok b it" "passed it @ todo it = view s"
    using iter_start [OF assms] by auto
  obtain res1 it1 n1 where it1: "skip_items S b (gr_start r) it n = (res1, it1, n1)" "it_ok b it1"
      "passed it1 @ todo it1 = view s"
    using skip_items_returns [OF it(2), of "gr_start r" n] it(3) by auto
  show thesis
  proof (cases res1)
    case (Err e)
    then have "extract_all S X b ns r s h n m = Some (Err e, st_release S it1, h, n1, m)"
      using it it1 by (simp add: extract_all_def)
    then show thesis by (rule that) (use release [OF it1(2)] it1(3) in simp_all)
  next
    case (Ok u)
    show thesis
    proof (cases "todo it1")
      case Nil
      then obtain it2 where it2: "st_next S b it1 = NextEnd it2" "it_ok b it2" "passed it2 @ todo it2 = view s"
        using next_end [OF it1(2) Nil] it1(3) by auto
      then have "extract_all S X b ns r s h n m = Some (Err (AppError InconsistentFlash), st_release S it2, h, n1, m)"
        using it it1 Ok by (simp add: extract_all_def)
      then show thesis by (rule that) (use release [OF it2(2)] it2(3) in simp_all)
    next
      case (Cons x xs)
      then obtain item it2 where it2: "st_next S b it1 = NextItem item it2" "it_ok b it2" "passed it2 @ todo it2 = view s"
        using next_item [OF it1(2) Cons] it1(3) by auto
      obtain res3 it3 h3 n3 m3 where it3:
        "extract_loop S X b ns (gr_seq r) it2 h (n1 + st_len S item) m = Some (res3, it3, h3, n3, m3)"
        "it_ok b it3" "passed it3 @ todo it3 = view s"
        using extract_loop_returns [OF it2(2), of X ns "gr_seq r" h "n1 + st_len S item" m] it2(3) by auto
      show thesis
      proof (cases "st_data S item = Some (Start (gr_seq r))")
        case True
        then have "extract_all S X b ns r s h n m = Some (res3, st_release S it3, h3, n3, m3)"
          using it it1 it2 it3 Ok by (simp add: extract_all_def Let_def)
        then show thesis by (rule that) (use release [OF it3(2)] it3(3) in simp_all)
      next
        case False
        then have "extract_all S X b ns r s h n m =
            Some (Err (AppError InconsistentFlash), st_release S it2, h, n1 + st_len S item, m)"
          using it it1 it2 Ok by (simp add: extract_all_def Let_def)
        then show thesis by (rule that) (use release [OF it2(2)] it2(3) in simp_all)
      qed
    qed
  qed
qed

lemma populate_returns:
  assumes "healthy b s" and "cache_ok kept q"
  obtains q' n' s' where "get_or_populate_latest S X b q n s = Some (Ok (highest_seen q'), q', n', s')"
    "cache_ok kept q'" "healthy b s'" "view s' = view s"
proof (cases "initial_scan_completed q")
  case True
  then have "get_or_populate_latest S X b q n s = Some (Ok (highest_seen q), q, n, s)"
    by (simp add: get_or_populate_latest_def)
  then show thesis by (rule that) (use assms in simp_all)
next
  case False
  have "\<forall>r \<in> set (records_in X (elems_of s)). gr_seq r \<noteq> 0"
    using records_typed [OF view_typed [OF assms(1)]] by blast
  from insert_all_ok [OF assms(2) this]
  obtain q1 where q1: "insert_all (records_in X (elems_of s)) q = Some q1" "cache_ok kept q1" by blast
  have "cache_ok kept (rescan q1)" using q1(2) by (simp add: rescan_def cache_ok_def seq_wf_def next_ok_def)
  with that show thesis by (metis populate_inserts [OF assms(1) False q1(1)])
qed

lemma process_reads_returns:
  assumes "healthy (length buf) s" and "cache_ok kept (li_seq li)"
  obtains out where "process_reads S X buf h li s = Some out" "healthy (length buf) (o_storage out)"
    "cache_ok kept (li_seq (o_inner out))" "view (o_storage out) = view s"
    "initial_scan_completed (li_seq li) \<Longrightarrow> li_seq (o_inner out) = li_seq li"
proof -
  obtain q n s1 where q: "get_or_populate_latest S X (length buf) (li_seq li) 0 s = Some (Ok (highest_seen q), q, n, s1)"
    "cache_ok kept q" "healthy (length buf) s1" "view s1 = view s"
    by (rule populate_returns [OF assms])
  have scanned: "initial_scan_completed (li_seq li) \<Longrightarrow> q = li_seq li"
    using q(1) by (simp add: get_or_populate_latest_def)
  show thesis
  proof (cases "highest_seen q")
    case None
    then show thesis using that q scanned by (simp add: process_reads_def Let_def)
  next
    case (Some r)
    obtain res s2 h2 n2 m2 where x: "extract_all S X (length buf) (li_list li) r s1 h n 0 = Some (res, s2, h2, n2, m2)"
      "healthy (length buf) s2" "view s2 = view s1"
      by (rule extract_all_returns [OF q(3)])
    show thesis using that q x Some scanned by (cases res) (simp_all add: process_reads_def Let_def)
  qed
qed

end

section \<open>Writing and collecting\<close>

context ndl_storage begin

lemma process_garbage_returns:
  assumes "healthy (length buf) s" and "cache_ok kept (li_seq li)"
  obtains c li' s' where "process_garbage S X kept buf li s = Some (Ok c, li', s')" "healthy (length buf) s'"
    "cache_ok kept (li_seq li')" "li_list li' = li_list li"
proof (cases "needs_gc (li_seq li)")
  case False
  then show thesis using that assms by (simp add: process_garbage_def gc_begin_def)
next
  case True
  have pos: "0 < kept" using assms(2) by (simp add: cache_ok_def seq_wf_def)
  obtain it where it: "st_iter S s = IterOk it" "it_ok (length buf) it" using iter_start [OF assms(1)] by blast
  obtain it' n p where it': "gc_loop S (length buf) (li_seq li) it 0 0 0 = Some (Ok (), it', n, p)"
      "it_ok (length buf) it'"
    using gc_loop_returns [OF it(2), of "li_seq li" 0 0 0] by blast
  have s1: "healthy (length buf) (st_release S it')" using release [OF it'(2)] by simp
  obtain q m s2 where q: "get_or_populate_latest S X (length buf) (seq_new kept) 0 (st_release S it') =
      Some (Ok (highest_seen q), q, m, s2)" "cache_ok kept q" "healthy (length buf) s2"
    by (rule populate_returns [OF s1 cache_ok_new [OF pos]])
  have "cache_ok kept (q\<lparr>needs_gc := False\<rparr>)" using q(2) by (auto simp: cache_ok_def seq_wf_def next_ok_def split: option.splits)
  then show thesis
    using that True it it' q by (simp add: process_garbage_def gc_begin_def gc_sweep_def gc_finish_def)
qed

lemma write_nodes_returns:
  assumes "heap_ok C h (set ns)" and "\<And>s e. st_push S s e \<noteq> PushPanic"
  shows "\<exists>r. write_nodes S X h ns buf crc ct bytes s = Some r"
  using assms(1)
proof (induction ns arbitrary: buf crc ct bytes s)
  case (Cons i ns)
  then have ok: "heap_ok C h {i}" "heap_ok C h (set ns)" by (simp_all add: heap_ok_def)
  show ?case
  proof (cases "has_data (n_state (h i))")
    case False
    then show ?thesis using Cons.IH [OF ok(2)] by (simp add: write_nodes_skip)
  next
    case True
    then show ?thesis
      using Cons.IH [OF ok(2)] assms(2)
      by (cases "st_push S s (Data (node_data X C h i))") (simp_all add: write_nodes_step [OF ok(1)] Let_def)
  qed
qed simp

lemma write_to_flash_returns:
  assumes "heap_ok C h (set ns)" and "\<And>s e. st_push S s e \<noteq> PushPanic"
  obtains res s' buf' where "write_to_flash S X h ns buf s seq = Some (res, s', buf')"
proof -
  have "\<exists>r. write_to_flash S X h ns buf s seq = Some r"
  proof (cases "st_push S s (Start seq)")
    case (PushOk n s1)
    obtain res s2 buf2 where wn: "write_nodes S X h ns buf crc_new 0 n s1 = Some (res, s2, buf2)"
      using write_nodes_returns [OF assms(1,2), of X buf crc_new 0 n s1] by auto
    show ?thesis
    proof (cases res)
      case (Ok p)
      obtain crc ct bytes where "p = (crc, ct, bytes)" by (cases p)
      then show ?thesis
        using PushOk wn Ok assms(2) [of s2 "End seq (crc_finalize X crc)"]
        by (cases "st_push S s2 (End seq (crc_finalize X crc))") (simp_all add: write_to_flash_def Let_def)
    qed (use PushOk wn in \<open>simp add: write_to_flash_def\<close>)
  qed (use assms(2) in \<open>auto simp: write_to_flash_def\<close>)
  then show thesis using that by auto
qed

text \<open>A write that is due ends, whatever the pushes and the read-back say.\<close>

lemma due_write_returns:
  assumes "externs_ok X" and "heap_ok C h (set (li_list li))" and "healthy (length buf) s" and "9 \<le> length buf"
    and "cache_ok kept (li_seq li)" and "\<And>s e. st_push S s e \<noteq> PushPanic"
    and go: "next_seq (li_seq li) = Some n" "\<not> needs_gc (li_seq li)" "needs_writing h li = Ok True"
  obtains out where "process_writes S X buf h li s = Some out" "healthy (length buf) (o_storage out)"
    "cache_ok kept (li_seq (o_inner out))"
proof -
  note nz = next_above_keys [OF assms(5) go(1)]
  obtain res s1 buf1 where w: "write_to_flash S X h (li_list li) buf s n = Some (res, s1, buf1)"
    by (rule write_to_flash_returns [OF assms(2,6)])
  note out = write_to_flash_outcome [OF assms(1,2,3) nz(1) w order_refl assms(4)]
  then have s1: "healthy (length buf1) s1" "length buf1 = length buf" by simp_all
  have verify: "\<exists>vres s2 m. verify_list_in_flash S X (length buf1) rpt s1 = Some (vres, s2, m) \<and>
      healthy (length buf1) s2" for rpt
    using verify_returns [OF s1(1)] by metis
  consider (failed) e where "res = Err e"
    | (rejected) rpt e s2 m where "res = Ok rpt" "healthy (length buf1) s2"
        "verify_list_in_flash S X (length buf1) rpt s1 = Some (Err e, s2, m)"
    | (accepted) rpt i e s2 m where "res = Ok rpt" "healthy (length buf1) s2"
        "verify_list_in_flash S X (length buf1) rpt s1 = Some (Ok (i, e), s2, m)"
    using verify by (metis result.exhaust surj_pair)
  then show thesis
  proof cases
    case accepted
    obtain q where "insert_good \<lparr>gr_seq = n, gr_start = i, gr_end = e\<rparr> (li_seq li) = Some q" "cache_ok kept q"
      by (rule insert_good_ok [OF assms(5), of "\<lparr>gr_seq = n, gr_start = i, gr_end = e\<rparr>"]) (use nz(1) in simp_all)
    with accepted show thesis using that go w s1 by (simp add: process_writes_def Let_def)
  qed (use that go w s1 assms(5) in \<open>simp_all add: process_writes_def Let_def\<close>)
qed

lemma process_writes_returns:
  assumes "externs_ok X" and "heap_ok C h (set (li_list li))" and "healthy (length buf) s" and "9 \<le> length buf"
    and "cache_ok kept (li_seq li)" and "\<And>s e. st_push S s e \<noteq> PushPanic"
  obtains out where "process_writes S X buf h li s = Some out" "healthy (length buf) (o_storage out)"
    "cache_ok kept (li_seq (o_inner out))"
proof -
  consider (none) "next_seq (li_seq li) = None"
    | (gc) n where "next_seq (li_seq li) = Some n" "needs_gc (li_seq li)"
    | (other) n where "next_seq (li_seq li) = Some n" "\<not> needs_gc (li_seq li)" "needs_writing h li \<noteq> Ok True"
    | (due) n where "next_seq (li_seq li) = Some n" "\<not> needs_gc (li_seq li)" "needs_writing h li = Ok True"
    by auto
  then show thesis
  proof cases
    case other
    then show thesis using that assms(3,5) by (cases "needs_writing h li") (auto simp: process_writes_guards)
  next
    case due
    from due_write_returns [OF assms due] that show thesis by metis
  qed (use that assms(3,5) in \<open>simp_all add: process_writes_guards\<close>)
qed

end

text \<open>
  C11: The list operations return. On every storage that keeps the contract and whose \<open>push\<close> does not
  panic (that of \<open>Flash\<close> never does; that of \<open>TestStorage\<close> does once its counter has run out), with any nodes
  that are well formed and any cache that is, in step or not, \<open>process_reads\<close>, \<open>process_writes\<close> and
  \<open>process_garbage\<close> each return, the last with success, and leave a storage, a cache and nodes that meet
  the same conditions, so that every operation returns again.
\<close>

theorem operations_return:
  assumes "ndl_storage S healthy view it_ok passed todo room" and "externs_ok X"
    and "heap_ok C h (set (li_list li))" and "healthy (length buf) s" and "9 \<le> length buf"
    and "cache_ok kept (li_seq li)" and "\<And>s e. st_push S s e \<noteq> PushPanic"
  shows "(\<exists>out. process_reads S X buf h li s = Some out \<and> healthy (length buf) (o_storage out) \<and>
      cache_ok kept (li_seq (o_inner out)) \<and> heap_ok C (o_heap out) (set (li_list (o_inner out)))) \<and>
    (\<exists>out. process_writes S X buf h li s = Some out \<and> healthy (length buf) (o_storage out) \<and>
      cache_ok kept (li_seq (o_inner out)) \<and> heap_ok C (o_heap out) (set (li_list (o_inner out)))) \<and>
    (\<exists>c li' s'. process_garbage S X kept buf li s = Some (Ok c, li', s') \<and> healthy (length buf) s' \<and>
      cache_ok kept (li_seq li') \<and> heap_ok C h (set (li_list li')))"
proof (intro conjI)
  obtain out where out: "process_reads S X buf h li s = Some out" "healthy (length buf) (o_storage out)"
    "cache_ok kept (li_seq (o_inner out))"
    by (rule ndl_reader.process_reads_returns [OF ndl_storage.axioms(1) [OF assms(1)] assms(4,6), of X h])
  then show "\<exists>out. process_reads S X buf h li s = Some out \<and> healthy (length buf) (o_storage out) \<and>
      cache_ok kept (li_seq (o_inner out)) \<and> heap_ok C (o_heap out) (set (li_list (o_inner out)))"
    using reads_heap_ok [OF out(1) assms(3)] by blast
  obtain out where out: "process_writes S X buf h li s = Some out" "healthy (length buf) (o_storage out)"
    "cache_ok kept (li_seq (o_inner out))"
    by (rule ndl_storage.process_writes_returns [OF assms])
  then show "\<exists>out. process_writes S X buf h li s = Some out \<and> healthy (length buf) (o_storage out) \<and>
      cache_ok kept (li_seq (o_inner out)) \<and> heap_ok C (o_heap out) (set (li_list (o_inner out)))"
    using writes_heap_ok [OF out(1) assms(3)] by blast
  obtain c li' s' where "process_garbage S X kept buf li s = Some (Ok c, li', s')" "healthy (length buf) s'"
    "cache_ok kept (li_seq li')" "li_list li' = li_list li"
    by (rule ndl_storage.process_garbage_returns [OF assms(1,4,6), of X])
  then show "\<exists>c li' s'. process_garbage S X kept buf li s = Some (Ok c, li', s') \<and> healthy (length buf) s' \<and>
      cache_ok kept (li_seq li') \<and> heap_ok C h (set (li_list li'))"
    using assms(3) by auto
qed

text \<open>\<open>Flash\<close> on the queue in memory, whose \<open>push\<close> never panics.\<close>

theorem operations_return_witness:
  "\<exists>r w c li' s'.
     process_reads (flash_ops mem_queue nrf_flash) cbor_externs sample_buf sample_heap sample_list [] = Some r \<and>
     process_writes (flash_ops mem_queue nrf_flash) cbor_externs sample_buf sample_heap sample_list [] = Some w \<and>
     process_garbage (flash_ops mem_queue nrf_flash) cbor_externs 3 sample_buf sample_list [] = Some (Ok c, li', s')"
proof -
  have "mem_ok (length sample_buf) []" by (simp add: mem_ok_def)
  moreover have "9 \<le> length sample_buf" by (simp add: sample_writing TEST_MAX_ELEM_SIZE_def)
  moreover have "st_push (flash_ops mem_queue nrf_flash) s e \<noteq> PushPanic" for s e
    by (simp add: flash_ops_def flash_push_def mem_queue_def Let_def)
  ultimately show ?thesis
    using operations_return [OF mem_flash.ndl_storage_axioms cbor_externs_ok sample_heap_ok _ _ sample_cache] by metis
qed

end
