(* ===== verification/Blocked_Writes.thy ===== *)
theory Blocked_Writes
  imports Worker_Sessions Always_Returns
begin

text \<open>
  After a write that failed behind its start element: as long as the worker runs, no write completes.
\<close>

section \<open>A blocked device\<close>

text \<open>
  The first start element with the next number belongs to a record that is not finished, and no
  collection is due that would remove it.
\<close>

definition blocked ::
  "externs \<Rightarrow> (nid \<Rightarrow> 'v codec) \<Rightarrow> (nat \<Rightarrow> 's \<Rightarrow> bool) \<Rightarrow> ('s \<Rightarrow> entry list) \<Rightarrow> nat \<Rightarrow> nat \<Rightarrow> u32 \<Rightarrow> ('v, 's) site \<Rightarrow> bool" where
  "blocked X C healthy view kept b n st \<longleftrightarrow>
     healthy b (si_storage st) \<and> heap_ok C (si_heap st) (set (li_list (si_inner st))) \<and>
     cache_ok kept (li_seq (si_inner st)) \<and> next_seq (li_seq (si_inner st)) = Some n \<and> \<not> needs_gc (li_seq (si_inner st)) \<and>
     (\<exists>es ds u. map fst (view (si_storage st)) = es @ Some (Start n) # data_elems ds @ u \<and> Some (Start n) \<notin> set es \<and>
        (u = [] \<or> (\<exists>x post. u = x # post \<and> separator x)))"

lemma torn_separator: "torn X n ds t \<Longrightarrow> t = [] \<or> (\<exists>x post. t = x # post \<and> separator x)"
  by (auto simp: torn_def record_elems_def)

lemma blocked_append:
  assumes "blocked X C healthy view kept b n st" and "torn X n ds t" and "healthy b (si_storage st')"
    and "map fst (view (si_storage st')) = map fst (view (si_storage st)) @ t"
    and "si_heap st' = si_heap st" and "si_inner st' = si_inner st"
  shows "blocked X C healthy view kept b n st'"
proof -
  obtain es ds' u where at: "map fst (view (si_storage st)) = es @ Some (Start n) # data_elems ds' @ u"
    "Some (Start n) \<notin> set es" "u = [] \<or> (\<exists>x post. u = x # post \<and> separator x)"
    using assms(1) unfolding blocked_def by blast
  have "map fst (view (si_storage st')) = es @ Some (Start n) # data_elems ds' @ (u @ t)"
    using at(1) assms(4) by simp
  moreover have "u @ t = [] \<or> (\<exists>x post. u @ t = x # post \<and> separator x)"
    using at(3) torn_separator [OF assms(2)] by auto
  ultimately show ?thesis
    using assms(1,3,5,6) at(2) unfolding blocked_def by metis
qed

context ndl_storage begin

text \<open>A write that failed behind its start element blocks the device.\<close>

lemma failed_write_blocks:
  assumes "externs_ok X" and "9 \<le> length buf" and "0 < kept" and "sound_site X C healthy view kept (length buf) st"
    and "next_seq (li_seq (si_inner st)) = Some n" and "Some (Start n) \<notin> set (elems_of (si_storage st))"
    and "run_writes S X buf st = Some (Err e, st1)" and "Some (Start n) \<in> set (elems_of (si_storage st1))"
    and "contents X (elems_of (si_storage st1)) = contents X (elems_of (si_storage st))"
  shows "blocked X C healthy view kept (length buf) n st1"
proof -
  note failed = sound_failed_write [OF assms(1-4,7)] and parts = sound_parts [OF assms(4)]
  obtain t where t: "elems_of (si_storage st1) = elems_of (si_storage st) @ t" "torn X n (site_data X C st) t"
    using failed(4) assms(5,6,8) by auto
  have "t \<noteq> map Some (record_elems X n (site_data X C st))"
    using t(1) assms(9) by (auto simp: contents_snoc)
  then obtain k u where u: "t = Some (Start n) # data_elems (take k (site_data X C st)) @ u" "u = [] \<or> u = [None]"
    using t assms(6,8) by (auto simp: torn_def)
  have gc: "\<not> needs_gc (li_seq (si_inner st))"
  proof
    assume "needs_gc (li_seq (si_inner st))"
    then have "si_storage st1 = si_storage st"
      using assms(5,7) by (auto simp: run_writes_def process_writes_guards)
    with assms(6,8) show False by simp
  qed
  have "elems_of (si_storage st1) =
      elems_of (si_storage st) @ Some (Start n) # data_elems (take k (site_data X C st)) @ u"
    using t(1) u(1) by simp
  moreover have "u = [] \<or> (\<exists>x post. u = x # post \<and> separator x)" using u(2) by auto
  ultimately show ?thesis
    using failed(1-3) parts(3) parts(5) [OF assms(3)] assms(5,6) gc unfolding blocked_def by metis
qed

text \<open>Reads and collections leave it blocked, and so does a write, which fails.\<close>

lemma blocked_reads:
  assumes "blocked X C healthy view kept (length buf) n st" and "run_reads S X buf st = Some (r, st')"
  shows "blocked X C healthy view kept (length buf) n st'"
proof -
  have b: "healthy (length buf) (si_storage st)" "heap_ok C (si_heap st) (set (li_list (si_inner st)))"
    "cache_ok kept (li_seq (si_inner st))" "initial_scan_completed (li_seq (si_inner st))"
    using assms(1) by (simp_all add: blocked_def initial_scan_completed_def)
  obtain out where out: "process_reads S X buf (si_heap st) (si_inner st) (si_storage st) = Some out"
    "healthy (length buf) (o_storage out)" "cache_ok kept (li_seq (o_inner out))" "view (o_storage out) = view (si_storage st)"
    "li_seq (o_inner out) = li_seq (si_inner st)"
    using process_reads_returns [OF b(1,3), of X "si_heap st"] b(4) by metis
  then have "si_heap st' = o_heap out" "si_inner st' = o_inner out" "si_storage st' = o_storage out"
    using assms(2) by (auto simp: run_reads_def)
  then show ?thesis
    using assms(1) out(2,4,5) reads_heap_ok [OF out(1) b(2)] by (simp add: blocked_def)
qed

lemma blocked_garbage:
  assumes "blocked X C healthy view kept (length buf) n st" and "run_garbage S X kept buf st = Some (r, st')"
  shows "st' = st"
  using assms by (auto simp: blocked_def run_garbage_def process_garbage_def gc_begin_def)

lemma blocked_due_write:
  assumes "externs_ok X" and "9 \<le> length buf" and "blocked X C healthy view kept (length buf) n st"
    and "needs_writing (si_heap st) (si_inner st) = Ok True" and "run_writes S X buf st = Some (r, st')"
  shows "\<not> is_ok r" and "blocked X C healthy view kept (length buf) n st'"
proof -
  let ?h = "si_heap st" and ?li = "si_inner st" and ?s = "si_storage st"
  have b: "healthy (length buf) ?s" "heap_ok C ?h (set (li_list ?li))" "cache_ok kept (li_seq ?li)"
    "next_seq (li_seq ?li) = Some n" "\<not> needs_gc (li_seq ?li)"
    using assms(3) by (simp_all add: blocked_def)
  obtain es ds u where at: "elems_of ?s = es @ Some (Start n) # data_elems ds @ u" "Some (Start n) \<notin> set es"
    "u = [] \<or> (\<exists>x post. u = x # post \<and> separator x)"
    using assms(3) unfolding blocked_def by blast
  obtain out where out: "process_writes S X buf ?h ?li ?s = Some out" "o_res out = r"
    "st' = \<lparr>si_heap = o_heap out, si_inner = o_inner out, si_storage = o_storage out\<rparr>"
    using assms(5) by (auto simp: run_writes_def split: option.splits)
  have nz: "n \<noteq> 0" using next_above_keys [OF b(3,4)] by simp
  obtain wres s1 buf1 where w: "write_to_flash S X ?h (li_list ?li) buf ?s n = Some (wres, s1, buf1)"
    using out(1) b(4,5) assms(4) by (auto simp: process_writes_def Let_def split: option.splits)
  note wo = write_to_flash_outcome [OF assms(1) b(2,1) nz w order_refl assms(2)]
  have "\<not> is_ok (o_res out)"
  proof (cases wres)
    case (Err e)
    with out(1) b(4,5) assms(4) w show ?thesis by (auto simp: process_writes_def Let_def)
  next
    case (Ok rpt)
    let ?rec = "map Some (record_elems X n (site_data X C st))"
    have s1: "healthy (length buf1) s1" "elems_of s1 = elems_of ?s @ ?rec" "wr_seq rpt = n" using wo Ok by simp_all
    obtain x post where x: "u @ ?rec = x # post" "separator x"
      using at(3) by (auto simp: record_elems_def)
    then have "elems_of s1 = es @ Some (Start n) # data_elems ds @ x # post"
      using s1(2) at(1) by simp
    from verify_stale [OF s1(1) this at(2) x(2) s1(3)] obtain s2 m where
      "verify_list_in_flash S X (length buf1) rpt s1 = Some (Err WriteVerificationFailed, s2, m)" by metis
    with out(1) b(4,5) assms(4) w Ok show ?thesis by (auto simp: process_writes_def Let_def)
  qed
  then show "\<not> is_ok r" using out(2) by simp
  from process_writes_wrote [OF assms(1) b(2,1,3) out(1) assms(2) b(4,5) assms(4)] \<open>\<not> is_ok (o_res out)\<close>
  obtain t where "healthy (length buf) (o_storage out)" "o_heap out = ?h" "o_inner out = ?li"
    "elems_of (o_storage out) = elems_of ?s @ t" "torn X n (site_data X C st) t"
    by auto
  with blocked_append [OF assms(3), of "site_data X C st" t st'] out(3)
  show "blocked X C healthy view kept (length buf) n st'" by simp
qed

lemma blocked_writes:
  assumes "externs_ok X" and "9 \<le> length buf" and "blocked X C healthy view kept (length buf) n st"
    and "run_writes S X buf st = Some (r, st')"
  shows "blocked X C healthy view kept (length buf) n st'" and "\<not> completes S X buf st"
proof -
  have "blocked X C healthy view kept (length buf) n st' \<and> \<not> completes S X buf st"
  proof (cases "needs_writing (si_heap st) (si_inner st) = Ok True")
    case True
    from blocked_due_write [OF assms(1-3) this assms(4)] assms(4) show ?thesis
      by (cases r) (auto simp: completes_def)
  next
    case False
    then have "st' = st"
      using assms(3,4) by (cases "needs_writing (si_heap st) (si_inner st)")
        (auto simp: blocked_def run_writes_def process_writes_guards)
    then show ?thesis using assms(3) False by (simp add: completes_def)
  qed
  then show "blocked X C healthy view kept (length buf) n st'" and "\<not> completes S X buf st" by simp_all
qed

end

section \<open>As long as the worker runs\<close>

text \<open>Blocked before, blocked at every call of \<open>process_writes\<close>, none of which completes, and blocked after.\<close>

definition stays_blocked ::
  "('s, 'it, 'item, 'e) storage_ops \<Rightarrow> externs \<Rightarrow> (nid \<Rightarrow> 'v codec) \<Rightarrow> (nat \<Rightarrow> 's \<Rightarrow> bool) \<Rightarrow> ('s \<Rightarrow> entry list) \<Rightarrow> nat \<Rightarrow>
     u8 list \<Rightarrow> u32 \<Rightarrow> ('v, 's) site \<Rightarrow> ('v, 's) site list \<Rightarrow> ('v, 's) site \<Rightarrow> bool" where
  "stays_blocked S X C healthy view kept buf n st cs st' \<longleftrightarrow>
     (blocked X C healthy view kept (length buf) n st \<longrightarrow>
      blocked X C healthy view kept (length buf) n st' \<and> (\<forall>c \<in> set cs. \<not> completes S X buf c))"

context ndl_storage begin

lemma blocked_uptime:
  fixes C :: "nid \<Rightarrow> 'b codec"
  assumes "externs_ok X" and "9 \<le> length buf"
  shows "uptime_relation S X kept buf (stays_blocked S X C healthy view kept buf n) C ok"
proof
  fix st st' :: "('b, 's) site" and r
  assume "run_reads S X buf st = Some (r, st')"
  then show "stays_blocked S X C healthy view kept buf n st [] st'"
    by (auto simp: stays_blocked_def intro: blocked_reads)
next
  fix st st' :: "('b, 's) site" and r
  assume "run_writes S X buf st = Some (r, st')"
  from blocked_writes [OF assms _ this, of C kept n]
  show "stays_blocked S X C healthy view kept buf n st [st] st'"
    by (simp add: stays_blocked_def)
next
  fix st st' :: "('b, 's) site" and r
  assume "run_garbage S X kept buf st = Some (r, st')"
  then show "stays_blocked S X C healthy view kept buf n st [] st'"
    by (auto simp: stays_blocked_def dest: blocked_garbage)
next
  fix st st1 st' :: "('b, 's) site" and cs cs'
  assume "stays_blocked S X C healthy view kept buf n st cs st1" "stays_blocked S X C healthy view kept buf n st1 cs' st'"
  then show "stays_blocked S X C healthy view kept buf n st (cs @ cs') st'"
    unfolding stays_blocked_def by auto
next
  fix h :: "'b heap" and ns and st :: "('b, 's) site"
  assume "heap_ok C h (set ns)"
  then show "stays_blocked S X C healthy view kept buf n st [] (st\<lparr>si_heap := h, si_inner := (si_inner st)\<lparr>li_list := ns\<rparr>\<rparr>)"
    by (simp add: stays_blocked_def blocked_def)
qed (simp add: stays_blocked_def)

end

text \<open>
  C25: A write that failed halfway blocks all later ones. If \<open>process_writes\<close> fails after it has put its start
  element into storage, and its record is not complete, then as long as the worker runs, whatever its
  signals and polls and however the nodes change, no collection is ever due and no call of \<open>process_writes\<close>
  completes a write: the number stays the same, and verification finds the unfinished record.
\<close>

theorem unfinished_record_blocks_writes:
  assumes "ndl_storage S healthy view it_ok passed todo room" and "externs_ok X" and "9 \<le> length buf" and "0 < kept"
    and "sound_site X C healthy view kept (length buf) st"
    and "next_seq (li_seq (si_inner st)) = Some n" and "Some (Start n) \<notin> set (map fst (view (si_storage st)))"
    and "run_writes S X buf st = Some (Err e, st1)" and "Some (Start n) \<in> set (map fst (view (si_storage st1)))"
    and "contents X (map fst (view (si_storage st1))) = contents X (map fst (view (si_storage st)))"
    and "worker_uptime S X C ok kept buf (w, st1) cs (w', st')"
  shows "(\<forall>c \<in> set cs. \<not> completes S X buf c) \<and> next_seq (li_seq (si_inner st')) = Some n \<and>
    \<not> needs_gc (li_seq (si_inner st')) \<and>
    (needs_writing (si_heap st') (si_inner st') = Ok True \<longrightarrow>
      (\<forall>r st''. run_writes S X buf st' = Some (r, st'') \<longrightarrow> \<not> is_ok r))"
proof -
  have "blocked X C healthy view kept (length buf) n st1"
    by (rule ndl_storage.failed_write_blocks [OF assms(1-10)])
  moreover have "stays_blocked S X C healthy view kept buf n st1 cs st'"
    using uptime_relation.rel_uptime [OF ndl_storage.blocked_uptime [OF assms(1-3)] assms(11)] by simp
  ultimately have after: "blocked X C healthy view kept (length buf) n st'" "\<forall>c \<in> set cs. \<not> completes S X buf c"
    by (simp_all add: stays_blocked_def)
  then show ?thesis
    using ndl_storage.blocked_due_write(1) [OF assms(1-3) after(1)] by (auto simp: blocked_def)
qed

text \<open>
  The sample list, written with a buffer that is too small for its first node; then the worker is asked
  to write, and tries ten seconds later.
\<close>

theorem unfinished_record_blocks_writes_witness:
  "\<exists>e st1 w' st'. run_writes test_ops cbor_externs (replicate 14 0) sample_site = Some (Err e, st1) \<and>
     worker_uptime test_ops cbor_externs (\<lambda>_. cfg_codec) (\<lambda>_ _. True) 3 (replicate 14 0) (worker_new, st1) [st1] (w', st') \<and>
     needs_writing (si_heap st1) (si_inner st1) = Ok True \<and> \<not> completes test_ops cbor_externs (replicate 14 0) st1"
proof -
  let ?C = "\<lambda>_ :: nid. cfg_codec" and ?buf = "replicate 14 0 :: u8 list" and ?evs = "[SignalWrite, Poll, Tick 10000, Poll]"
  let ?item = "\<lambda>c :: u64. \<lparr>ti_ctr = c, ti_elem = TStart 1\<rparr>"
  let ?st = "\<lambda>c xs. sample_site\<lparr>si_storage := test_default\<lparr>ts_ctr := c, ts_items := xs\<rparr>\<rparr>"
  obtain e where first: "run_writes test_ops cbor_externs ?buf sample_site = Some (Err e, ?st 1 [?item 0])"
    using sample_small_buf_at [of test_default 1]
    by (auto simp: run_writes_def sample_site_def test_default_def checked_add_def)
  obtain e' where again: "run_writes test_ops cbor_externs ?buf (?st 1 [?item 0]) = Some (Err e', ?st 2 [?item 0, ?item 1])"
    using sample_small_buf_at [of "test_default\<lparr>ts_ctr := 1, ts_items := [?item 0]\<rparr>" 2]
    by (auto simp: run_writes_def sample_site_def test_default_def checked_add_def)
  have gc: "\<exists>c. run_garbage test_ops cbor_externs 3 ?buf (?st k xs) = Some (Ok c, ?st k xs)" for k xs
    by (simp add: run_garbage_def process_garbage_def gc_begin_def sample_site_def sample_writing)
  have act: "worker_act test_ops cbor_externs 3 ?buf DoWrites (w, ?st 1 [?item 0]) = Some (w, ?st 2 [?item 0, ?item 1])" for w
    using gc [where k = 1 and xs = "[?item 0]"] gc [where k = 2 and xs = "[?item 0, ?item 1]"] again by (auto simp: worker_act_def)
  have run: "worker_run test_ops cbor_externs 3 ?buf ?evs (worker_new, ?st 1 [?item 0]) =
      Some (worker_new\<lparr>wk_now := 10000\<rparr>, ?st 2 [?item 0, ?item 1])"
    by (simp add: act worker_event_def worker_poll_def worker_new_def drop_futures_def WRITE_DEBOUNCE_def)
  have calls: "events_writes test_ops cbor_externs 3 ?buf ?evs (worker_new, ?st 1 [?item 0]) = [?st 1 [?item 0]]"
    using gc [where k = 1 and xs = "[?item 0]"]
    by (auto simp: act event_writes_def arm_writes_def worker_event_def worker_poll_def worker_new_def drop_futures_def
        WRITE_DEBOUNCE_def)
  note uptime = uptime_run [OF run, of ?C "\<lambda>_ _. True", unfolded calls]
  have view: "map fst (test_view (test_default\<lparr>ts_ctr := 1, ts_items := [?item 0]\<rparr>)) = [Some (Start 1)]"
    by (simp add: test_view_def test_entry_def test_data_def)
  have sound: "sound_site cbor_externs ?C test_healthy test_view 3 (length ?buf) sample_site"
    using sample_sound by (simp add: sound_site_def sample_site_def sample_healthy)
  have start: "next_seq (li_seq (si_inner sample_site)) = Some 1" "map fst (test_view (si_storage sample_site)) = []"
    by (simp_all add: sample_site_def sample_writing sample_healthy)
  have "contents cbor_externs [Some (Start 1)] = []" by (simp add: contents_def closes_def)
  with unfinished_record_blocks_writes [OF test_storage.ndl_storage_axioms cbor_externs_ok _ _ sound start(1) _ first _ _ uptime]
  have "\<not> completes test_ops cbor_externs ?buf (?st 1 [?item 0])" by (simp add: view start(2))
  moreover have "needs_writing (si_heap (?st 1 [?item 0])) (si_inner (?st 1 [?item 0])) = Ok True"
    by (simp add: sample_site_def sample_writing)
  ultimately show ?thesis using first uptime by blast
qed

end
