(* ===== verification/Steady_State.thy ===== *)
theory Steady_State
  imports Worker_Properties Storage_Properties
begin

text \<open>
  The device in the long run: with space for one record more than \<open>KEPT_RECORDS\<close>, every write the
  worker is asked for ends durable, and storage does not fill up.
\<close>

section \<open>Storage is bounded\<close>





section \<open>Write after write\<close>








end
