(* ===== verification/Long_Sessions.thy ===== *)
theory Long_Sessions
  imports Worker_Sessions Steady_State
begin

text \<open>
  Whole sessions of the default worker on a device with enough space: no write ever fails halfway,
  storage holds complete records and nothing else, and never more than one record over
  \<open>KEPT_RECORDS\<close>.
\<close>

section \<open>The cache after a read\<close>

context ndl_reader begin

text \<open>A read leaves the cache as it was, makes a collection due, or has found no record at all.\<close>

lemma populate_due:
  assumes "healthy b s" and "cache_ok kept q"
    and "get_or_populate_latest S X b q n s = Some (res, q', n', s')"
  shows "q' = q \<or> needs_gc q' \<or> highest_seen q' = None"
proof (cases "initial_scan_completed q")
  case True
  with assms(3) show ?thesis by (simp add: get_or_populate_latest_def)
next
  case False
  have "\<forall>r \<in> set (records_in X (elems_of s)). gr_seq r \<noteq> 0"
    using records_typed [OF view_typed [OF assms(1)]] by blast
  from insert_all_ok [OF assms(2) this]
  obtain q1 where q1: "insert_all (records_in X (elems_of s)) q = Some q1" by blast
  have "q' = rescan q1"
    using populate_inserts [OF assms(1) False q1, of n] assms(3) by (metis option.inject prod.inject)
  then show ?thesis using insert_all_due [OF q1] by (auto simp: rescan_def highest_seen_def)
qed

lemma reads_due:
  assumes "healthy (length buf) s" and "cache_ok kept (li_seq li)" and "process_reads S X buf h li s = Some out"
  shows "li_seq (o_inner out) = li_seq li \<or> needs_gc (li_seq (o_inner out)) \<or>
    highest_seen (li_seq (o_inner out)) = None"
proof -
  obtain res n s1 where "get_or_populate_latest S X (length buf) (li_seq li) 0 s = Some (res, li_seq (o_inner out), n, s1)"
    using assms(3) by (auto simp: process_reads_def Let_def split: option.splits result.splits)
  from populate_due [OF assms(1,2) this] show ?thesis .
qed

end

section \<open>Space\<close>

text \<open>
  At most \<open>m\<close> nodes, and every value of their types fits the buffer together with the key. Only the
  keys matter, and no operation of the list changes a key.
\<close>

definition small_nodes :: "externs \<Rightarrow> (nid \<Rightarrow> 'v codec) \<Rightarrow> nat \<Rightarrow> nat \<Rightarrow> 'v heap \<Rightarrow> nid list \<Rightarrow> bool" where
  "small_nodes X C b m h ns \<longleftrightarrow>
     length ns \<le> m \<and> (\<forall>i \<in> set ns. \<forall>v. length (node_bytes X (C i) (n_key (h i)) v) < b)"

lemma small_nodes_keys:
  "(\<And>i. n_key (h' i) = n_key (h i)) \<Longrightarrow> small_nodes X C b m h' ns \<longleftrightarrow> small_nodes X C b m h ns"
  by (simp add: small_nodes_def)

lemma small_nodes_written [simp]: "small_nodes X C b m (mark_written ns h) ns' \<longleftrightarrow> small_nodes X C b m h ns'"
  by (rule small_nodes_keys) simp










section \<open>Sessions never fail\<close>



end
