(* ===== verification/Demo_Blink.thy ===== *)
theory Demo_Blink
  imports Samples
begin

text \<open>
  The blinker demo, \<open>demos/nrf52840/src/noodle.rs\<close>: the configuration each LED keeps in a node, the
  checks and updates of the \<open>blinker\<close> task, and its I/O worker, which collects garbage right after the
  first read and after every write. The pins
  (\<open>wait_press\<close>, \<open>blink\<close>) are in \<open>Demo_Button\<close>.
\<close>

section \<open>The configuration\<close>

record blink_config =
  on_time_ms :: u64
  off_time_ms :: u64

definition blink_default :: blink_config where
  "blink_default = \<lparr>on_time_ms = 25, off_time_ms = 25\<rparr>"

text \<open>The checks of a loaded value, and whether it was changed.\<close>

definition blink_check :: "blink_config \<Rightarrow> blink_config \<times> bool" where
  "blink_check val0 =
     (let (val1, written1) =
            (if on_time_ms val0 < 25 \<or> on_time_ms val0 > 1500 then (val0\<lparr>on_time_ms := 25\<rparr>, True) else (val0, False))
      in if off_time_ms val1 < 25 \<or> off_time_ms val1 > 1500 then (val1\<lparr>off_time_ms := 25\<rparr>, True)
         else (val1, written1))"

text \<open>The value after a press of the button. \<open>None\<close> is the panic of an overflowing multiplication.\<close>

definition checked_double :: "u64 \<Rightarrow> u64 option" where
  "checked_double n = (if 2 * unat n < 2 ^ 64 then Some (n * 2) else None)"

definition blink_next :: "blink_config \<Rightarrow> blink_config option" where
  "blink_next val =
     (case (checked_double (on_time_ms val), checked_double (off_time_ms val)) of
        (Some on, Some off) \<Rightarrow>
          Some \<lparr>on_time_ms = (if on > 1500 then 25 else on), off_time_ms = (if off > 1500 then 25 else off)\<rparr>
      | _ \<Rightarrow> None)"

section \<open>The task\<close>

text \<open>
  \<open>blinker\<close> on its handle, up to its loop: load, check, and write if the check changed something.
  \<open>None\<close> is a panic, of \<open>load\<close> or of \<open>unwrap\<close> on a write.
\<close>

definition unwrap_write :: "'v \<Rightarrow> nid \<Rightarrow> 'v heap \<Rightarrow> 'v heap option" where
  "unwrap_write t i h = (case handle_write t i h of Some (Ok _, h', _) \<Rightarrow> Some h' | _ \<Rightarrow> None)"

definition blinker_start :: "nid \<Rightarrow> blink_config heap \<Rightarrow> (blink_config \<times> blink_config heap) option" where
  "blinker_start i h =
     (case handle_load i h of
        None \<Rightarrow> None
      | Some val0 \<Rightarrow>
          (let (val, written) = blink_check val0 in
           if written then (case unwrap_write val i h of None \<Rightarrow> None | Some h' \<Rightarrow> Some (val, h'))
           else Some (val, h)))"

text \<open>One turn of its loop, after a press.\<close>

definition blinker_press :: "nid \<Rightarrow> blink_config \<times> blink_config heap \<Rightarrow> (blink_config \<times> blink_config heap) option" where
  "blinker_press i = (\<lambda>(val, h).
     case blink_next val of
       None \<Rightarrow> None
     | Some new \<Rightarrow> (case unwrap_write new i h of None \<Rightarrow> None | Some h' \<Rightarrow> Some (new, h')))"

section \<open>Values stay in range\<close>

definition in_range :: "u64 \<Rightarrow> bool" where
  "in_range n \<longleftrightarrow> 25 \<le> n \<and> n \<le> 1500"

definition blink_ok :: "blink_config \<Rightarrow> bool" where
  "blink_ok val \<longleftrightarrow> in_range (on_time_ms val) \<and> in_range (off_time_ms val)"

lemma blink_check_ok:
  assumes "blink_check val0 = (val, changed)"
  shows "blink_ok val" and "\<not> changed \<Longrightarrow> val = val0"
  using assms by (auto simp: blink_check_def blink_ok_def in_range_def not_less Let_def split: if_splits)

lemma double_in_range:
  assumes "in_range n"
  shows "checked_double n = Some (n * 2)" and "unat (n * 2) = 2 * unat n"
    and "in_range (if n * 2 > 1500 then 25 else n * 2)"
proof -
  have bounds: "25 \<le> unat n" "unat n \<le> 1500"
    using assms by (simp_all add: in_range_def word_le_nat_alt)
  then show "checked_double n = Some (n * 2)" by (simp add: checked_double_def)
  show double: "unat (n * 2) = 2 * unat n"
    using bounds by (simp add: unat_word_ariths(2))
  show "in_range (if n * 2 > 1500 then 25 else n * 2)"
    using bounds double by (auto simp: in_range_def word_le_nat_alt word_less_nat_alt)
qed

lemma blink_next_ok:
  assumes "blink_ok val"
  obtains new where "blink_next val = Some new" "blink_ok new"
    "on_time_ms new = (if on_time_ms val * 2 > 1500 then 25 else on_time_ms val * 2)"
    "off_time_ms new = (if off_time_ms val * 2 > 1500 then 25 else off_time_ms val * 2)"
  using assms double_in_range [of "on_time_ms val"] double_in_range [of "off_time_ms val"]
  by (intro that [of "\<lparr>on_time_ms = (if on_time_ms val * 2 > 1500 then 25 else on_time_ms val * 2),
    off_time_ms = (if off_time_ms val * 2 > 1500 then 25 else off_time_ms val * 2)\<rparr>"])
    (simp_all add: blink_next_def blink_ok_def)

section \<open>The task never panics\<close>

lemma unwrap_write_handle:
  assumes "reachable S X kept K C w" and "(i, a, Handle) \<in> set (w_tokens w)"
  obtains h where "unwrap_write t i (w_heap w) = Some h" "n_t (h i) = Some t" "n_state (h i) = NeedsWrite"
    "reachable S X kept K C (w\<lparr>w_heap := h\<rparr>)"
proof -
  note handle = safe_handle [OF reachable_safe [OF assms(1)] assms(2)]
  note ok = handle_write_ok [where h = "w_heap w" and i = i and t = t, OF handle(1,2)]
  from reachable_step [OF assms(1) ws_handle_write [OF assms(2) ok]] ok
  show thesis by (intro that) (simp_all add: unwrap_write_def)
qed

text \<open>
  The blinker task of the demo never panics and keeps its values in range. In every reachable world
  in which it has its handle, whatever value was loaded from storage, its start ends with times between
  25 and 1500 ms, which are also those of the node; and whenever it has such times, a press of the
  button doubles each of them, or starts it over at 25 ms, without overflow, and stores them in the node.
\<close>

theorem blinker_never_panics:
  assumes "reachable S X kept K C w" and "(i, a, Handle) \<in> set (w_tokens w)"
  shows "(\<exists>val h. blinker_start i (w_heap w) = Some (val, h) \<and> blink_ok val \<and> n_t (h i) = Some val \<and>
      reachable S X kept K C (w\<lparr>w_heap := h\<rparr>)) \<and>
    (\<forall>val. blink_ok val \<longrightarrow>
      (\<exists>new h. blinker_press i (val, w_heap w) = Some (new, h) \<and> blink_ok new \<and> n_t (h i) = Some new \<and>
        n_state (h i) = NeedsWrite \<and> reachable S X kept K C (w\<lparr>w_heap := h\<rparr>) \<and>
        unat (on_time_ms new) = (if 2 * unat (on_time_ms val) > 1500 then 25 else 2 * unat (on_time_ms val)) \<and>
        unat (off_time_ms new) = (if 2 * unat (off_time_ms val) > 1500 then 25 else 2 * unat (off_time_ms val))))"
proof (intro conjI allI impI)
  note handle = safe_handle [OF reachable_safe [OF assms(1)] assms(2)]
  then obtain val0 where val0: "n_t (w_heap w i) = Some val0" by blast
  then have load: "handle_load i (w_heap w) = Some val0" using handle(1) by (simp add: handle_load_Some)
  obtain val changed where check: "blink_check val0 = (val, changed)" by (cases "blink_check val0")
  note ok = blink_check_ok [OF check]
  show "\<exists>val h. blinker_start i (w_heap w) = Some (val, h) \<and> blink_ok val \<and> n_t (h i) = Some val \<and>
      reachable S X kept K C (w\<lparr>w_heap := h\<rparr>)"
  proof (cases changed)
    case True
    obtain h where "unwrap_write val i (w_heap w) = Some h" "n_t (h i) = Some val"
      "reachable S X kept K C (w\<lparr>w_heap := h\<rparr>)"
      by (rule unwrap_write_handle [OF assms])
    then show ?thesis using load check ok True by (simp add: blinker_start_def)
  next
    case False
    then show ?thesis using load check ok val0 assms(1) by (simp add: blinker_start_def)
  qed
  fix val assume val: "blink_ok val"
  obtain new where new: "blink_next val = Some new" "blink_ok new"
    "on_time_ms new = (if on_time_ms val * 2 > 1500 then 25 else on_time_ms val * 2)"
    "off_time_ms new = (if off_time_ms val * 2 > 1500 then 25 else off_time_ms val * 2)"
    by (rule blink_next_ok [OF val])
  obtain h where h: "unwrap_write new i (w_heap w) = Some h" "n_t (h i) = Some new" "n_state (h i) = NeedsWrite"
    "reachable S X kept K C (w\<lparr>w_heap := h\<rparr>)"
    by (rule unwrap_write_handle [OF assms])
  have "unat (if n * 2 > 1500 then 25 else n * 2) = (if 2 * unat n > 1500 then 25 else 2 * unat n)"
    if "in_range n" for n
    using double_in_range(2) [OF that] by (simp add: word_less_nat_alt)
  then show "\<exists>new h. blinker_press i (val, w_heap w) = Some (new, h) \<and> blink_ok new \<and> n_t (h i) = Some new \<and>
        n_state (h i) = NeedsWrite \<and> reachable S X kept K C (w\<lparr>w_heap := h\<rparr>) \<and>
        unat (on_time_ms new) = (if 2 * unat (on_time_ms val) > 1500 then 25 else 2 * unat (on_time_ms val)) \<and>
        unat (off_time_ms new) = (if 2 * unat (off_time_ms val) > 1500 then 25 else 2 * unat (off_time_ms val))"
    using new h val by (simp add: blinker_press_def blink_ok_def)
qed

text \<open>A world with a node of the demo's type and a handle on it; the value is the default one.\<close>

theorem blinker_never_panics_witness:
  "\<exists>(w :: blink_config world) val h new h'. w_tokens w = [(0, 2, Handle)] \<and> blinker_start 0 (w_heap w) = Some (val, h) \<and> blink_ok val \<and>
     blinker_press 0 (blink_default, w_heap w) = Some (new, h') \<and> unat (on_time_ms new) = 50"
proof -
  let ?c = "\<lparr>cd_encode = (\<lambda>_. []), cd_decode = (\<lambda>_. None), cd_len = (\<lambda>_. 0)\<rparr> :: blink_config codec"
  obtain w where w: "reachable_of ?c w" "w_tokens w = [(0, 2, Handle)]" by (rule sample_handle_world)
  from w(2) have "(0, 2, Handle) \<in> set (w_tokens w)" by simp
  note safe = blinker_never_panics [OF w(1) this]
  obtain val h where start: "blinker_start 0 (w_heap w) = Some (val, h)" "blink_ok val" using safe by blast
  have "blink_ok blink_default" by (simp add: blink_ok_def in_range_def blink_default_def)
  then obtain new h' where press: "blinker_press 0 (blink_default, w_heap w) = Some (new, h')"
    "unat (on_time_ms new) = (if 2 * unat (on_time_ms blink_default) > 1500 then 25 else 2 * unat (on_time_ms blink_default))"
    using safe by blast
  from press(2) have "unat (on_time_ms new) = 50" by (simp add: blink_default_def)
  with w(2) start press(1) show ?thesis by blast
qed

end
