(* ===== verification/Demo_Load.thy ===== *)
theory Demo_Load
  imports Demo_Blink
begin

text \<open>
  The nodes of the load demo, \<open>demos/nrf52840-load/src/noodle/{alpha,beta,gamma,delta,epsilon}.rs\<close>:
  five families of ten nodes, each with a task that changes every number of its value on each tick and
  writes the node.
\<close>

section \<open>Values\<close>

text \<open>\<open>AlphaConfig\<close>, \<open>BetaConfig\<close> and so on, which differ in the type of their numbers.\<close>

record 'a load_config =
  data_a :: "'a list"
  data_b :: "'a list"
  data_c :: "'a list"
  data_d :: "'a list"

definition load_init :: "nat \<Rightarrow> nat \<Rightarrow> nat \<Rightarrow> nat \<Rightarrow> 'a::comm_semiring_1 \<Rightarrow> 'a load_config" where
  "load_init la lb lc ld n =
     \<lparr>data_a = replicate la n, data_b = replicate lb (n + 1), data_c = replicate lc (n + 2), data_d = replicate ld (n + 3)\<rparr>"

definition alpha_inits :: "u8 load_config list" where
  "alpha_inits = map (load_init 32 16 8 8) [10, 20, 30, 40, 50, 60, 70, 80, 90, 100]"

definition beta_inits :: "u32 load_config list" where
  "beta_inits = map (load_init 8 4 2 2) [110, 120, 130, 140, 150, 160, 170, 180, 190, 1100]"

definition gamma_inits :: "16 word load_config list" where
  "gamma_inits = map (load_init 16 8 4 4) [310, 320, 330, 340, 350, 360, 370, 380, 390, 3100]"

definition delta_inits :: "u32 load_config list" where
  "delta_inits = map (load_init 8 4 2 2) [210, 220, 230, 240, 250, 260, 270, 280, 290, 2100]"

definition epsilon_inits :: "16 word load_config list" where
  "epsilon_inits = map (load_init 16 8 4 4) [310, 320, 330, 340, 350, 360, 370, 380, 390, 3100]"

definition load_keys :: "string \<Rightarrow> key list" where
  "load_keys family =
     map (\<lambda>n. family @ ''/'' @ n)
       [''one'', ''two'', ''three'', ''four'', ''five'', ''six'', ''seven'', ''eight'', ''nine'', ''ten'']"

definition alpha_keys :: "key list" where "alpha_keys = load_keys ''alpha''"
definition beta_keys :: "key list" where "beta_keys = load_keys ''beta''"
definition gamma_keys :: "key list" where "gamma_keys = load_keys ''gamma''"
definition delta_keys :: "key list" where "delta_keys = load_keys ''delta''"
definition epsilon_keys :: "key list" where "epsilon_keys = load_keys ''epsilon''"

section \<open>Ticks\<close>

text \<open>The loop over all numbers of a value.\<close>

definition load_tick :: "('a \<Rightarrow> 'a) \<Rightarrow> 'a load_config \<Rightarrow> 'a load_config" where
  "load_tick f val =
     \<lparr>data_a = map f (data_a val), data_b = map f (data_b val), data_c = map f (data_c val), data_d = map f (data_d val)\<rparr>"

definition alpha_step :: "u8 \<Rightarrow> u8" where "alpha_step byte = byte + 1"
definition beta_step :: "u32 \<Rightarrow> u32" where "beta_step word = word + 1"
definition gamma_step :: "16 word \<Rightarrow> 16 word" where "gamma_step word = word_rotr 1 word"
definition delta_step :: "u32 \<Rightarrow> u32" where "delta_step word = word * word"
definition epsilon_step :: "16 word \<Rightarrow> 16 word" where "epsilon_step word = word_rotl 1 word"

text \<open>One turn of a worker: \<open>None\<close> is the panic of \<open>unwrap\<close>.\<close>

definition load_turn ::
  "('a \<Rightarrow> 'a) \<Rightarrow> nid \<Rightarrow> 'a load_config \<times> 'a load_config heap \<Rightarrow> ('a load_config \<times> 'a load_config heap) option" where
  "load_turn f i = (\<lambda>(val, h).
     let val' = load_tick f val in
     case unwrap_write val' i h of None \<Rightarrow> None | Some h' \<Rightarrow> Some (val', h'))"

text \<open>A turn on a handle never panics, and the node has the new value.\<close>

lemma load_turn_handle:
  assumes "reachable S X kept K C w" and "(i, a, Handle) \<in> set (w_tokens w)"
  obtains h where "load_turn f i (val, w_heap w) = Some (load_tick f val, h)" "n_t (h i) = Some (load_tick f val)"
    "reachable S X kept K C (w\<lparr>w_heap := h\<rparr>)"
proof -
  obtain h where "unwrap_write (load_tick f val) i (w_heap w) = Some h" "n_t (h i) = Some (load_tick f val)"
    "reachable S X kept K C (w\<lparr>w_heap := h\<rparr>)"
    by (rule unwrap_write_handle [OF assms])
  then show thesis by (intro that) (simp_all add: load_turn_def Let_def)
qed

section \<open>What the ticks do in the long run\<close>

lemma load_tick_funpow:
  "(load_tick f ^^ n) val =
     \<lparr>data_a = map (f ^^ n) (data_a val), data_b = map (f ^^ n) (data_b val),
      data_c = map (f ^^ n) (data_c val), data_d = map (f ^^ n) (data_d val)\<rparr>"
proof (induction n)
  case (Suc n)
  then show ?case by (simp add: load_tick_def)
qed (simp add: load_config.equality)

lemma delta_step_funpow: "(delta_step ^^ n) w = w ^ 2 ^ n"
  by (induction n) (simp_all add: delta_step_def mult_2 flip: power_add)

lemma odd_power: "odd (a :: int) \<Longrightarrow> 2 ^ (k + 3) dvd a ^ 2 ^ Suc k - 1"
proof (induction k)
  case 0
  then obtain b where b: "a = 2 * b + 1" by (elim oddE)
  have "even (b * (b + 1))" by simp
  then obtain c where "b * (b + 1) = 2 * c" by (elim evenE)
  then have "a ^ 2 - 1 = 8 * c" by (simp add: b power2_eq_square algebra_simps)
  then show ?case by simp
next
  case (Suc k)
  let ?x = "a ^ 2 ^ Suc k"
  have "a ^ 2 ^ Suc (Suc k) = ?x * ?x" by (simp add: mult_2 flip: power_add)
  then have "a ^ 2 ^ Suc (Suc k) - 1 = (?x - 1) * (?x + 1)" by (simp add: algebra_simps)
  moreover have "2 ^ (k + 3) dvd ?x - 1" "2 dvd ?x + 1" using Suc by simp_all
  then have "2 ^ (k + 3) * 2 dvd (?x - 1) * (?x + 1)" by (rule mult_dvd_mono)
  moreover have "(2 :: int) ^ (Suc k + 3) = 2 ^ (k + 3) * 2" by (simp add: power_add)
  ultimately show ?case by simp
qed

lemma word_dvd_0: "(2 :: int) ^ 32 dvd x \<Longrightarrow> (of_int x :: u32) = 0"
  by (simp add: word_of_int_eq_0_iff)

lemma squares_settle:
  fixes w :: u32
  assumes "30 \<le> n"
  shows "w ^ 2 ^ n = (if odd (uint w) then 1 else 0)"
proof -
  have w: "of_int (uint w) = w" by simp
  obtain m where n: "n = 30 + m" using assms by (metis le_Suc_ex)
  have pow: "w ^ 2 ^ n = (w ^ 2 ^ 30) ^ 2 ^ m" by (simp add: n power_add power_mult)
  show ?thesis
  proof (cases "odd (uint w)")
    case True
    from odd_power [OF True, of 29] have "(2 :: int) ^ 32 dvd uint w ^ 2 ^ 30 - 1" by simp
    then have "(of_int (uint w ^ 2 ^ 30 - 1) :: u32) = 0" by (rule word_dvd_0)
    then have "w ^ 2 ^ 30 = 1" by (simp add: w)
    then show ?thesis using True pow by simp
  next
    case False
    then have "(2 :: int) ^ 32 dvd uint w ^ 32" by (intro dvd_power_same) simp
    then have "(of_int (uint w ^ 32) :: u32) = 0" by (rule word_dvd_0)
    then have z: "w ^ 32 = 0" by (simp add: w)
    have "(2 :: nat) ^ n = 32 * 2 ^ (25 + m)" by (simp add: n power_add)
    then have "w ^ 2 ^ n = (w ^ 32) ^ 2 ^ (25 + m)" by (simp only: power_mult)
    then show ?thesis using False z by (simp add: power_0_left)
  qed
qed

lemma alpha_step_funpow: "(alpha_step ^^ n) w = w + of_nat n"
  by (induction n) (simp_all add: alpha_step_def algebra_simps)

lemma beta_step_funpow: "(beta_step ^^ n) w = w + of_nat n"
  by (induction n) (simp_all add: beta_step_def algebra_simps)

lemma gamma_step_funpow: "(gamma_step ^^ n) w = word_rotr n w"
proof (induction n)
  case 0
  show ?case by (rule bit_word_eqI) (simp add: bit_word_rotr_iff)
qed (simp add: gamma_step_def word_rotr_word_rotr_eq)

lemma rotr_16: "word_rotr 16 w = (w :: 16 word)"
  by (rule bit_word_eqI) (simp add: bit_word_rotr_iff)

lemma epsilon_step_gamma: "gamma_step (epsilon_step w) = w"
  by (simp add: gamma_step_def epsilon_step_def)

lemma epsilon_step_funpow: "word_rotr n ((epsilon_step ^^ n) w) = w"
proof (induction n arbitrary: w)
  case 0
  show ?case by (rule bit_word_eqI) (simp add: bit_word_rotr_iff)
next
  case (Suc n)
  have "word_rotr (Suc n) ((epsilon_step ^^ Suc n) w) = word_rotr n (word_rotr 1 (epsilon_step ((epsilon_step ^^ n) w)))"
    by (simp add: word_rotr_word_rotr_eq)
  also have "\<dots> = w"
    by (simp only: Suc.IH epsilon_step_gamma [unfolded gamma_step_def])
  finally show ?case .
qed

lemma load_tick_same: "load_tick (\<lambda>x. x) val = val"
  by (simp add: load_tick_def)

text \<open>
  What the load demo writes. The values of four families come back after a number of ticks that
  depends on the family alone: 256, \<open>2 ^ 32\<close>, 16 and 16. The values of the family that squares its
  numbers stop changing: from the thirtieth tick on, every number is 1 if it was odd and 0 if it was
  even, so all later writes of these nodes store what storage holds already.
\<close>

theorem load_ticks_repeat:
  "(load_tick alpha_step ^^ 256) va = va \<and> (load_tick beta_step ^^ (2 ^ 32)) vb = vb \<and>
   (load_tick gamma_step ^^ 16) vc = vc \<and> (load_tick epsilon_step ^^ 16) ve = ve \<and>
   (load_tick delta_step ^^ (30 + n)) vd = load_tick (\<lambda>w. if odd (uint w) then 1 else 0) vd"
proof (intro conjI)
  have "alpha_step ^^ 256 = (\<lambda>w. w)" by (simp add: fun_eq_iff alpha_step_funpow)
  then show "(load_tick alpha_step ^^ 256) va = va" by (simp only: load_tick_funpow) simp
  have "beta_step ^^ (2 ^ 32) = (\<lambda>w. w)" by (simp add: fun_eq_iff beta_step_funpow)
  then show "(load_tick beta_step ^^ (2 ^ 32)) vb = vb" by (simp only: load_tick_funpow) simp
  have "gamma_step ^^ 16 = (\<lambda>w. w)" by (simp add: fun_eq_iff gamma_step_funpow rotr_16)
  then show "(load_tick gamma_step ^^ 16) vc = vc" by (simp only: load_tick_funpow) simp
  have "epsilon_step ^^ 16 = (\<lambda>w. w)"
    using epsilon_step_funpow [of 16] by (simp add: fun_eq_iff rotr_16)
  then show "(load_tick epsilon_step ^^ 16) ve = ve" by (simp only: load_tick_funpow) simp
  have "delta_step ^^ (30 + n) = (\<lambda>w. if odd (uint w) then 1 else 0)"
    by (simp only: fun_eq_iff delta_step_funpow squares_settle [OF le_add1] refl simp_thms)
  then show "(load_tick delta_step ^^ (30 + n)) vd = load_tick (\<lambda>w. if odd (uint w) then 1 else 0) vd"
    by (simp only: load_tick_funpow load_tick_def)
qed

text \<open>All nodes of the demo can be attached to its one list: their keys are distinct.\<close>

lemma load_keys_distinct:
  "distinct (alpha_keys @ beta_keys @ gamma_keys @ delta_keys @ epsilon_keys)"
  by (simp add: alpha_keys_def beta_keys_def gamma_keys_def delta_keys_def epsilon_keys_def load_keys_def)

end
