(* ===== verification/Demo_Start.thy ===== *)
theory Demo_Start
  imports Demo_Load
begin

text \<open>
  The tasks of the demos as \<open>main\<close> starts them: the nodes of both, the intervals at which the load demo
  (\<open>demos/nrf52840-load/src/main.rs\<close>) starts its forty tasks, their attaches, and each task's ticker and
  stopper. The hardware \<open>main\<close> sets up is not modelled.
\<close>

section \<open>The nodes\<close>

text \<open>The four nodes of the blinker demo, \<open>LED_ONE_INTERVAL\<close> to \<open>LED_FOUR_INTERVAL\<close>.\<close>

definition led_keys :: "key list" where
  "led_keys = [''led/1'', ''led/2'', ''led/3'', ''led/4'']"

text \<open>
  One of the four loops of \<open>main\<close>: the nodes of a family with the interval of their task, and the interval
  the next family starts with.
\<close>

definition SPAWN_INTERVAL :: nat where "SPAWN_INTERVAL = 500"
definition SPAWN_STEP :: nat where "SPAWN_STEP = 49"

fun spawn_family :: "'k list \<Rightarrow> nat \<Rightarrow> ('k \<times> nat) list \<times> nat" where
  "spawn_family [] interval = ([], interval)"
| "spawn_family (node # nodes) interval =
     (let (rest, last_interval) = spawn_family nodes (interval + SPAWN_STEP)
      in ((node, interval) # rest, last_interval))"

text \<open>The fifth family is commented out there.\<close>

definition load_spawns :: "(key \<times> nat) list" where
  "load_spawns =
     (let (alpha, interval1) = spawn_family alpha_keys SPAWN_INTERVAL;
          (beta, interval2) = spawn_family beta_keys interval1;
          (delta, interval3) = spawn_family delta_keys interval2;
          (gamma, interval4) = spawn_family gamma_keys interval3
      in alpha @ beta @ delta @ gamma)"

lemma spawn_family_eq:
  "spawn_family nodes interval =
     (zip nodes (map (\<lambda>k. interval + SPAWN_STEP * k) [0..<length nodes]), interval + SPAWN_STEP * length nodes)"
proof (induction nodes arbitrary: interval)
  case (Cons node nodes)
  have shift: "map (\<lambda>k. interval + SPAWN_STEP * k) [0..<Suc n] =
      interval # map (\<lambda>k. interval + SPAWN_STEP + SPAWN_STEP * k) [0..<n]" for n
    by (simp add: upt_conv_Cons map_Suc_upt [symmetric] o_def algebra_simps del: upt_Suc)
  show ?case unfolding length_Cons shift by (simp add: Cons.IH)
qed simp

text \<open>No two tasks of the load demo tick at the same interval: the \<open>k\<close>-th one waits \<open>500 + 49 k\<close> ms.\<close>

theorem load_intervals:
  "map snd load_spawns = map (\<lambda>k. SPAWN_INTERVAL + SPAWN_STEP * k) [0..<40]"
  "map fst load_spawns = alpha_keys @ beta_keys @ delta_keys @ gamma_keys"
  by (simp_all add: load_spawns_def spawn_family_eq Let_def alpha_keys_def beta_keys_def gamma_keys_def delta_keys_def
      load_keys_def upt_conv_Cons SPAWN_INTERVAL_def SPAWN_STEP_def)

section \<open>Attaching\<close>

text \<open>
  The \<open>attach\<close> of each task, up to its first \<open>await\<close>, in the order the executor polls the tasks; \<open>None\<close>
  is the panic of \<open>unwrap\<close>.
\<close>

fun attach_all :: "addr \<Rightarrow> nid list \<Rightarrow> 'v heap \<Rightarrow> list_inner \<Rightarrow> ('v heap \<times> list_inner) option" where
  "attach_all a [] h li = Some (h, li)"
| "attach_all a (i # ns) h li =
     (case attach_lock a i h li of
        (Ok _, h', li', _) \<Rightarrow> attach_all a ns h' li'
      | (Err _, _) \<Rightarrow> None)"

lemma attach_all_ok:
  assumes "distinct ns" and "\<forall>i \<in> set ns. n_taken (h i) = 0"
    and "distinct (map (\<lambda>i. n_key (h i)) ns)" and "\<forall>i \<in> set ns. \<forall>j \<in> set (li_list li). n_key (h i) \<noteq> n_key (h j)"
  shows "\<exists>h'. attach_all a ns h li = Some (h', li\<lparr>li_list := rev ns @ li_list li\<rparr>) \<and>
    (\<forall>i. n_key (h' i) = n_key (h i) \<and> n_taken (h' i) = (if i \<in> set ns then a + 1 else n_taken (h i)))"
  using assms
proof (induction ns arbitrary: h li)
  case (Cons i ns)
  have "find_node h (li_list li) (n_key (h i)) = None"
    using Cons.prems(4) by (auto simp: find_node_None)
  then have lock: "attach_lock a i h li = (Ok False, set_taken i (a + 1) h, li\<lparr>li_list := i # li_list li\<rparr>, [WakeNeedsRead])"
    using Cons.prems(2) by (cases rule: attach_lock_cases [of h i a li]) auto
  let ?h = "set_taken i (a + 1) h" and ?li = "li\<lparr>li_list := i # li_list li\<rparr>"
  have key: "n_key (?h j) = n_key (h j)" for j by (simp add: set_taken_def)
  have "distinct ns" "\<forall>j \<in> set ns. n_taken (?h j) = 0" "distinct (map (\<lambda>j. n_key (?h j)) ns)"
    "\<forall>j \<in> set ns. \<forall>j' \<in> set (li_list ?li). n_key (?h j) \<noteq> n_key (?h j')"
    using Cons.prems unfolding key by (auto simp: set_taken_def image_iff)
  from Cons.IH [OF this] obtain h' where "attach_all a ns ?h ?li = Some (h', ?li\<lparr>li_list := rev ns @ li_list ?li\<rparr>)"
    "\<forall>j. n_key (h' j) = n_key (?h j) \<and> n_taken (h' j) = (if j \<in> set ns then a + 1 else n_taken (?h j))"
    by blast
  with lock Cons.prems(1) show ?case by (auto simp: set_taken_def)
qed simp

text \<open>The static nodes of a program, before anything is attached.\<close>

definition static_nodes :: "key list \<Rightarrow> (nid \<Rightarrow> 'v codec) \<Rightarrow> 'v heap" where
  "static_nodes keys C i = node_new (keys ! i) (C i)"

text \<open>No task of either demo panics on its attach: all nodes end up in the list, each taken by its task.\<close>

theorem demos_attach:
  assumes "keys \<in> {led_keys, map fst load_spawns}"
  shows "\<exists>h. attach_all a [0..<length keys] (static_nodes keys C) \<lparr>li_list = [], li_seq = seq_new 3\<rparr> =
      Some (h, \<lparr>li_list = rev [0..<length keys], li_seq = seq_new 3\<rparr>) \<and>
    (\<forall>i < length keys. n_taken (h i) = a + 1 \<and> n_key (h i) = keys ! i)"
proof -
  have "distinct (map fst load_spawns)"
    using load_keys_distinct unfolding load_intervals(2) by auto
  moreover have "distinct led_keys" by (simp add: led_keys_def)
  ultimately have "distinct keys" using assms by auto
  then have "distinct (map (\<lambda>i. n_key (static_nodes keys C i)) [0..<length keys])"
    by (simp add: static_nodes_def node_new_def map_nth)
  moreover have free: "\<forall>i \<in> set [0..<length keys]. n_taken (static_nodes keys C i) = 0"
    by (simp add: static_nodes_def node_new_def)
  ultimately obtain h where h: "attach_all a [0..<length keys] (static_nodes keys C) \<lparr>li_list = [], li_seq = seq_new 3\<rparr> =
      Some (h, \<lparr>li_list = [], li_seq = seq_new 3\<rparr>\<lparr>li_list := rev [0..<length keys] @ []\<rparr>)"
    "\<forall>i. n_key (h i) = n_key (static_nodes keys C i) \<and>
      n_taken (h i) = (if i \<in> set [0..<length keys] then a + 1 else n_taken (static_nodes keys C i))"
    using attach_all_ok [of "[0..<length keys]" "static_nodes keys C" "\<lparr>li_list = [], li_seq = seq_new 3\<rparr>" a] by auto
  then show ?thesis by (intro exI [of _ h]) (simp add: static_nodes_def node_new_def)
qed

section \<open>Ticks until stopped\<close>

text \<open>
  The loop of a task in one poll: every tick that is due, then it waits for the next. Its state is the
  time of the next tick and the value; \<open>None\<close> is a panic, or a poll that does not end, as with an
  interval of zero.
\<close>

function load_ticks ::
  "('a \<Rightarrow> 'a) \<Rightarrow> nid \<Rightarrow> nat \<Rightarrow> nat \<Rightarrow> nat \<Rightarrow> 'a load_config \<times> 'a load_config heap \<Rightarrow>
     (nat \<times> 'a load_config \<times> 'a load_config heap) option" where
  "load_ticks f i interval now next_tick vh =
     (if now < next_tick then Some (next_tick, vh)
      else if interval = 0 then None
      else case load_turn f i vh of
             None \<Rightarrow> None
           | Some vh' \<Rightarrow> load_ticks f i interval now (next_tick + interval) vh')"
  by pat_completeness auto
termination
  by (relation "measure (\<lambda>(f, i, interval, now, next_tick, vh). Suc now - next_tick)") auto

declare load_ticks.simps [simp del]

text \<open>A poll of \<open>select(worker_fut, stopper.wait())\<close>, and whether the task ends with it.\<close>

definition load_task ::
  "('a \<Rightarrow> 'a) \<Rightarrow> nid \<Rightarrow> nat \<Rightarrow> nat \<Rightarrow> bool \<Rightarrow> nat \<times> 'a load_config \<times> 'a load_config heap \<Rightarrow>
     (bool \<times> nat \<times> 'a load_config \<times> 'a load_config heap) option" where
  "load_task f i interval now stopped = (\<lambda>(next_tick, vh).
     map_option (Pair stopped) (load_ticks f i interval now next_tick vh))"

definition alpha_worker where "alpha_worker = load_task alpha_step"
definition beta_worker where "beta_worker = load_task beta_step"
definition gamma_worker where "gamma_worker = load_task gamma_step"
definition delta_worker where "delta_worker = load_task delta_step"
definition epsilon_worker where "epsilon_worker = load_task epsilon_step"

lemma ticks_count:
  assumes "reachable S X kept K C w" and "(i, a, Handle) \<in> set (w_tokens w)" and "0 < interval" and "next_tick \<le> now + interval"
  shows "\<exists>k h. load_ticks f i interval now next_tick (val, w_heap w) =
      Some (next_tick + k * interval, (load_tick f ^^ k) val, h) \<and>
    now < next_tick + k * interval \<and> next_tick + k * interval \<le> now + interval \<and>
    reachable S X kept K C (w\<lparr>w_heap := h\<rparr>) \<and>
    (if k = 0 then h = w_heap w else n_t (h i) = Some ((load_tick f ^^ k) val))"
  using assms
proof (induction "Suc now - next_tick" arbitrary: next_tick val w rule: less_induct)
  case less
  show ?case
  proof (cases "now < next_tick")
    case True
    with less.prems show ?thesis
      by (subst load_ticks.simps) (auto intro!: exI [of _ 0] exI [of _ "w_heap w"])
  next
    case False
    obtain h where turn: "load_turn f i (val, w_heap w) = Some (load_tick f val, h)" "n_t (h i) = Some (load_tick f val)"
      "reachable S X kept K C (w\<lparr>w_heap := h\<rparr>)"
      by (rule load_turn_handle [OF less.prems(1,2)])
    have smaller: "Suc now - (next_tick + interval) < Suc now - next_tick"
      using False less.prems(3) by simp
    obtain k h' where run: "load_ticks f i interval now (next_tick + interval) (load_tick f val, h) =
        Some (next_tick + interval + k * interval, (load_tick f ^^ k) (load_tick f val), h')"
      "now < next_tick + interval + k * interval" "next_tick + interval + k * interval \<le> now + interval"
      "reachable S X kept K C (w\<lparr>w_heap := h'\<rparr>)"
      "if k = 0 then h' = h else n_t (h' i) = Some ((load_tick f ^^ k) (load_tick f val))"
      using less.hyps [OF smaller, of "w\<lparr>w_heap := h\<rparr>" "load_tick f val"] turn(3) less.prems False by auto
    have "load_ticks f i interval now next_tick (val, w_heap w) =
        Some (next_tick + Suc k * interval, (load_tick f ^^ Suc k) val, h')"
      using run(1) turn(1) False less.prems(3)
      by (subst load_ticks.simps) (simp add: funpow_swap1 algebra_simps)
    moreover have "n_t (h' i) = Some ((load_tick f ^^ Suc k) val)"
      using run(5) turn(2) by (simp add: funpow_swap1 split: if_splits)
    ultimately show ?thesis
      using run(2,3,4) by (intro exI [of _ "Suc k"] exI [of _ h']) (simp add: algebra_simps)
  qed
qed

text \<open>
  However late or often a task is polled, its node has seen exactly one tick for each interval that has
  passed since it started.
\<close>

theorem load_task_keeps_time:
  assumes "reachable S X kept K C w" and "(i, a, Handle) \<in> set (w_tokens w)" and "0 < interval"
    and "start \<le> now"
  shows "\<exists>h. load_task f i interval now stopped (start + interval, val, w_heap w) =
      Some (stopped, start + ((now - start) div interval + 1) * interval, (load_tick f ^^ ((now - start) div interval)) val, h) \<and>
    reachable S X kept K C (w\<lparr>w_heap := h\<rparr>)"
proof -
  obtain k h where run: "load_ticks f i interval now (start + interval) (val, w_heap w) =
      Some (start + interval + k * interval, (load_tick f ^^ k) val, h)"
    "now < start + interval + k * interval" "start + interval + k * interval \<le> now + interval"
    "reachable S X kept K C (w\<lparr>w_heap := h\<rparr>)"
    using ticks_count [OF assms(1-3), of "start + interval" now f val] assms(4) by auto
  have "(now - start) div interval = k"
    by (rule div_nat_eqI) (use run(2,3) assms(4) in \<open>auto simp: algebra_simps\<close>)
  with run show ?thesis by (auto simp: load_task_def algebra_simps)
qed

end
