(* ===== verification/Demo_Workers.thy ===== *)
theory Demo_Workers
  imports Verified_Writes Storage_Properties
begin

text \<open>
  The I/O workers of the two demos: \<open>worker\<close> in \<open>demos/nrf52840/src/noodle.rs\<close> and in
  \<open>demos/nrf52840-load/src/noodle/mod.rs\<close>, each a \<open>select\<close> of two futures whose arms read and then
  collect garbage once, or write and then collect; and the nodes of the load demo.
\<close>

section \<open>The blinker demo's worker\<close>

record demo_worker =
  dw_now :: nat
  dw_read_wake :: bool
  dw_write_wake :: bool
  dw_read :: phase
  dw_write :: phase
  dw_first_gc_done :: bool

datatype demo_action = DemoRead | DemoWrite

definition demo_worker_new :: demo_worker where
  "demo_worker_new =
     \<lparr>dw_now = 0, dw_read_wake = False, dw_write_wake = False, dw_read = Waiting, dw_write = Waiting,
      dw_first_gc_done = False\<rparr>"

definition demo_drop :: "demo_worker \<Rightarrow> demo_worker" where
  "demo_drop w = w\<lparr>dw_read := Waiting, dw_write := Waiting\<rparr>"

text \<open>One poll of \<open>select\<close>; both futures are debounced, the first for 100 ms, the second for a second.\<close>

definition demo_poll :: "demo_worker \<Rightarrow> demo_action option \<times> demo_worker" where
  "demo_poll w0 =
     (let (ready1, p1, f1) = poll_debounced 100 (dw_now w0) (dw_read_wake w0) (dw_read w0);
          w1 = w0\<lparr>dw_read := p1, dw_read_wake := f1\<rparr>
      in if ready1 then (Some DemoRead, demo_drop w1)
      else
        let (ready2, p2, f2) = poll_debounced 1000 (dw_now w1) (dw_write_wake w1) (dw_write w1);
            w2 = w1\<lparr>dw_write := p2, dw_write_wake := f2\<rparr>
        in if ready2 then (Some DemoWrite, demo_drop w2) else (None, w2))"

text \<open>The two arms.\<close>

definition demo_act ::
  "('s, 'it, 'item, 'e) storage_ops \<Rightarrow> externs \<Rightarrow> nat \<Rightarrow> u8 list \<Rightarrow> demo_action \<Rightarrow> demo_worker \<times> ('v, 's) site \<Rightarrow>
     (demo_worker \<times> ('v, 's) site) option" where
  "demo_act S X kept buf a = (\<lambda>(w, st).
     case a of
       DemoRead \<Rightarrow>
         (case run_reads S X buf st of
            None \<Rightarrow> None
          | Some (_, st1) \<Rightarrow>
              if dw_first_gc_done w then Some (w, st1)
              else
                (case run_garbage S X kept buf st1 of
                   None \<Rightarrow> None
                 | Some (Ok _, st2) \<Rightarrow> Some (w\<lparr>dw_first_gc_done := True\<rparr>, st2)
                 | Some (Err _, st2) \<Rightarrow> Some (w, st2)))
     | DemoWrite \<Rightarrow>
         (case run_writes S X buf st of
            None \<Rightarrow> None
          | Some (_, st1) \<Rightarrow>
              (case run_garbage S X kept buf st1 of None \<Rightarrow> None | Some (_, st2) \<Rightarrow> Some (w, st2))))"

section \<open>The load demo's worker\<close>

text \<open>
  Its write future waits for one signal and then for a fixed time, whatever signals come meanwhile:
  these stay in the queue.
\<close>

fun poll_delayed :: "nat \<Rightarrow> nat \<Rightarrow> bool \<Rightarrow> phase \<Rightarrow> bool \<times> phase \<times> bool" where
  "poll_delayed delay now wake Waiting =
     (if wake then (delay = 0, Debouncing (now + delay), False) else (False, Waiting, False))"
| "poll_delayed delay now wake (Debouncing deadline) = (deadline \<le> now, Debouncing deadline, wake)"

definition load_poll :: "nat \<Rightarrow> demo_worker \<Rightarrow> demo_action option \<times> demo_worker" where
  "load_poll write_debounce_time w0 =
     (let (ready1, p1, f1) = poll_debounced 100 (dw_now w0) (dw_read_wake w0) (dw_read w0);
          w1 = w0\<lparr>dw_read := p1, dw_read_wake := f1\<rparr>
      in if ready1 then (Some DemoRead, demo_drop w1)
      else
        let (ready2, p2, f2) = poll_delayed write_debounce_time (dw_now w1) (dw_write_wake w1) (dw_write w1);
            w2 = w1\<lparr>dw_write := p2, dw_write_wake := f2\<rparr>
        in if ready2 then (Some DemoWrite, demo_drop w2) else (None, w2))"

text \<open>The totals it keeps through its \<open>&mut\<close> parameters.\<close>

record load_totals =
  total_reads :: nat
  total_writes :: nat
  total_garbage :: nat
  total_read_time :: nat
  total_write_time :: nat
  total_garbage_time :: nat

definition count_garbage :: "nat \<Rightarrow> load_totals \<Rightarrow> load_totals" where
  "count_garbage elapsed t =
     t\<lparr>total_garbage := total_garbage t + 1, total_garbage_time := total_garbage_time t + elapsed\<rparr>"

text \<open>The two arms; the operation took \<open>d1\<close>, the collection \<open>d2\<close>.\<close>

definition load_act ::
  "('s, 'it, 'item, 'e) storage_ops \<Rightarrow> externs \<Rightarrow> nat \<Rightarrow> u8 list \<Rightarrow> nat \<Rightarrow> nat \<Rightarrow> demo_action \<Rightarrow>
     load_totals \<times> demo_worker \<times> ('v, 's) site \<Rightarrow> (load_totals \<times> demo_worker \<times> ('v, 's) site) option" where
  "load_act S X kept buf d1 d2 a = (\<lambda>(t, w, st).
     case a of
       DemoRead \<Rightarrow>
         (case run_reads S X buf st of
            None \<Rightarrow> None
          | Some (_, st1) \<Rightarrow>
              (let t1 = t\<lparr>total_reads := total_reads t + 1, total_read_time := total_read_time t + d1\<rparr> in
               if dw_first_gc_done w then Some (t1, w, st1)
               else
                 (case run_garbage S X kept buf st1 of
                    None \<Rightarrow> None
                  | Some (Ok _, st2) \<Rightarrow> Some (count_garbage d2 t1, w\<lparr>dw_first_gc_done := True\<rparr>, st2)
                  | Some (Err _, st2) \<Rightarrow> Some (count_garbage d2 t1, w, st2))))
     | DemoWrite \<Rightarrow>
         (case run_writes S X buf st of
            None \<Rightarrow> None
          | Some (_, st1) \<Rightarrow>
              (let t1 = t\<lparr>total_writes := total_writes t + 1, total_write_time := total_write_time t + d1\<rparr> in
               case run_garbage S X kept buf st1 of
                 None \<Rightarrow> None
               | Some (_, st2) \<Rightarrow> Some (count_garbage d2 t1, w, st2))))"

section \<open>A session\<close>

lemma checked_add_last: "checked_add (a :: u32) 1 = None \<Longrightarrow> a = - 1"
proof -
  assume "checked_add a 1 = None"
  then have "2 ^ 32 \<le> unat a + 1" by (simp add: checked_add_None_iff)
  moreover have "unat a < 2 ^ 32" using unsigned_less [of a] by simp
  ultimately have "unat a = 2 ^ 32 - 1" by simp
  also have "\<dots> = unat (- 1 :: u32)" by (simp add: unsigned_minus_1_eq_mask mask_eq_exp_minus_1)
  finally show "a = - 1" by (simp only: word_unat_eq_iff)
qed

context ndl_storage begin

text \<open>The first read and the collection that follows it bring cache, nodes and storage in step.\<close>

lemma demo_read_settles:
  assumes "0 < kept" and "fresh_list kept (si_heap st) (si_inner st)" and "healthy (length buf) (si_storage st)"
    and "distinct (map fst (contents X (elems_of (si_storage st))))"
    and "max_seq (contents X (elems_of (si_storage st))) \<noteq> Some (- 1)"
    and "contents X (elems_of (si_storage st)) \<noteq> [] \<or> Some (Start 1) \<notin> set (elems_of (si_storage st))"
    and "\<not> dw_first_gc_done w"
  obtains st1 n where "demo_act S X kept buf DemoRead (w, st) = Some (w\<lparr>dw_first_gc_done := True\<rparr>, st1)"
    "\<forall>i \<in> set (li_list (si_inner st)). si_heap st1 i =
       read_node X (newest_data (contents X (elems_of (si_storage st)))) (si_heap st i)"
    "li_list (si_inner st1) = li_list (si_inner st)" "healthy (length buf) (si_storage st1)"
    "synced X kept (elems_of (si_storage st1)) (li_seq (si_inner st1))" "\<not> needs_gc (li_seq (si_inner st1))"
    "next_seq (li_seq (si_inner st1)) = Some n" "Some (Start n) \<notin> set (elems_of (si_storage st1))"
    "newest_data (contents X (elems_of (si_storage st1))) = newest_data (contents X (elems_of (si_storage st)))"
    "elems_of (si_storage st1) = elems_of (si_storage st) \<or>
       (\<exists>cs. set cs \<subseteq> set (contents X (elems_of (si_storage st))) \<and> elems_of (si_storage st1) = layout X cs)"
proof -
  let ?h = "si_heap st" and ?li = "si_inner st" and ?s = "si_storage st"
  have seq: "li_seq ?li = seq_new kept" and keys: "distinct_keys ?h (li_list ?li)"
    using assms(2) by (simp_all add: fresh_list_def)
  obtain out where out: "process_reads S X buf ?h ?li ?s = Some out" "is_ok (o_res out)"
    "\<And>i. o_heap out i = (if i \<in> set (li_list ?li)
       then read_node X (latest_data (elems_of ?s) (scanned X kept (elems_of ?s))) (?h i) else ?h i)"
    "o_inner out = ?li\<lparr>li_seq := scanned X kept (elems_of ?s)\<rparr>"
    "healthy (length buf) (o_storage out)" "view (o_storage out) = view ?s"
    using process_reads_fresh [OF assms(3,1) seq keys] by metis
  note typed = view_typed [OF assms(3)]
  note synced = synced_scanned [OF assms(1) typed assms(4)]
  let ?q = "scanned X kept (elems_of ?s)"
  have numbered: "\<exists>n. next_seq ?q = Some n \<and> (needs_gc ?q \<or> Some (Start n) \<notin> set (elems_of ?s))"
  proof (cases "records_in X (elems_of ?s) = []")
    case True
    then show ?thesis
      using assms(6) by (simp add: scanned_no_records contents_Nil_iff)
  next
    case False
    obtain r :: good_write_record where r: "next_seq ?q = checked_add (gr_seq r) 1"
      "gr_seq r = Max (gr_seq ` set (records_in X (elems_of ?s)))"
      using scanned_highest [OF assms(1) typed False] by metis
    have "gr_seq r \<noteq> - 1" using assms(5) False r(2) by (simp add: max_seq_records)
    then have "next_seq ?q \<noteq> None" using r(1) checked_add_last by auto
    then show ?thesis using scanned_needs_gc [OF assms(1) typed] False by auto
  qed
  then obtain n where n: "next_seq (li_seq (o_inner out)) = Some n"
    "needs_gc (li_seq (o_inner out)) \<or> Some (Start n) \<notin> set (elems_of (o_storage out))"
    using out(4,6) by auto
  have step: "synced X kept (elems_of (o_storage out)) (li_seq (o_inner out))"
    using synced out(4,6) by simp
  obtain c li' s' where gc: "process_garbage S X kept buf (o_inner out) (o_storage out) = Some (Ok c, li', s')"
    "healthy (length buf) s'" "li_list li' = li_list (o_inner out)" "synced X kept (elems_of s') (li_seq li')"
    "\<not> needs_gc (li_seq li')" "next_seq (li_seq li') = Some n" "Some (Start n) \<notin> set (elems_of s')"
    "newest_data (contents X (elems_of s')) = newest_data (contents X (elems_of (o_storage out)))"
    using garbage_settles [OF out(5) step n] by metis
  have "set (collected (li_seq (o_inner out)) (contents X (elems_of ?s))) \<subseteq> set (contents X (elems_of ?s))"
    by (auto simp: collected_def)
  then have "elems_of s' = elems_of ?s \<or>
      (\<exists>cs. set cs \<subseteq> set (contents X (elems_of ?s)) \<and> elems_of s' = layout X cs)"
    using garbage_leaves [OF out(5) step gc(1)] unfolding out(6) by metis
  then show thesis
    by (intro that [of "\<lparr>si_heap = o_heap out, si_inner = li', si_storage = s'\<rparr>" n])
      (use assms(7) out gc synced_latest [OF synced] in \<open>auto simp: demo_act_def run_reads_def run_garbage_def\<close>)
qed

text \<open>The write arm, from there.\<close>

lemma demo_write_settles:
  assumes "externs_ok X" and "9 \<le> length buf" and "heap_ok C (si_heap st) (set (li_list (si_inner st)))"
    and "healthy (length buf) (si_storage st)" and "synced X kept (elems_of (si_storage st)) (li_seq (si_inner st))"
    and "\<not> needs_gc (li_seq (si_inner st))" and "next_seq (li_seq (si_inner st)) = Some n"
    and "Some (Start n) \<notin> set (elems_of (si_storage st))"
    and "needs_writing (si_heap st) (si_inner st) = Ok True"
    and "fits X C (si_heap st) (li_list (si_inner st)) (length buf)"
    and "length (list_data X C (si_heap st) (li_list (si_inner st))) + 2 \<le> room (si_storage st)"
  obtains st1 where "demo_act S X kept buf DemoWrite (w, st) = Some (w, st1)"
    "si_heap st1 = mark_written (li_list (si_inner st)) (si_heap st)"
    "newest_data (contents X (elems_of (si_storage st1))) = list_data X C (si_heap st) (li_list (si_inner st))"
    "synced X kept (elems_of (si_storage st1)) (li_seq (si_inner st1))" "\<not> needs_gc (li_seq (si_inner st1))"
proof -
  let ?h = "si_heap st" and ?li = "si_inner st" and ?s = "si_storage st"
  have cache: "cache_ok kept (li_seq ?li)" using assms(5) by (simp add: synced_def)
  obtain out where out: "process_writes S X buf ?h ?li ?s = Some out" "is_ok (o_res out)"
    using process_writes_ok [OF assms(1,3,4) cache assms(7,6,9-11,8,2)] by metis
  obtain c where c: "o_res out = Ok c" using out(2) by (cases "o_res out") simp_all
  obtain m where w: "synced X kept (elems_of (o_storage out)) (li_seq (o_inner out))"
    "newest_data (contents X (elems_of (o_storage out))) = list_data X C ?h (li_list ?li)"
    "o_heap out = mark_written (li_list ?li) ?h" "healthy (length buf) (o_storage out)"
    using process_writes_success [OF assms(1,3,4,2,5,9) out] by metis
  show thesis
  proof (cases "needs_gc (li_seq (o_inner out))")
    case False
    then have "process_garbage S X kept buf (o_inner out) (o_storage out) =
        Some (Ok \<lparr>pg_total_bytes_read = 0, pg_post_collection_bytes_read = 0, pg_total_bytes_popped = 0\<rparr>,
          o_inner out, o_storage out)"
      by (simp add: process_garbage_def gc_begin_def)
    then show thesis
      using that out c w False by (simp add: demo_act_def run_writes_def run_garbage_def)
  next
    case True
    obtain c' li' s' where gc: "process_garbage S X kept buf (o_inner out) (o_storage out) = Some (Ok c', li', s')"
      "elems_of s' = layout X (collected (li_seq (o_inner out)) (contents X (elems_of (o_storage out))))"
      "li' = (o_inner out)\<lparr>li_seq := (scanned X kept (elems_of s'))\<lparr>needs_gc := False\<rparr>\<rparr>"
      "synced X kept (elems_of s') (li_seq li')"
      using process_garbage_ok [OF w(4,1) True] by metis
    have "newest_data (contents X (elems_of s')) = list_data X C ?h (li_list ?li)"
      unfolding gc(2) contents_layout w(2) [symmetric]
      by (rule collected_newest(2)) (use w(1) in \<open>simp_all add: synced_def\<close>)
    then show thesis
      using that [of "\<lparr>si_heap = o_heap out, si_inner = li', si_storage = s'\<rparr>"] out c w(3) gc
      by (simp add: demo_act_def run_writes_def run_garbage_def)
  qed
qed

end

text \<open>
  C40: A session of the demo. On a storage with no two records of the same number, whose newest number
  is not the last one, and with no start element 1 if it has no complete record, the worker's first read
  serves all nodes and leaves no collection due; storage is as it was, or holds some of its complete records and
  nothing else. Whatever values the nodes are given then, if they fit the buffer, the record has room in
  the storage as it is then, and a node needs writing, the write arm puts them into storage as the newest
  record, marks the nodes clean, and again leaves no collection due. (By
  \<open>load_act_demo_act\<close> the worker of the load demo does the same.)
\<close>

theorem demo_session_persists:
  assumes "ndl_storage S healthy view it_ok passed todo room" and "externs_ok X" and "9 \<le> length buf" and "0 < kept"
    and "fresh_list kept (si_heap st) (si_inner st)" and "healthy (length buf) (si_storage st)"
    and "distinct (map fst (contents X (map fst (view (si_storage st)))))"
    and "max_seq (contents X (map fst (view (si_storage st)))) \<noteq> Some (- 1)"
    and "contents X (map fst (view (si_storage st))) \<noteq> [] \<or> Some (Start 1) \<notin> set (map fst (view (si_storage st)))"
    and "\<not> dw_first_gc_done w"
  shows "\<exists>st1. demo_act S X kept buf DemoRead (w, st) = Some (w\<lparr>dw_first_gc_done := True\<rparr>, st1) \<and>
    (\<forall>i \<in> set (li_list (si_inner st)). si_heap st1 i =
       read_node X (newest_data (contents X (map fst (view (si_storage st))))) (si_heap st i)) \<and>
    li_list (si_inner st1) = li_list (si_inner st) \<and> \<not> needs_gc (li_seq (si_inner st1)) \<and>
    (map fst (view (si_storage st1)) = map fst (view (si_storage st)) \<or>
       (\<exists>cs. set cs \<subseteq> set (contents X (map fst (view (si_storage st)))) \<and>
          map fst (view (si_storage st1)) = layout X cs)) \<and>
    (\<forall>C h. heap_ok C h (set (li_list (si_inner st))) \<and> needs_writing h (si_inner st1) = Ok True \<and>
       fits X C h (li_list (si_inner st)) (length buf) \<and>
       length (list_data X C h (li_list (si_inner st))) + 2 \<le> room (si_storage st1) \<longrightarrow>
       (\<exists>st2. demo_act S X kept buf DemoWrite (w\<lparr>dw_first_gc_done := True\<rparr>, st1\<lparr>si_heap := h\<rparr>) =
            Some (w\<lparr>dw_first_gc_done := True\<rparr>, st2) \<and>
          newest_data (contents X (map fst (view (si_storage st2)))) = list_data X C h (li_list (si_inner st)) \<and>
          si_heap st2 = mark_written (li_list (si_inner st)) h \<and> \<not> needs_gc (li_seq (si_inner st2))))"
proof -
  obtain st1 n where st1: "demo_act S X kept buf DemoRead (w, st) = Some (w\<lparr>dw_first_gc_done := True\<rparr>, st1)"
    "\<forall>i \<in> set (li_list (si_inner st)). si_heap st1 i =
       read_node X (newest_data (contents X (map fst (view (si_storage st))))) (si_heap st i)"
    "li_list (si_inner st1) = li_list (si_inner st)" "healthy (length buf) (si_storage st1)"
    "synced X kept (map fst (view (si_storage st1))) (li_seq (si_inner st1))" "\<not> needs_gc (li_seq (si_inner st1))"
    "next_seq (li_seq (si_inner st1)) = Some n" "Some (Start n) \<notin> set (map fst (view (si_storage st1)))"
    "newest_data (contents X (map fst (view (si_storage st1)))) = newest_data (contents X (map fst (view (si_storage st))))"
    "map fst (view (si_storage st1)) = map fst (view (si_storage st)) \<or>
       (\<exists>cs. set cs \<subseteq> set (contents X (map fst (view (si_storage st)))) \<and>
          map fst (view (si_storage st1)) = layout X cs)"
    by (rule ndl_storage.demo_read_settles [OF assms(1,4-10)])
  have "\<exists>st2. demo_act S X kept buf DemoWrite (w\<lparr>dw_first_gc_done := True\<rparr>, st1\<lparr>si_heap := h\<rparr>) =
            Some (w\<lparr>dw_first_gc_done := True\<rparr>, st2) \<and>
      newest_data (contents X (map fst (view (si_storage st2)))) = list_data X C h (li_list (si_inner st)) \<and>
      si_heap st2 = mark_written (li_list (si_inner st)) h \<and> \<not> needs_gc (li_seq (si_inner st2))"
    if "heap_ok C h (set (li_list (si_inner st)))" "needs_writing h (si_inner st1) = Ok True"
      "fits X C h (li_list (si_inner st)) (length buf)"
      "length (list_data X C h (li_list (si_inner st))) + 2 \<le> room (si_storage st1)" for C h
  proof -
    note prem = that
    obtain st2 where "demo_act S X kept buf DemoWrite (w\<lparr>dw_first_gc_done := True\<rparr>, st1\<lparr>si_heap := h\<rparr>) =
            Some (w\<lparr>dw_first_gc_done := True\<rparr>, st2)"
      "si_heap st2 = mark_written (li_list (si_inner st1)) h"
      "newest_data (contents X (map fst (view (si_storage st2)))) = list_data X C h (li_list (si_inner st1))"
      "\<not> needs_gc (li_seq (si_inner st2))"
      by (rule ndl_storage.demo_write_settles [OF assms(1-3), where C = C and st = "st1\<lparr>si_heap := h\<rparr>"
            and kept = kept and n = n and w = "w\<lparr>dw_first_gc_done := True\<rparr>"]) (use st1(3-8) prem in simp_all)
    then show ?thesis using st1(3) by auto
  qed
  with st1 show ?thesis by blast
qed

text \<open>The sample nodes on a flash that starts empty: read, given values, and written.\<close>

theorem demo_session_persists_witness:
  "\<exists>w st1 st2. demo_act (flash_ops mem_queue nrf_flash) cbor_externs 3 sample_buf DemoRead
       (demo_worker_new, \<lparr>si_heap = sample_fresh_heap, si_inner = sample_fresh_list, si_storage = []\<rparr>) = Some (w, st1) \<and>
     dw_first_gc_done w \<and>
     demo_act (flash_ops mem_queue nrf_flash) cbor_externs 3 sample_buf DemoWrite (w, st1\<lparr>si_heap := sample_heap\<rparr>) = Some (w, st2) \<and>
     newest_data (contents cbor_externs (map fst (flash_entries mem_queue nrf_flash (si_storage st2)))) =
       list_data cbor_externs (\<lambda>_. cfg_codec) sample_heap sample_nodes"
proof -
  let ?S = "flash_ops mem_queue nrf_flash" and ?C = "\<lambda>_ :: nid. cfg_codec" and ?view = "flash_entries mem_queue nrf_flash"
  let ?w = demo_worker_new
  let ?st = "\<lparr>si_heap = sample_fresh_heap, si_inner = sample_fresh_list, si_storage = [] :: mem\<rparr>"
  have buf: "9 \<le> length sample_buf" by (simp add: sample_writing TEST_MAX_ELEM_SIZE_def)
  have nodes: "li_list sample_fresh_list = sample_nodes" by (simp add: sample_fresh_list_def)
  have "mem_ok (length sample_buf) (si_storage ?st)" "0 < (3 :: nat)" "fresh_list 3 (si_heap ?st) (si_inner ?st)"
    "distinct (map fst (contents cbor_externs (map fst (?view (si_storage ?st)))))"
    "max_seq (contents cbor_externs (map fst (?view (si_storage ?st)))) \<noteq> Some (- 1)"
    "contents cbor_externs (map fst (?view (si_storage ?st))) \<noteq> [] \<or> Some (Start 1) \<notin> set (map fst (?view (si_storage ?st)))"
    "\<not> dw_first_gc_done ?w"
    by (simp_all add: mem_ok_def sample_fresh max_seq_def demo_worker_new_def)
  from demo_session_persists [OF mem_flash.ndl_storage_axioms cbor_externs_ok buf this(2,3,1,4-7)]
  obtain st1 where st1: "demo_act ?S cbor_externs 3 sample_buf DemoRead (?w, ?st) = Some (?w\<lparr>dw_first_gc_done := True\<rparr>, st1)"
    "li_list (si_inner st1) = li_list (si_inner ?st)"
    "map fst (?view (si_storage st1)) = map fst (?view (si_storage ?st)) \<or>
       (\<exists>cs. set cs \<subseteq> set (contents cbor_externs (map fst (?view (si_storage ?st)))) \<and>
          map fst (?view (si_storage st1)) = layout cbor_externs cs)"
    and persists: "\<forall>C h. heap_ok C h (set (li_list (si_inner ?st))) \<and> needs_writing h (si_inner st1) = Ok True \<and>
       fits cbor_externs C h (li_list (si_inner ?st)) (length sample_buf) \<and>
       length (list_data cbor_externs C h (li_list (si_inner ?st))) + 2 \<le> mem_room (si_storage st1) \<longrightarrow>
       (\<exists>st2. demo_act ?S cbor_externs 3 sample_buf DemoWrite (?w\<lparr>dw_first_gc_done := True\<rparr>, st1\<lparr>si_heap := h\<rparr>) =
            Some (?w\<lparr>dw_first_gc_done := True\<rparr>, st2) \<and>
          newest_data (contents cbor_externs (map fst (?view (si_storage st2)))) =
            list_data cbor_externs C h (li_list (si_inner ?st)) \<and>
          si_heap st2 = mark_written (li_list (si_inner ?st)) h \<and> \<not> needs_gc (li_seq (si_inner st2)))"
    by (elim exE conjE) (rule that)
  have st1_list: "li_list (si_inner st1) = sample_nodes" and st1_storage: "si_storage st1 = []"
    using st1(2,3) by (auto simp: nodes)
  have "needs_writing sample_heap (si_inner st1) = Ok True"
    by (simp add: needs_writing_def st1_list) (simp add: sample_nodes_def sample_heap_def)
  moreover have "length (list_data cbor_externs ?C sample_heap sample_nodes) + 2 \<le> mem_room (si_storage st1)"
    by (simp add: st1_storage sample_data_length mem_room_def)
  moreover have "heap_ok ?C sample_heap (set sample_nodes)" "fits cbor_externs ?C sample_heap sample_nodes (length sample_buf)"
    using sample_heap_ok sample_fits by (simp_all add: sample_writing)
  ultimately obtain st2 where
    "demo_act ?S cbor_externs 3 sample_buf DemoWrite (?w\<lparr>dw_first_gc_done := True\<rparr>, st1\<lparr>si_heap := sample_heap\<rparr>) =
       Some (?w\<lparr>dw_first_gc_done := True\<rparr>, st2)"
    "newest_data (contents cbor_externs (map fst (?view (si_storage st2)))) = list_data cbor_externs ?C sample_heap sample_nodes"
    using persists unfolding site.simps nodes by blast
  with st1(1) show ?thesis by (intro exI [of _ "?w\<lparr>dw_first_gc_done := True\<rparr>"] exI [of _ st1] exI [of _ st2]) simp
qed

text \<open>The worker of the load demo does what the blinker demo's does, and counts it.\<close>

lemma load_act_demo_act:
  "map_option snd (load_act S X kept buf d1 d2 a (t, w, st)) = demo_act S X kept buf a (w, st)"
  "load_act S X kept buf d1 d2 a (t, w, st) = Some (t', w', st') \<Longrightarrow>
     total_reads t' + total_writes t' = total_reads t + total_writes t + 1 \<and>
     (total_garbage t' = total_garbage t + 1 \<or> a = DemoRead \<and> dw_first_gc_done w \<and> total_garbage t' = total_garbage t)"
  by (auto simp: load_act_def demo_act_def count_garbage_def Let_def split: demo_action.splits option.splits prod.splits result.splits if_splits)

end
