(* ===== verification/Demo_Button.thy ===== *)
theory Demo_Button
  imports Demo_Blink
begin

text \<open>
  The pins of the blinker demo: \<open>wait_press\<close>, \<open>blink\<close>, and the loop of the \<open>blinker\<close> task, which selects
  between the two. The futures of the pins and timers come from embassy: \<open>wait_for_high\<close> and
  \<open>wait_for_low\<close> complete at a poll that sees that level, a timer completes at the first poll after its
  time that is not the one that starts it, and \<open>select\<close> and \<open>with_timeout\<close> poll their first future first.
  Times are milliseconds.
\<close>

section \<open>A press of the button\<close>

text \<open>Which \<open>await\<close> of \<open>wait_press\<close> is pending; the last is the timeout, with its deadline.\<close>

datatype press_phase =
    AwaitHigh
  | AwaitLow
  | HeldLow nat

definition HOLD_TIME :: nat where "HOLD_TIME = 2"

fun poll_press :: "nat \<Rightarrow> bool \<Rightarrow> press_phase \<Rightarrow> bool \<times> press_phase" where
  "poll_press now high AwaitHigh = (False, if high then AwaitLow else AwaitHigh)"
| "poll_press now high AwaitLow = (False, if high then AwaitLow else HeldLow (now + HOLD_TIME))"
| "poll_press now high (HeldLow deadline) =
     (if high then (False, AwaitLow)
      else (deadline \<le> now, HeldLow deadline))"

text \<open>Polls at given times, each with the level of the pin, until the button is pressed.\<close>

fun wait_press :: "(nat \<times> bool) list \<Rightarrow> press_phase \<Rightarrow> bool \<times> press_phase" where
  "wait_press [] p = (False, p)"
| "wait_press ((now, high) # ps) p =
     (case poll_press now high p of (ready, p') \<Rightarrow> if ready then (True, p') else wait_press ps p')"

text \<open>What a press is: released, then held down without a break for the whole time.\<close>

fun held_until :: "nat \<Rightarrow> (nat \<times> bool) list \<Rightarrow> bool" where
  "held_until deadline [] = False"
| "held_until deadline ((now, high) # ps) = (\<not> high \<and> (deadline \<le> now \<or> held_until deadline ps))"

fun goes_down :: "(nat \<times> bool) list \<Rightarrow> bool" where
  "goes_down ((now, False) # ps) = held_until (now + HOLD_TIME) ps"
| "goes_down _ = False"

fun pressed :: "(nat \<times> bool) list \<Rightarrow> bool" where
  "pressed [] = False"
| "pressed ((now, high) # ps) = (high \<and> goes_down ps \<or> pressed ps)"

lemma held_until_append:
  "\<forall>q \<in> set qs. \<not> snd q \<Longrightarrow> deadline \<le> now \<Longrightarrow> held_until deadline (qs @ (now, False) # rest)"
  by (induction qs) auto

lemma held_untilE:
  assumes "held_until deadline ps"
  obtains qs now rest where "ps = qs @ (now, False) # rest" "\<forall>q \<in> set qs. \<not> snd q" "deadline \<le> now"
  using assms
proof (induction ps arbitrary: thesis)
  case (Cons p ps)
  show ?case
  proof (cases "\<not> snd p \<and> deadline \<le> fst p")
    case True
    then show ?thesis by (intro Cons.prems(1) [of "[]" "fst p" ps]) (auto simp: prod_eq_iff)
  next
    case False
    then have "held_until deadline ps" "\<not> snd p" using Cons.prems(2) by (cases p; auto)+
    then show ?thesis using Cons.IH Cons.prems(1) by (metis append_Cons set_ConsD)
  qed
qed simp

lemma held_until_iff:
  "held_until deadline ps \<longleftrightarrow>
     (\<exists>qs now rest. ps = qs @ (now, False) # rest \<and> (\<forall>q \<in> set qs. \<not> snd q) \<and> deadline \<le> now)"
  by (metis held_until_append held_untilE)

lemma wait_press_phases:
  "fst (wait_press ps AwaitHigh) = pressed ps"
  "fst (wait_press ps AwaitLow) = (goes_down ps \<or> pressed ps)"
  "fst (wait_press ps (HeldLow deadline)) = (held_until deadline ps \<or> pressed ps)"
proof (induction ps arbitrary: deadline)
  case (Cons p ps)
  obtain now high where p: "p = (now, high)" by (cases p)
  {
    case 1
    show ?case using Cons.IH(1,2) by (simp add: p)
  next
    case 2
    show ?case using Cons.IH(2,3) by (cases high) (simp_all add: p)
  next
    case 3
    show ?case using Cons.IH(2,3) by (auto simp: p)
  }
qed simp_all

text \<open>
  \<open>wait_press\<close> ends exactly if, somewhere in what it sees, the button is released, is then down, and
  stays down until 2 ms after that; shorter contacts and a button that is down from the start do not
  count.
\<close>

theorem wait_press_iff:
  "fst (wait_press ps AwaitHigh) \<longleftrightarrow>
     (\<exists>before t0 t1 held t2 rest. ps = before @ (t0, True) # (t1, False) # held @ (t2, False) # rest \<and>
        (\<forall>q \<in> set held. \<not> snd q) \<and> t1 + HOLD_TIME \<le> t2)"
proof -
  have down: "goes_down ps \<longleftrightarrow> (\<exists>t1 held t2 rest. ps = (t1, False) # held @ (t2, False) # rest \<and>
      (\<forall>q \<in> set held. \<not> snd q) \<and> t1 + HOLD_TIME \<le> t2)" for ps
    by (cases ps rule: goes_down.cases) (auto simp: held_until_iff)
  have "pressed ps \<longleftrightarrow> (\<exists>before t0 ps'. ps = before @ (t0, True) # ps' \<and> goes_down ps')"
  proof (induction ps)
    case (Cons p ps)
    then show ?case by (cases p) (auto simp: Cons_eq_append_conv)
  qed simp
  then show ?thesis unfolding wait_press_phases(1) down by blast
qed

section \<open>The light\<close>

text \<open>The level of the pin (the light is on when it is low) and the time of the next change.\<close>

type_synonym light = "(bool \<times> nat) option"

fun poll_blink :: "nat \<Rightarrow> blink_config \<Rightarrow> light \<Rightarrow> light" where
  "poll_blink now cfg None = Some (False, now + unat (on_time_ms cfg))"
| "poll_blink now cfg (Some (high, wake)) =
     (if now < wake then Some (high, wake)
      else if high then Some (False, now + unat (on_time_ms cfg))
      else Some (True, now + unat (off_time_ms cfg)))"

section \<open>The loop of the task\<close>

record blinker =
  bl_val :: blink_config
  bl_press :: press_phase
  bl_light :: light

text \<open>The futures of one turn, before their first poll.\<close>

definition blinker_turn :: "blink_config \<Rightarrow> blinker" where
  "blinker_turn val = \<lparr>bl_val = val, bl_press = AwaitHigh, bl_light = None\<rparr>"

text \<open>
  A poll of \<open>select(wait_press, blink)\<close>. After a press the value is changed and written, and the next
  turn is polled at once. \<open>None\<close> is a panic.
\<close>

definition poll_select :: "nat \<Rightarrow> bool \<Rightarrow> blinker \<Rightarrow> bool \<times> blinker" where
  "poll_select now high bl =
     (let (ready, p) = poll_press now high (bl_press bl) in
      if ready then (True, bl\<lparr>bl_press := p\<rparr>)
      else (False, bl\<lparr>bl_press := p, bl_light := poll_blink now (bl_val bl) (bl_light bl)\<rparr>))"

definition blinker_poll ::
  "nid \<Rightarrow> nat \<Rightarrow> bool \<Rightarrow> blinker \<times> blink_config heap \<Rightarrow> (blinker \<times> blink_config heap) option" where
  "blinker_poll i now high = (\<lambda>(bl, h).
     let (ready, bl1) = poll_select now high bl in
     if ready then
       (case blinker_press i (bl_val bl1, h) of
          None \<Rightarrow> None
        | Some (new, h') \<Rightarrow> Some (snd (poll_select now high (blinker_turn new)), h'))
     else Some (bl1, h))"

fun blinker_polls ::
  "nid \<Rightarrow> (nat \<times> bool) list \<Rightarrow> blinker \<times> blink_config heap \<Rightarrow> (blinker \<times> blink_config heap) option" where
  "blinker_polls i [] bh = Some bh"
| "blinker_polls i ((now, high) # ps) bh =
     (case blinker_poll i now high bh of None \<Rightarrow> None | Some bh' \<Rightarrow> blinker_polls i ps bh')"

section \<open>The task never panics\<close>

lemma poll_select_val [simp]: "poll_select now high bl = (ready, bl1) \<Longrightarrow> bl_val bl1 = bl_val bl"
  by (auto simp: poll_select_def Let_def split: prod.splits if_splits)

text \<open>The value in the node is always the one the light shows, within its range.\<close>

definition blinker_shows :: "nid \<Rightarrow> blinker \<times> blink_config heap \<Rightarrow> bool" where
  "blinker_shows i = (\<lambda>(bl, h). blink_ok (bl_val bl) \<and> n_t (h i) = Some (bl_val bl))"

lemma blinker_poll_safe:
  assumes "reachable S X kept K C w" and "(i, a, Handle) \<in> set (w_tokens w)" and "blinker_shows i (bl, w_heap w)"
  obtains bl' h where "blinker_poll i now high (bl, w_heap w) = Some (bl', h)" "blinker_shows i (bl', h)"
    "reachable S X kept K C (w\<lparr>w_heap := h\<rparr>)"
proof -
  obtain ready bl1 where sel: "poll_select now high bl = (ready, bl1)" by fastforce
  show thesis
  proof (cases ready)
    case False
    with sel assms that show thesis by (simp add: blinker_poll_def blinker_shows_def)
  next
    case True
    obtain new where new: "blink_next (bl_val bl) = Some new" "blink_ok new"
      using assms(3) blink_next_ok by (auto simp: blinker_shows_def)
    obtain h where h: "unwrap_write new i (w_heap w) = Some h" "n_t (h i) = Some new"
      "reachable S X kept K C (w\<lparr>w_heap := h\<rparr>)"
      using unwrap_write_handle [OF assms(1,2)] by metis
    obtain r bl2 where again: "poll_select now high (blinker_turn new) = (r, bl2)" by fastforce
    then have "bl_val bl2 = new" using poll_select_val [OF again] by (simp add: blinker_turn_def)
    with that [of bl2 h] sel True new h again show thesis
      by (simp add: blinker_poll_def blinker_press_def blinker_shows_def)
  qed
qed

text \<open>
  The task never panics in its loop, whatever the button does: at every moment the light blinks with
  the value of the node, which stays within 25 and 1500 ms.
\<close>

theorem blinker_polls_safe:
  assumes "reachable S X kept K C w" and "(i, a, Handle) \<in> set (w_tokens w)" and "blinker_shows i (bl, w_heap w)"
  shows "\<exists>bl' h. blinker_polls i ps (bl, w_heap w) = Some (bl', h) \<and> blinker_shows i (bl', h) \<and>
    reachable S X kept K C (w\<lparr>w_heap := h\<rparr>)"
  using assms
proof (induction ps arbitrary: bl w)
  case Nil
  then show ?case by simp
next
  case (Cons p ps)
  obtain now high where p: "p = (now, high)" by (cases p)
  obtain bl1 h1 where step: "blinker_poll i now high (bl, w_heap w) = Some (bl1, h1)" "blinker_shows i (bl1, h1)"
    "reachable S X kept K C (w\<lparr>w_heap := h1\<rparr>)"
    using blinker_poll_safe [OF Cons.prems] by metis
  with Cons.IH [OF step(3)] Cons.prems(2) show ?case by (simp add: p)
qed

end
