(* ===== verification/Spec2Isabelle.thy ===== *)
theory Spec2Isabelle
  imports List_Properties Handle_Properties Delivery Blocked_Writes Long_Sessions
    Demo_Start Demo_Workers Demo_Button
begin

text \<open>
  A verification of cfg-noodle: configuration values of \<open>no_std\<close> firmware, kept in typed static nodes,
  attached to a list, and persisted in an append-only storage that survives a loss of power at any
  moment. Sources are named relative to \<open>src/crates/cfg-noodle/src/\<close> unless a path is given.

  \<^bold>\<open>The program.\<close> A node (\<open>StorageListNode\<close>, \<open>storage_node.rs\<close>) has a key, a value and one of four
  states. \<open>attach\<close> links it into a list (\<open>StorageList\<close>, \<open>storage_list.rs\<close>), waits until a worker has read
  its value, and yields a handle; \<open>load\<close> and \<open>write\<close> on the handle work on memory only. A worker
  (\<open>worker_task.rs\<close>) waits for signals and calls three operations of the list with the flash:
  \<open>process_reads\<close> fills nodes from the newest record, \<open>process_writes\<close> appends a record with the values of
  all nodes, \<open>process_garbage\<close> deletes everything but the newest records. A record is a start element with
  a sequence number, one data element for each node, and an end element with the number and a checksum;
  a record that is not complete does not count. Storage is anything that implements \<open>NdlDataStorage\<close>
  (\<open>lib.rs\<close>): \<open>Flash\<close>, on the queue of the crate \<open>sequential-storage\<close> (\<open>flash.rs\<close>), or the storage in memory
  of the tests (\<open>test_utils.rs\<close>).

  \<^bold>\<open>The model.\<close> The node heap is a function from identifiers to records, the list a list of
  identifiers, the storage a parameter \<open>S\<close>: a record of operations, as the trait has them. Each list
  operation is a function from heap, list, cache and storage to its result and their new versions; an
  error is a value of the type \<open>result\<close>; \<open>None\<close> as a whole result is a panic, an access to
  uninitialised memory, or a loop that does not end. The loops over a storage iterator are partial
  functions, since nothing forces a storage to end; C11 shows that on a storage that keeps its contract, and whose \<open>push\<close> does not panic, they
  do, so no fuel is used anywhere. Sequence numbers and checksums are 32-bit
  words, bytes 8-bit words; positions and byte counts are natural numbers, which \<open>usize\<close> holds, as they
  are bounded by the size of the flash.

  \<^bold>\<open>Theories\<close>, in the order in which they build on each other:

  \<^item> \<open>Noodle_Prelude\<close>: words, little-endian bytes, \<open>checked_add\<close>, results, sorted lists of keys.
  \<^item> \<open>Node_State\<close> (\<open>storage_node.rs\<close>, \<open>error.rs\<close>): the states, their encoding in an atomic byte, the documented
    diagram of transitions, both error types.
  \<^item> \<open>Element\<close> (\<open>lib.rs\<close>): elements, serialised nodes, the running checksum. The crates \<open>crc\<close> and
    \<open>minicbor\<close> are parameters (\<open>externs\<close>, \<open>codec\<close>), with the documented laws \<open>externs_ok\<close> and
    \<open>roundtrips\<close>; \<open>Concrete_Codecs\<close> has the instances on which the witnesses run, a CRC-32 and the CBOR
    encoding of text and of the type of the integration tests.
  \<^item> \<open>Data_Storage\<close> (\<open>lib.rs\<close>): the three storage traits. The locales \<open>ndl_reader\<close> and \<open>ndl_storage\<close> state
    their contract: iteration yields the entries of a \<open>view\<close>, \<open>push\<close> appends or fails with at most the new
    element half there, \<open>invalidate\<close> removes the element just seen.
  \<^item> \<open>Storage_Node\<close> (\<open>storage_node.rs\<close>, \<open>storage_list.rs\<close>): nodes, their type-erased codec functions, the list.
  \<^item> \<open>Seq_State\<close> (\<open>storage_list.rs\<close>): the cache \<open>SeqState\<close> of the newest records and \<open>insert_good\<close>; what a sequence of
    insertions keeps is the sorted end of the sequence (\<open>insert_all_seqs\<close>).
  \<^item> \<open>Record_Scan\<close>, \<open>List_Scan\<close>: \<open>get_or_populate_latest\<close>. The body of its loop is compared with a
    specification that cuts the elements into complete records and junk (\<open>segments\<close>).
  \<^item> \<open>List_Read\<close>, \<open>List_Write\<close>, \<open>List_Garbage\<close>: \<open>process_reads\<close> with \<open>extract_all\<close>; \<open>process_writes\<close> with
    \<open>write_to_flash\<close> and \<open>verify_list_in_flash\<close>; \<open>process_garbage\<close>. \<open>List_Garbage\<close> defines the abstract view
    of a storage, \<open>contents\<close>, the list of its complete records, and \<open>synced\<close>, the invariant between
    cache and storage that every operation keeps.
  \<^item> \<open>Node_Handle\<close>, \<open>World\<close> (\<open>storage_node.rs\<close>): attach in its three steps, handles, \<open>detach\<close>; and all
    interleavings of any number of nodes, lists, handles, attaches in flight and list operations, a step
    being one critical section. The invariant \<open>safe\<close> makes the rules of \<open>safety_guide.rs\<close> precise.
  \<^item> \<open>Test_Storage\<close> (\<open>test_utils.rs\<close>), \<open>Flash_Queue\<close> (\<open>flash.rs\<close>): the storages, and that they keep the
    contract. The queue of \<open>sequential-storage\<close> is a parameter with laws (\<open>queue_laws\<close>).
  \<^item> \<open>Durability\<close>, \<open>Verified_Writes\<close>, \<open>Garbage_Cut\<close>, \<open>Histories\<close>, \<open>Always_Returns\<close>: what the operations promise
    together: reading back what was written, soundness of the verification, collections and writes cut
    off by a loss of power, whole histories of a device, termination.
  \<^item> \<open>Worker_Task\<close> (\<open>worker_task.rs\<close>): the default worker as a machine driven by time, signals and polls, and the
    no-op worker.
  \<^item> \<open>Delivery\<close>, \<open>Worker_Sessions\<close>, \<open>Blocked_Writes\<close>, \<open>Steady_State\<close>, \<open>Long_Sessions\<close>: the default worker on a
    device: from a handle to the storage, from an attach to its handle, simulation by the histories of
    \<open>Histories\<close>, what follows a write that failed halfway, and that storage of bounded size lasts. A session
    lists the states in which the worker calls \<open>process_writes\<close>; the locales \<open>worker_relation\<close>,
    \<open>uptime_relation\<close> and \<open>session_relation\<close> lift what holds for each list operation to the arms of the
    worker, to the time it runs, and to whole sessions. The readers that are woken are part of the outcome
    of \<open>process_reads\<close> (\<open>o_wakes\<close>); the worker does not look at them, and attach observes the state of its node.
  \<^item> \<open>Demo_Blink\<close>, \<open>Demo_Button\<close>, \<open>Demo_Workers\<close>, \<open>Demo_Load\<close>, \<open>Demo_Start\<close> (\<open>src/demos/\<close>): the tasks and the
    workers of the demos, the pins of the blinker as machines driven by polls (\<open>wait_press_iff\<close>), and the
    start of the tasks (\<open>demos_attach\<close>, \<open>load_task_keeps_time\<close>).
  \<^item> \<open>Samples\<close>: concrete nodes, lists, storages and worlds, on which each property is shown to apply.
  \<^item> \<open>List_Properties\<close>, \<open>Storage_Properties\<close>, \<open>Handle_Properties\<close>, \<open>Worker_Properties\<close>, and this theory: the
    properties, numbered C1 to C40 across theories.

  \<^bold>\<open>What is shown.\<close> Values survive: what a handle writes is durable ten seconds later (C2), a completed write is
  read back (C1), a write that fails or is cut
  off leaves the old values or all of the new ones (C4), \<open>Ok\<close> means durable (C5), collections lose
  nothing a reader can see (C10, C13), and so for any history with any number of losses of power, as long as
  the storage can be read and the device restarts after a write that failed halfway (C3).
  Memory is safe: no interleaving leads to a panic, to uninitialised data, to a node with two owners or to
  a transition outside the diagram (C6, C16, C19, C20), and attaches end (C21, C22). Operations return (C11).
  Each operation does what its documentation says, on every branch (C12, C14, C17, C18, C24, C30). Both
  storages keep the contract (C15, C38); codecs and sizes are exact (C32 to C36). The worker's sessions are
  such histories (C8), it writes what is pending (C23, C37), and with space for one record more than it
  keeps it does so for ever (C7) and no write ever fails halfway (C9); the no-op worker never fails (C39), and the
  demo persists its values (C40).

  Other theorems are about what goes wrong: a write that failed halfway blocks all later ones until
  a restart (C25), a read error in the first scan makes the next collection delete newer records (C26),
  the worker can lose a signal to write (C27) and flushes nothing when it is stopped during a collection (C28),
  an attach that is cancelled takes its node for good (C29), and no write follows the last sequence
  number (C31).

  \<^bold>\<open>Not modelled.\<close> Raw pointers, pinning, and the memory orders of atomic accesses: nodes are reached by
  identifier, and a step is atomic. The mutex is the granularity of the steps of \<open>World\<close>. Futures are
  polled whole between two awaits that matter: attach has three steps, a collection three, the other
  list operations hold the mutex throughout. Log output, \<open>Debug\<close> and \<open>defmt\<close> implementations, and
  constructors that only wrap their arguments. The crates \<open>crc\<close>, \<open>minicbor\<close>, \<open>sequential-storage\<close>,
  \<open>cordyceps\<close>, \<open>maitake-sync\<close> and \<open>embassy\<close>: their documented behaviour is a parameter with laws, or (the
  intrusive list, the wait queues as flags, time in milliseconds) part of the model. The hardware setup
  of the demos. \<open>data_portability.rs\<close> and \<open>safety_guide.rs\<close> are documentation without code.
\<close>

section \<open>Properties\<close>

text \<open>
  C1: A completed write survives a restart. On a storage that keeps the contract, with the
  cache in step and no start element with the next number there, a due write with room in the buffer
  and in storage succeeds and marks the nodes clean; whatever list is started
  on the storage afterwards, its first read succeeds and gives every fresh node the value that the
  node with the same key and type had when it was written.
\<close>

theorem written_values_survive:
  assumes "ndl_storage S healthy view it_ok passed todo room" and "externs_ok X"
    and "heap_ok C h (set (li_list li))" and "distinct_keys h (li_list li)"
    and "\<forall>i v. n_t (h i) = Some v \<longrightarrow> roundtrips (C i) v"
    and "healthy (length buf) s" and "synced X kept (map fst (view s)) (li_seq li)"
    and "next_seq (li_seq li) = Some n" and "\<not> needs_gc (li_seq li)" and "needs_writing h li = Ok True"
    and "fits X C h (li_list li) (length buf)" and "length (list_data X C h (li_list li)) + 2 \<le> room s"
    and "Some (Start n) \<notin> set (map fst (view s))"
    and "9 \<le> length buf" and "fresh_list kept h2 li2" and "length buf2 = length buf"
  shows "\<exists>out out2. process_writes S X buf h li s = Some out \<and> is_ok (o_res out) \<and>
    o_heap out = mark_written (li_list li) h \<and>
    process_reads S X buf2 h2 li2 (o_storage out) = Some out2 \<and> is_ok (o_res out2) \<and>
    (\<forall>i \<in> set (li_list li). \<forall>j \<in> set (li_list li2).
       has_data (n_state (h i)) \<and> n_key (h2 j) = n_key (h i) \<and> n_state (h2 j) = Initial \<and>
       n_vtable (h2 j) = vtable_for_ty (C i) \<longrightarrow>
       o_heap out2 j = (h2 j)\<lparr>n_t := n_t (h i), n_state := ValidNoWriteNeeded\<rparr>)"
proof -
  note reader = ndl_storage.axioms(1) [OF assms(1)]
  have cache: "cache_ok kept (li_seq li)" and pos: "0 < kept"
    using assms(7) by (simp_all add: synced_def cache_ok_def seq_wf_def)
  obtain out where out: "process_writes S X buf h li s = Some out" "is_ok (o_res out)"
    "o_heap out = mark_written (li_list li) h" "healthy (length buf) (o_storage out)"
    "map fst (view (o_storage out)) = map fst (view s) @ map Some (record_elems X n (list_data X C h (li_list li)))"
    using ndl_storage.process_writes_ok [OF assms(1-3,6) cache assms(8-14)] by metis
  note newest = written_newest [OF assms(7,8), of "list_data X C h (li_list li)", folded out(5)]
  have healthy2: "healthy (length buf2) (o_storage out)" using out(4) assms(16) by simp
  obtain out2 where out2: "process_reads S X buf2 h2 li2 (o_storage out) = Some out2" "is_ok (o_res out2)"
    "\<And>j. o_heap out2 j =
      (if j \<in> set (li_list li2) then read_node X (newest_data (contents X (map fst (view (o_storage out))))) (h2 j)
       else h2 j)"
    using ndl_reader.restart_reads [OF reader healthy2 pos assms(15) newest(1)] by metis
  have "o_heap out2 j = (h2 j)\<lparr>n_t := n_t (h i), n_state := ValidNoWriteNeeded\<rparr>"
    if "i \<in> set (li_list li)" "j \<in> set (li_list li2)" "has_data (n_state (h i))"
      "n_key (h2 j) = n_key (h i)" "n_state (h2 j) = Initial" "n_vtable (h2 j) = vtable_for_ty (C i)" for i j
  proof -
    note ij = that
    obtain v where v: "n_t (h i) = Some v" using assms(3) ij(1,3) by (auto simp: heap_ok_def)
    have "roundtrips (C i) v" using assms(5) v by blast
    then have "read_node X (list_data X C h (li_list li)) (h2 j) =
        (h2 j)\<lparr>n_t := Some v, n_state := ValidNoWriteNeeded\<rparr>"
      using ij v by (intro read_written [OF assms(2,4), where i = i]) simp_all
    then show ?thesis
      using out2(3) ij(2) newest(2) v by simp
  qed
  with out out2 show ?thesis by blast
qed

text \<open>The sample list on an empty test storage, restarted with fresh nodes of the same keys.\<close>

theorem written_values_survive_witness:
  "\<exists>out out2. process_writes test_ops cbor_externs sample_buf sample_heap sample_list test_default = Some out \<and>
     is_ok (o_res out) \<and>
     process_reads test_ops cbor_externs sample_buf sample_fresh_heap sample_fresh_list (o_storage out) = Some out2 \<and>
     n_t (o_heap out2 0) = Some 13 \<and> n_t (o_heap out2 1) = Some 240"
proof -
  have "\<exists>out out2. process_writes test_ops cbor_externs sample_buf sample_heap sample_list test_default = Some out \<and>
    is_ok (o_res out) \<and> o_heap out = mark_written (li_list sample_list) sample_heap \<and>
    process_reads test_ops cbor_externs sample_buf sample_fresh_heap sample_fresh_list (o_storage out) = Some out2 \<and>
    is_ok (o_res out2) \<and>
    (\<forall>i \<in> set (li_list sample_list). \<forall>j \<in> set (li_list sample_fresh_list).
       has_data (n_state (sample_heap i)) \<and> n_key (sample_fresh_heap j) = n_key (sample_heap i) \<and>
       n_state (sample_fresh_heap j) = Initial \<and> n_vtable (sample_fresh_heap j) = vtable_for_ty cfg_codec \<longrightarrow>
       o_heap out2 j = (sample_fresh_heap j)\<lparr>n_t := n_t (sample_heap i), n_state := ValidNoWriteNeeded\<rparr>)"
    by (rule written_values_survive [OF test_storage.ndl_storage_axioms cbor_externs_ok sample_heap_ok,
          where kept = 3 and n = 1])
      (simp_all add: sample_writing sample_keys cfg_roundtrips sample_healthy sample_synced sample_fits
        sample_data_length sample_fresh test_room_def, simp_all add: test_default_def TEST_MAX_ELEM_SIZE_def)
  then show ?thesis
    by (auto simp: sample_list_def sample_fresh_list_def sample_nodes_def sample_heap_def sample_fresh_heap_def node_new_def)
qed

text \<open>
  C4: A write that fails, or that is cut off anywhere, is all or nothing. Whatever
  \<open>process_writes\<close> returns, a list started on the storage afterwards reads successfully, and gives
  its fresh nodes either exactly what the storage said before, or exactly the data of the whole
  list that was being written.
\<close>

theorem write_is_all_or_nothing:
  assumes "ndl_storage S healthy view it_ok passed todo room" and "externs_ok X"
    and "heap_ok C h (set (li_list li))" and "healthy (length buf) s" and "9 \<le> length buf"
    and "synced X kept (map fst (view s)) (li_seq li)"
    and "process_writes S X buf h li s = Some out"
    and "fresh_list kept h2 li2" and "length buf2 = length buf"
  shows "\<exists>ds out2. ds \<in> {newest_data (contents X (map fst (view s))), list_data X C h (li_list li)} \<and>
    process_reads S X buf2 h2 li2 (o_storage out) = Some out2 \<and> is_ok (o_res out2) \<and>
    (\<forall>j \<in> set (li_list li2). o_heap out2 j = read_node X ds (h2 j))"
proof -
  let ?ds = "list_data X C h (li_list li)" and ?es = "map fst (view s)"
  have cache: "cache_ok kept (li_seq li)" and pos: "0 < kept"
    using assms(6) by (simp_all add: synced_def cache_ok_def seq_wf_def)
  note outcome = ndl_storage.process_writes_outcome [OF assms(1-4) cache assms(7,5)]
  have new: "distinct (map fst (contents X (map fst (view (o_storage out)))))"
    "newest_data (contents X (map fst (view (o_storage out)))) \<in> {newest_data (contents X ?es), ?ds}"
  proof -
    consider "map fst (view (o_storage out)) = ?es"
      | n t where "next_seq (li_seq li) = Some n" "map fst (view (o_storage out)) = ?es @ t" "torn X n ?ds t"
      using outcome(3) by blast
    then have "distinct (map fst (contents X (map fst (view (o_storage out))))) \<and>
      newest_data (contents X (map fst (view (o_storage out)))) \<in> {newest_data (contents X ?es), ?ds}"
    proof cases
      case 1
      then show ?thesis using assms(6) by (simp add: synced_def)
    next
      case 2
      then show ?thesis using torn_newest [OF assms(6) 2(1,3)] by simp
    qed
    then show "distinct (map fst (contents X (map fst (view (o_storage out)))))"
      "newest_data (contents X (map fst (view (o_storage out)))) \<in> {newest_data (contents X ?es), ?ds}"
      by simp_all
  qed
  have "healthy (length buf2) (o_storage out)" using outcome(1) assms(9) by simp
  from ndl_reader.restart_reads [OF ndl_storage.axioms(1) [OF assms(1)] this pos assms(8) new(1)]
  obtain out2 where "process_reads S X buf2 h2 li2 (o_storage out) = Some out2" "is_ok (o_res out2)"
    "\<And>j. o_heap out2 j =
      (if j \<in> set (li_list li2) then read_node X (newest_data (contents X (map fst (view (o_storage out))))) (h2 j)
       else h2 j)"
    by metis
  with new(2) show ?thesis by auto
qed

text \<open>A write that stops because the value of a node does not fit the buffer.\<close>

theorem write_is_all_or_nothing_witness:
  "\<exists>out ds out2. process_writes test_ops cbor_externs (replicate 14 0) sample_heap sample_list test_default = Some out \<and>
     ds \<in> {[], list_data cbor_externs (\<lambda>_. cfg_codec) sample_heap sample_nodes} \<and>
     process_reads test_ops cbor_externs (replicate 14 0) sample_fresh_heap sample_fresh_list (o_storage out) = Some out2 \<and>
     is_ok (o_res out2) \<and>
     (\<forall>j \<in> set (li_list sample_fresh_list). o_heap out2 j = read_node cbor_externs ds (sample_fresh_heap j))"
proof -
  have "\<exists>out. process_writes test_ops cbor_externs (replicate 14 0) sample_heap sample_list test_default = Some out"
    using sample_small_buf by blast
  then obtain out where out: "process_writes test_ops cbor_externs (replicate 14 0) sample_heap sample_list test_default = Some out" ..
  have "\<exists>ds out2. ds \<in> {newest_data (contents cbor_externs (map fst (test_view test_default))),
      list_data cbor_externs (\<lambda>_. cfg_codec) sample_heap (li_list sample_list)} \<and>
    process_reads test_ops cbor_externs (replicate 14 0) sample_fresh_heap sample_fresh_list (o_storage out) = Some out2 \<and>
    is_ok (o_res out2) \<and>
    (\<forall>j \<in> set (li_list sample_fresh_list). o_heap out2 j = read_node cbor_externs ds (sample_fresh_heap j))"
    by (rule write_is_all_or_nothing [OF test_storage.ndl_storage_axioms cbor_externs_ok sample_heap_ok _ _ _ out sample_fresh])
      (simp_all add: sample_healthy sample_synced)
  then show ?thesis
    using out by (auto simp: sample_healthy sample_writing newest_data_def max_seq_def)
qed

text \<open>
  C10: Garbage collection that is due keeps exactly the cached records, in their order and with
  their data, and nothing else; there are at most \<open>KEPT_RECORDS\<close> of them, the newest record is
  still the newest, the list and its nodes are unchanged, no collection is due afterwards, and the
  counters add up.
\<close>

theorem garbage_keeps_cached_records:
  assumes "ndl_storage S healthy view it_ok passed todo room"
    and "healthy (length buf) s" and "synced X kept (map fst (view s)) (li_seq li)" and "needs_gc (li_seq li)"
  shows "\<exists>c li' s'. process_garbage S X kept buf li s = Some (Ok c, li', s') \<and>
    map fst (view s') = layout X (collected (li_seq li) (contents X (map fst (view s)))) \<and>
    contents X (map fst (view s')) = collected (li_seq li) (contents X (map fst (view s))) \<and>
    length (contents X (map fst (view s'))) \<le> kept \<and>
    newest_data (contents X (map fst (view s'))) = newest_data (contents X (map fst (view s))) \<and>
    synced X kept (map fst (view s')) (li_seq li') \<and> \<not> needs_gc (li_seq li') \<and> li_list li' = li_list li \<and>
    pg_total_bytes_popped c + sum_list (map snd (view s')) = sum_list (map snd (view s)) \<and>
    pg_post_collection_bytes_read c = sum_list (map snd (view s'))"
proof -
  have wf: "distinct (map fst (contents X (map fst (view s))))" "seq_wf kept (li_seq li)"
    "map_option gr_seq (highest_seen (li_seq li)) = max_seq (contents X (map fst (view s)))"
    using assms(3) by (simp_all add: synced_def cache_ok_def)
  note kept = collected_newest(2) [OF wf(1,3)] collected_length [OF wf(1,2)]
  obtain c li' s' where "process_garbage S X kept buf li s = Some (Ok c, li', s')"
    "map fst (view s') = layout X (collected (li_seq li) (contents X (map fst (view s))))"
    "li' = li\<lparr>li_seq := (scanned X kept (map fst (view s')))\<lparr>needs_gc := False\<rparr>\<rparr>"
    "synced X kept (map fst (view s')) (li_seq li')"
    "pg_total_bytes_popped c + sum_list (map snd (view s')) = sum_list (map snd (view s))"
    "pg_post_collection_bytes_read c = sum_list (map snd (view s'))"
    using ndl_storage.process_garbage_ok [OF assms] by metis
  with kept show ?thesis by (intro exI [of _ c] exI [of _ li'] exI [of _ s']) simp
qed

text \<open>Of the four records of the sample storage, a list that keeps three drops the oldest.\<close>

theorem garbage_keeps_cached_records_witness:
  "\<exists>c li' s'. process_garbage test_ops cbor_externs 3 sample_buf sample_scanned (storage_of sample_elems) = Some (Ok c, li', s') \<and>
     contents cbor_externs (map fst (test_view s')) = tl sample_records \<and> \<not> needs_gc (li_seq li')"
proof -
  have "seq_keys (li_seq sample_scanned) = [Some 2, Some 3, Some 4]"
    using scanned_keys [OF _ test_storage.view_typed [OF sample_storage(1)], of 3 cbor_externs]
    by (simp add: sample_storage sample_scanned_def flip: contents_seqs)
      (simp add: sample_contents sample_records_def top_keys_def numeral_3_eq_3)
  then have "gr_seq ` set (present (li_seq sample_scanned)) = {2, 3, 4}"
    by (auto simp: present_keys)
  then have collected: "collected (li_seq sample_scanned) sample_records = tl sample_records"
    by (simp add: collected_def sample_records_def)
  have "\<exists>c li' s'. process_garbage test_ops cbor_externs 3 sample_buf sample_scanned (storage_of sample_elems) = Some (Ok c, li', s') \<and>
    map fst (test_view s') = layout cbor_externs (collected (li_seq sample_scanned)
      (contents cbor_externs (map fst (test_view (storage_of sample_elems))))) \<and>
    contents cbor_externs (map fst (test_view s')) = collected (li_seq sample_scanned)
      (contents cbor_externs (map fst (test_view (storage_of sample_elems)))) \<and>
    length (contents cbor_externs (map fst (test_view s'))) \<le> 3 \<and>
    newest_data (contents cbor_externs (map fst (test_view s'))) =
      newest_data (contents cbor_externs (map fst (test_view (storage_of sample_elems)))) \<and>
    synced cbor_externs 3 (map fst (test_view s')) (li_seq li') \<and> \<not> needs_gc (li_seq li') \<and>
    li_list li' = li_list sample_scanned \<and>
    pg_total_bytes_popped c + sum_list (map snd (test_view s')) = sum_list (map snd (test_view (storage_of sample_elems))) \<and>
    pg_post_collection_bytes_read c = sum_list (map snd (test_view s'))"
    by (rule garbage_keeps_cached_records [OF test_storage.ndl_storage_axioms])
      (simp_all add: sample_storage sample_scanned_synced)
  then show ?thesis by (auto simp: sample_storage sample_contents collected)
qed

end
